(* ===== verification/Prelude.thy ===== *)
theory Prelude
  imports
    Complex_Main
    "HOL-Library.AList"
    "HOL-Library.Char_ord"
    "HOL-Library.List_Lexorder"
    "HOL-Library.Sublist"
    "HOL-Library.Multiset"
begin

text \<open>
  Shared vocabulary of the development: the Go values the program computes with (byte
  strings, 64-bit integers, instants and durations, binary64 floats, maps with an iteration
  order), the functions of Go's \<open>strings\<close>, \<open>strconv\<close> and \<open>time\<close> packages it calls, and
  the generic lemmas about them.

  Conventions. A Go \<open>string\<close> or \<open>[]byte\<close> is the HOL type \<^typ>\<open>string\<close>, whose
  characters are bytes. An instant (\<open>time.Time\<close>) is the number of nanoseconds since the Unix
  epoch, an unbounded \<^typ>\<open>int\<close>; a \<open>time.Duration\<close> is an \<open>int64\<close> of nanoseconds, an
  \<^typ>\<open>int\<close> whose wrap-around is written out with \<open>wrap64\<close> wherever the code multiplies
  durations. A map whose iteration order the code can observe is an association list with
  distinct keys, whose order stands for one possible iteration order; a map that is only
  looked up is a HOL map.
\<close>

type_synonym bytes = string
type_synonym 'v gomap = "(string \<times> 'v) list"

named_theorems wf_intros \<open>introduction rules that re-establish the invariant of a component\<close>
named_theorems view_simps \<open>what an operation does to the map view of a structure\<close>


section \<open>Maps with an iteration order\<close>

lemma map_of_alist_update [simp, view_simps]:
  "map_of (AList.update k v m) k' = (if k' = k then Some v else map_of m k')"
  by (simp add: AList.update_conv')

lemma map_of_alist_delete [simp, view_simps]:
  "map_of (AList.delete k m) k' = (if k' = k then None else map_of m k')"
  by (simp add: AList.delete_conv')

lemma distinct_alist_update [simp, wf_intros]:
  "distinct (map fst m) \<Longrightarrow> distinct (map fst (AList.update k v m))"
  by (rule AList.distinct_update)

lemma distinct_alist_delete [simp, wf_intros]:
  "distinct (map fst m) \<Longrightarrow> distinct (map fst (AList.delete k m))"
  by (simp add: AList.delete_keys distinct_removeAll)

lemma key_map_of: "k \<in> set (map fst m) \<longleftrightarrow> map_of m k \<noteq> None"
  by (simp add: map_of_eq_None_iff)

lemma map_of_filter_key:
  "map_of (filter (\<lambda>kv. P (fst kv)) m) k = (if P k then map_of m k else None)"
  by (induction m) auto

lemma distinct_filter_key: "distinct (map fst m) \<Longrightarrow> distinct (map fst (filter P m))"
  by (induction m) auto


section \<open>Byte strings (package strings)\<close>

definition HasPrefix :: "string \<Rightarrow> string \<Rightarrow> bool" where
  "HasPrefix s p \<longleftrightarrow> take (length p) s = p"

definition HasSuffix :: "string \<Rightarrow> string \<Rightarrow> bool" where
  "HasSuffix s p \<longleftrightarrow> HasPrefix (rev s) (rev p)"

fun Contains :: "string \<Rightarrow> string \<Rightarrow> bool" where
  "Contains [] p \<longleftrightarrow> p = []"
| "Contains (c # s) p \<longleftrightarrow> HasPrefix (c # s) p \<or> Contains s p"

definition TrimPrefix :: "string \<Rightarrow> string \<Rightarrow> string" where
  "TrimPrefix s p = (if HasPrefix s p then drop (length p) s else s)"

text \<open>\<open>strings.Split(s, sep)\<close> for a one-byte separator, and \<open>strings.Join\<close>.\<close>

fun Split :: "string \<Rightarrow> char \<Rightarrow> string list" where
  "Split [] c = [[]]"
| "Split (x # s) c =
     (if x = c then [] # Split s c
      else (case Split s c of [] \<Rightarrow> [[x]] | w # ws \<Rightarrow> (x # w) # ws))"

fun Join :: "string list \<Rightarrow> string \<Rightarrow> string" where
  "Join [] sep = []"
| "Join [w] sep = w"
| "Join (w # v # ws) sep = w @ sep @ Join (v # ws) sep"

text \<open>
  \<open>strings.ToLower\<close> and \<open>strings.TrimSpace\<close> on ASCII. The code only tests the results
  against ASCII words without a \<open>k\<close> (\<open>U+212A\<close> is the one non-ASCII letter whose lower case
  is ASCII), so the Unicode case tables do not matter.
\<close>

definition byte_of :: "char \<Rightarrow> nat" where
  "byte_of c = of_char c"

definition lower_char :: "char \<Rightarrow> char" where
  "lower_char c = (if 65 \<le> byte_of c \<and> byte_of c \<le> 90 then char_of (byte_of c + 32) else c)"

definition upper_char :: "char \<Rightarrow> char" where
  "upper_char c = (if 97 \<le> byte_of c \<and> byte_of c \<le> 122 then char_of (byte_of c - 32) else c)"

definition ToLower :: "string \<Rightarrow> string" where
  "ToLower s = map lower_char s"

definition is_space :: "char \<Rightarrow> bool" where
  "is_space c \<longleftrightarrow> byte_of c \<in> {9, 10, 11, 12, 13, 32}"

definition TrimSpace :: "string \<Rightarrow> string" where
  "TrimSpace s = rev (dropWhile is_space (rev (dropWhile is_space s)))"

lemma HasPrefix_iff_prefix: "HasPrefix s p \<longleftrightarrow> prefix p s"
  by (metis HasPrefix_def append_eq_conv_conj prefix_def)

lemma HasPrefix_append [simp]: "HasPrefix (p @ s) p"
  by (simp add: HasPrefix_def)

lemma HasPrefix_Nil [simp]: "HasPrefix s []"
  by (simp add: HasPrefix_def)

lemma HasPrefix_trans: "HasPrefix s p \<Longrightarrow> HasPrefix p q \<Longrightarrow> HasPrefix s q"
  by (auto simp: HasPrefix_iff_prefix intro: prefix_order.trans)

lemma HasSuffix_iff_suffix: "HasSuffix s p \<longleftrightarrow> suffix p s"
  by (simp add: HasSuffix_def HasPrefix_iff_prefix suffix_to_prefix)

lemma Split_not_Nil [simp]: "Split s c \<noteq> []"
  by (induction s c rule: Split.induct) (auto split: list.splits)

lemma Join_Split: "Join (Split s c) [c] = s"
proof (induction s c rule: Split.induct)
  case (1 c)
  show ?case by simp
next
  case (2 x s c)
  obtain w ws where ws: "Split s c = w # ws"
    by (cases "Split s c") auto
  with 2 show ?case by (cases ws) auto
qed

lemma set_Join: "set (Join ws sep) \<subseteq> (\<Union>w\<in>set ws. set w) \<union> set sep"
  by (induction ws sep rule: Join.induct) auto


section \<open>Numerals (package strconv)\<close>

definition digit_char :: "nat \<Rightarrow> char" where
  "digit_char d = char_of (if d < 10 then 48 + d else 87 + d)"

fun show_nat :: "nat \<Rightarrow> string" where
  "show_nat n = (if n < 10 then [digit_char n] else show_nat (n div 10) @ [digit_char (n mod 10)])"

declare show_nat.simps [simp del]

definition show_int :: "int \<Rightarrow> string" where
  "show_int i = (if i < 0 then CHR ''-'' # show_nat (nat (- i)) else show_nat (nat i))"

definition is_digit :: "char \<Rightarrow> bool" where
  "is_digit c \<longleftrightarrow> 48 \<le> byte_of c \<and> byte_of c \<le> 57"

definition digits_value :: "string \<Rightarrow> int" where
  "digits_value s = foldl (\<lambda>n c. n * 10 + (int (byte_of c) - 48)) 0 s"

definition int64_min :: int where "int64_min = - (2 ^ 63)"
definition int64_max :: int where "int64_max = 2 ^ 63 - 1"

text \<open>\<open>strconv.Atoi\<close>: an optional sign, then decimal digits, within \<open>int64\<close>.\<close>

definition Atoi :: "string \<Rightarrow> int option" where
  "Atoi s =
     (let neg = (s \<noteq> [] \<and> hd s = CHR ''-'');
          ds = (if s \<noteq> [] \<and> (hd s = CHR ''-'' \<or> hd s = CHR ''+'') then tl s else s)
      in if ds = [] \<or> \<not> list_all is_digit ds then None
         else (let v = (if neg then - digits_value ds else digits_value ds)
               in if int64_min \<le> v \<and> v \<le> int64_max then Some v else None))"

text \<open>\<open>fmt.Sprintf("%x", b)\<close>: two lower-case hexadecimal digits per byte.\<close>

definition hex_byte :: "char \<Rightarrow> string" where
  "hex_byte c = [digit_char (byte_of c div 16), digit_char (byte_of c mod 16)]"

definition hex :: "bytes \<Rightarrow> string" where
  "hex b = concat (map hex_byte b)"

definition is_hex_digit :: "char \<Rightarrow> bool" where
  "is_hex_digit c \<longleftrightarrow> is_digit c \<or> (97 \<le> byte_of c \<and> byte_of c \<le> 102)"

lemma byte_of_less [simp]: "byte_of c < 256"
  by (simp add: byte_of_def)

lemma byte_of_char_of [simp]: "n < 256 \<Longrightarrow> byte_of (char_of n) = n"
  by (simp add: byte_of_def)

lemma byte_of_inject [simp]: "byte_of c = byte_of d \<longleftrightarrow> c = d"
  by (simp add: byte_of_def)

lemma is_hex_digit_char [simp]: "d < 16 \<Longrightarrow> is_hex_digit (digit_char d)"
  by (auto simp: is_hex_digit_def is_digit_def digit_char_def)

lemma hex_digits: "list_all is_hex_digit (hex b)"
proof -
  have "byte_of c div 16 < 16" for c
    using byte_of_less [of c] by (simp add: less_mult_imp_div_less)
  then show ?thesis by (induction b) (auto simp: hex_def hex_byte_def)
qed

lemma length_hex [simp]: "length (hex b) = 2 * length b"
  by (induction b) (auto simp: hex_def hex_byte_def)

lemma hex_char_neq:
  assumes "c \<in> set (hex b)" shows "is_hex_digit c"
  using hex_digits [of b] assms by (auto simp: list_all_iff)


section \<open>64-bit integers, instants and durations (package time)\<close>

type_synonym time = int
type_synonym duration = int

definition wrap64 :: "int \<Rightarrow> int" where
  "wrap64 x = (x + 2 ^ 63) mod 2 ^ 64 - 2 ^ 63"

definition int64 :: "int \<Rightarrow> bool" where
  "int64 x \<longleftrightarrow> int64_min \<le> x \<and> x \<le> int64_max"

definition Nanosecond :: duration where "Nanosecond = 1"
definition Second :: duration where "Second = 1000000000"
definition Minute :: duration where "Minute = 60 * Second"
definition Hour :: duration where "Hour = 60 * Minute"

text \<open>\<open>t.After(u)\<close>, \<open>t.Before(u)\<close>, \<open>t.Add(d)\<close>; \<open>time.Until(t)\<close> saturates at the ends
  of \<open>int64\<close>; the product of a duration and an integer wraps.\<close>

definition After :: "time \<Rightarrow> time \<Rightarrow> bool" where
  "After t u \<longleftrightarrow> u < t"

definition Before :: "time \<Rightarrow> time \<Rightarrow> bool" where
  "Before t u \<longleftrightarrow> t < u"

definition Add :: "time \<Rightarrow> duration \<Rightarrow> time" where
  "Add t d = t + d"

definition clamp64 :: "int \<Rightarrow> int" where
  "clamp64 x = max int64_min (min int64_max x)"

definition Until :: "time \<Rightarrow> time \<Rightarrow> duration" where
  "Until now t = clamp64 (t - now)"

definition duration_mul :: "int \<Rightarrow> duration \<Rightarrow> duration" where
  "duration_mul n d = wrap64 (n * d)"

lemmas int64_bounds = int64_def int64_min_def int64_max_def

lemma wrap64_id: "int64 x \<Longrightarrow> wrap64 x = x"
  by (auto simp: wrap64_def int64_bounds)

lemma wrap64_int64: "int64 (wrap64 x)"
proof -
  have "(x + 2 ^ 63) mod 2 ^ 64 < (2 ^ 64 :: int)" and "0 \<le> (x + 2 ^ 63) mod (2 ^ 64 :: int)"
    by simp_all
  then show ?thesis by (auto simp: wrap64_def int64_bounds)
qed

lemma clamp64_int64: "int64 (clamp64 x)"
  by (auto simp: clamp64_def int64_bounds)


section \<open>Binary64 floats\<close>

text \<open>
  A finite \<open>float64\<close> is a rational. \<open>fl\<close> rounds to a 53-bit significand, ties to even; it is
  applied to integers of at most 64 bits and to counts of seconds, so neither overflow nor
  subnormal numbers occur. Comparisons with NaN are false, as in Go.
\<close>

datatype float64 = Fin rat | PInf | NInf | NaN

instantiation float64 :: ord
begin

fun less_eq_float64 :: "float64 \<Rightarrow> float64 \<Rightarrow> bool" where
  "less_eq_float64 NaN y = False"
| "less_eq_float64 x NaN = False"
| "less_eq_float64 NInf y = True"
| "less_eq_float64 x PInf = True"
| "less_eq_float64 (Fin a) (Fin b) = (a \<le> b)"
| "less_eq_float64 x y = False"

definition less_float64 :: "float64 \<Rightarrow> float64 \<Rightarrow> bool" where
  "less_float64 x y \<longleftrightarrow> x \<le> y \<and> \<not> y \<le> x"

instance ..

end

definition pow2 :: "int \<Rightarrow> rat" where
  "pow2 e = (if 0 \<le> e then 2 ^ nat e else 1 / 2 ^ nat (- e))"

fun bitlen :: "nat \<Rightarrow> nat" where
  "bitlen n = (if n = 0 then 0 else Suc (bitlen (n div 2)))"

declare bitlen.simps [simp del]

definition ilog2 :: "rat \<Rightarrow> int" where
  "ilog2 x = (let (a, b) = quotient_of x; k = int (bitlen (nat a)) - int (bitlen (nat b))
     in if pow2 k \<le> x then k else k - 1)"

definition round_even :: "rat \<Rightarrow> int" where
  "round_even y = (let f = \<lfloor>y\<rfloor>; d = y - of_int f
     in if d < 1 / 2 then f else if 1 / 2 < d then f + 1 else if even f then f else f + 1)"

definition fl :: "rat \<Rightarrow> rat" where
  "fl x = (if x = 0 then 0
     else let e = ilog2 \<bar>x\<bar> - 52 in of_int (round_even (x / pow2 e)) * pow2 e)"

definition float64_of_int :: "int \<Rightarrow> float64" where
  "float64_of_int n = Fin (fl (of_int n))"

text \<open>
  \<open>int(f)\<close> truncates towards zero. Go leaves a value outside \<open>int64\<close>, and NaN, to the
  implementation: here it is the amd64 conversion, which yields the least \<open>int64\<close>.
\<close>

definition trunc_rat :: "rat \<Rightarrow> int" where
  "trunc_rat x = (if 0 \<le> x then \<lfloor>x\<rfloor> else - \<lfloor>- x\<rfloor>)"

fun int_of_float64 :: "float64 \<Rightarrow> int" where
  "int_of_float64 (Fin x) = (if int64 (trunc_rat x) then trunc_rat x else int64_min)"
| "int_of_float64 _ = int64_min"

lemma bitlen_bounds: "0 < n \<Longrightarrow> 2 ^ (bitlen n - 1) \<le> n \<and> n < 2 ^ bitlen n"
proof (induction n rule: bitlen.induct)
  case (1 n)
  show ?case
  proof (cases "n = 1")
    case True
    then show ?thesis by (simp add: bitlen.simps)
  next
    case False
    with 1 have IH: "2 ^ (bitlen (n div 2) - 1) \<le> n div 2" "n div 2 < 2 ^ bitlen (n div 2)"
      by auto
    from False 1 have "0 < bitlen (n div 2)"
      by (subst bitlen.simps) auto
    then have p: "2 ^ bitlen (n div 2) = 2 * (2 ^ (bitlen (n div 2) - 1) :: nat)"
      by (metis Suc_diff_1 power_Suc)
    have eq: "bitlen n = Suc (bitlen (n div 2))"
      using 1 by (simp add: bitlen.simps [of n])
    have "2 * 2 ^ (bitlen (n div 2) - 1) \<le> n" "n < 2 * 2 ^ bitlen (n div 2)"
      using IH p by linarith+
    then show ?thesis unfolding eq using p by simp
  qed
qed

lemma round_even_of_int [simp]: "round_even (of_int n) = n"
  by (simp add: round_even_def)

text \<open>Every integer of magnitude below \<open>2 ^ 53\<close> is exactly representable.\<close>

lemma ilog2_of_nat:
  assumes "0 < n" "n < 2 ^ 53" shows "ilog2 (of_nat n) \<le> 52"
proof -
  have "bitlen n \<le> 53"
  proof (rule ccontr)
    assume "\<not> bitlen n \<le> 53"
    then have "(2::nat) ^ 53 \<le> 2 ^ (bitlen n - 1)"
      by (intro power_increasing) auto
    with bitlen_bounds [OF assms(1)] assms(2) show False by simp
  qed
  moreover have "quotient_of (of_nat n) = (int n, 1)"
    by (simp add: of_nat_rat quotient_of_Fract normalize_def)
  moreover have "bitlen 1 = 1" by (simp add: bitlen.simps)
  ultimately show ?thesis by (auto simp: ilog2_def Let_def)
qed

lemma fl_of_nat:
  assumes "n < 2 ^ 53" shows "fl (of_nat n) = of_nat n"
proof (cases "n = 0")
  case False
  define e where "e = ilog2 (of_nat n :: rat) - 52"
  have "e \<le> 0" using ilog2_of_nat [of n] False assms by (simp add: e_def)
  then have "(of_nat n :: rat) / pow2 e = of_int (int n * 2 ^ nat (- e))" and "pow2 e \<noteq> 0"
    by (auto simp: pow2_def)
  then show ?thesis using False
    by (simp add: fl_def Let_def flip: e_def)
       (metis of_int_mult of_int_of_nat_eq of_int_power of_int_numeral round_even_of_int
          nonzero_eq_divide_eq)
qed (simp add: fl_def)

lemma float64_of_nat: "n < 2 ^ 53 \<Longrightarrow> float64_of_int (int n) = Fin (of_nat n)"
  by (simp add: float64_of_int_def fl_of_nat)


section \<open>Readers (package io)\<close>

text \<open>
  An \<open>io.Reader\<close> is the bytes it still yields and how it ends: at end of file, or with an
  error after those bytes.
\<close>

datatype reader = Reader (rd_data: bytes) (rd_err: "string option")

definition ReadAll :: "reader \<Rightarrow> string + bytes" where
  "ReadAll r = (case rd_err r of None \<Rightarrow> Inr (rd_data r) | Some e \<Rightarrow> Inl e)"

definition bytes_reader :: "bytes \<Rightarrow> reader" where
  "bytes_reader b = Reader b None"

lemma ReadAll_bytes_reader [simp]: "ReadAll (bytes_reader b) = Inr b"
  by (simp add: ReadAll_def bytes_reader_def)

lemma ReadAll_Inr: "ReadAll rd = Inr b \<longleftrightarrow> rd = bytes_reader b"
  by (cases rd) (auto simp: ReadAll_def bytes_reader_def split: option.split)

lemma bytes_reader_sel [simp]: "rd_data (bytes_reader b) = b" "rd_err (bytes_reader b) = None"
  by (simp_all add: bytes_reader_def)


section \<open>Lists that change at one place, and runs that a measure bounds\<close>

lemma sum_list_update_less:
  fixes xs :: "nat list"
  shows "i < length xs \<Longrightarrow> y < xs ! i \<Longrightarrow> sum_list (xs[i := y]) < sum_list xs"
  by (induction xs arbitrary: i) (auto split: nat.splits)

lemma list_all_update: "list_all P xs \<Longrightarrow> P y \<Longrightarrow> list_all P (xs[i := y])"
  by (auto simp: list_all_iff dest!: set_update_subset_insert [THEN subsetD])

lemma in_set_update_other: "y \<in> set xs \<Longrightarrow> y \<noteq> xs ! i \<Longrightarrow> y \<in> set (xs[i := z])"
  by (induction xs arbitrary: i) (auto split: nat.splits)

lemma length_filter_update:
  "i < length xs \<Longrightarrow>
   length (filter P (xs[i := y])) + (if P (xs ! i) then 1 else 0) =
   length (filter P xs) + (if P y then 1 else 0)"
proof (induction xs arbitrary: i)
  case (Cons x xs)
  show ?case
  proof (cases i)
    case (Suc n)
    with Cons.IH [of n] Cons.prems show ?thesis by simp
  qed simp
qed simp

lemma filter_update_unique:
  "length (filter P xs) \<le> 1 \<Longrightarrow> i < length xs \<Longrightarrow> P (xs ! i) \<Longrightarrow> y \<in> set (xs[i := z]) \<Longrightarrow>
   y = z \<or> y \<in> set xs \<and> \<not> P y"
proof (induction xs arbitrary: i)
  case (Cons x xs)
  show ?case
  proof (cases i)
    case 0
    with Cons.prems show ?thesis by (auto simp: filter_empty_conv)
  next
    case (Suc n)
    with Cons.prems have "\<not> P x" by (auto simp: filter_empty_conv split: if_splits)
    with Suc Cons.IH [of n] Cons.prems show ?thesis by auto
  qed
qed simp

lemma relpow_measure:
  assumes "\<And>x y. R x y \<Longrightarrow> f y < (f x :: nat)" "(R ^^ n) x y"
  shows "n + f y \<le> f x"
  using assms(2)
proof (induction n arbitrary: y)
  case (Suc n)
  then obtain z where z: "(R ^^ n) x z" "R z y" by auto
  from Suc.IH [OF z(1)] assms(1) [OF z(2)] show ?case by simp
qed simp

lemma measure_reaches_end:
  assumes "\<And>x y. R x y \<Longrightarrow> f y < (f x :: nat)"
  shows "\<exists>y. R\<^sup>*\<^sup>* x y \<and> (\<nexists>z. R y z)"
proof (induction "f x" arbitrary: x rule: less_induct)
  case less
  show ?case
  proof (cases "\<exists>y. R x y")
    case True
    then obtain y where y: "R x y" by blast
    from less.hyps [OF assms [OF y]] y show ?thesis by (meson converse_rtranclp_into_rtranclp)
  qed auto
qed

end
