(* ===== verification/Httplib.thy ===== *)
theory Httplib
  imports Prelude
begin

text \<open>
  What the program uses of Go's \<open>net/http\<close>, \<open>net/textproto\<close>, \<open>net/url\<close> and \<open>net\<close>
  packages: header maps with canonical keys, requests, query strings, host/port splitting,
  and the response writer, whose header is frozen by the first \<open>WriteHeader\<close>.
\<close>

section \<open>Header maps\<close>

type_synonym header = "string list gomap"

definition valid_field_byte :: "char \<Rightarrow> bool" where
  "valid_field_byte c \<longleftrightarrow>
     is_digit c \<or> (65 \<le> byte_of c \<and> byte_of c \<le> 90) \<or> (97 \<le> byte_of c \<and> byte_of c \<le> 122)
     \<or> c \<in> set ''!#$%&*+-.^_`|~'' \<or> byte_of c = 39"

fun canon_chars :: "bool \<Rightarrow> string \<Rightarrow> string" where
  "canon_chars upper [] = []"
| "canon_chars upper (c # cs) =
     (let d = (if upper then upper_char c else lower_char c) in d # canon_chars (d = CHR ''-'') cs)"

definition CanonicalKey :: "string \<Rightarrow> string" where
  "CanonicalKey k = (if list_all valid_field_byte k then canon_chars True k else k)"

definition Header_Get :: "header \<Rightarrow> string \<Rightarrow> string" where
  "Header_Get h k = (case map_of h (CanonicalKey k) of Some (v # vs) \<Rightarrow> v | _ \<Rightarrow> [])"

definition Header_Set :: "header \<Rightarrow> string \<Rightarrow> string \<Rightarrow> header" where
  "Header_Set h k v = AList.update (CanonicalKey k) [v] h"

definition Header_Add :: "header \<Rightarrow> string \<Rightarrow> string \<Rightarrow> header" where
  "Header_Add h k v =
     (let k' = CanonicalKey k
      in AList.update k' ((case map_of h k' of None \<Rightarrow> [] | Some vs \<Rightarrow> vs) @ [v]) h)"

definition Header_Del :: "header \<Rightarrow> string \<Rightarrow> header" where
  "Header_Del h k = AList.delete (CanonicalKey k) h"

text \<open>All values of a key, as the wire shows them (an absent key has none).\<close>

definition Header_Values :: "header \<Rightarrow> string \<Rightarrow> string list" where
  "Header_Values h k = (case map_of h (CanonicalKey k) of None \<Rightarrow> [] | Some vs \<Rightarrow> vs)"

lemma byte_lower_char: "byte_of (lower_char c) =
    (if 65 \<le> byte_of c \<and> byte_of c \<le> 90 then byte_of c + 32 else byte_of c)"
  by (simp add: lower_char_def)

lemma byte_upper_char: "byte_of (upper_char c) =
    (if 97 \<le> byte_of c \<and> byte_of c \<le> 122 then byte_of c - 32 else byte_of c)"
  by (auto simp: upper_char_def)

lemma valid_field_letter:
  "97 \<le> byte_of c \<Longrightarrow> byte_of c \<le> 122 \<Longrightarrow> valid_field_byte c"
  "65 \<le> byte_of c \<Longrightarrow> byte_of c \<le> 90 \<Longrightarrow> valid_field_byte c"
  unfolding valid_field_byte_def by blast+

lemma valid_upper_char: "valid_field_byte c \<Longrightarrow> valid_field_byte (upper_char c)"
  by (cases "97 \<le> byte_of c \<and> byte_of c \<le> 122")
     (auto simp: byte_upper_char intro: valid_field_letter(2), auto simp: upper_char_def)

lemma valid_lower_char: "valid_field_byte c \<Longrightarrow> valid_field_byte (lower_char c)"
  by (cases "65 \<le> byte_of c \<and> byte_of c \<le> 90")
     (auto simp: byte_lower_char intro: valid_field_letter(1), auto simp: lower_char_def)

lemma upper_char_idem [simp]: "upper_char (upper_char c) = upper_char c"
  by (auto simp: byte_upper_char simp flip: byte_of_inject)

lemma lower_char_idem [simp]: "lower_char (lower_char c) = lower_char c"
  by (auto simp: byte_lower_char simp flip: byte_of_inject)

lemma canon_chars_valid:
  "list_all valid_field_byte k \<Longrightarrow> list_all valid_field_byte (canon_chars u k)"
  by (induction k arbitrary: u) (auto simp: Let_def valid_upper_char valid_lower_char)

lemma canon_chars_idem: "canon_chars u (canon_chars u k) = canon_chars u k"
  by (induction k arbitrary: u) (auto simp: Let_def)

lemma CanonicalKey_idem [simp]: "CanonicalKey (CanonicalKey k) = CanonicalKey k"
  by (simp add: CanonicalKey_def canon_chars_valid canon_chars_idem)

lemma map_of_Header_Set [simp]:
  "map_of (Header_Set h k v) k' = (if k' = CanonicalKey k then Some [v] else map_of h k')"
  by (simp add: Header_Set_def)

lemma map_of_Header_Del [simp]:
  "map_of (Header_Del h k) k' = (if k' = CanonicalKey k then None else map_of h k')"
  by (simp add: Header_Del_def)

lemma Header_Values_Set:
  "Header_Values (Header_Set h k v) k' =
     (if CanonicalKey k' = CanonicalKey k then [v] else Header_Values h k')"
  by (simp add: Header_Values_def)

lemma Header_Values_Add:
  "Header_Values (Header_Add h k v) k' =
     (if CanonicalKey k' = CanonicalKey k then Header_Values h k @ [v] else Header_Values h k')"
  by (simp add: Header_Values_def Header_Add_def Let_def)

lemma Header_Values_Del:
  "Header_Values (Header_Del h k) k' =
     (if CanonicalKey k' = CanonicalKey k then [] else Header_Values h k')"
  by (simp add: Header_Values_def)

lemmas Header_Values_simps = Header_Values_Set Header_Values_Add Header_Values_Del

lemma Header_Get_Values: "Header_Get h k = (case Header_Values h k of [] \<Rightarrow> [] | v # vs \<Rightarrow> v)"
  by (auto simp: Header_Get_def Header_Values_def split: option.splits list.splits)

lemma distinct_Header_ops [simp, wf_intros]:
  "distinct (map fst h) \<Longrightarrow> distinct (map fst (Header_Set h k v))"
  "distinct (map fst h) \<Longrightarrow> distinct (map fst (Header_Add h k v))"
  "distinct (map fst h) \<Longrightarrow> distinct (map fst (Header_Del h k))"
  by (simp_all add: Header_Set_def Header_Add_def Header_Del_def Let_def)


section \<open>Requests, query strings, host and port\<close>

record Request =
  Host :: string
  URLPath :: string
  RawQuery :: string
  ReqHeader :: header
  RemoteAddr :: string

definition unhex :: "char \<Rightarrow> nat option" where
  "unhex c = (if is_digit c then Some (byte_of c - 48)
     else if 97 \<le> byte_of c \<and> byte_of c \<le> 102 then Some (byte_of c - 87)
     else if 65 \<le> byte_of c \<and> byte_of c \<le> 70 then Some (byte_of c - 55) else None)"

text \<open>\<open>url.QueryUnescape\<close>: \<open>%XX\<close> and \<open>+\<close>; a malformed escape is an error.\<close>

fun QueryUnescape :: "string \<Rightarrow> string option" where
  "QueryUnescape [] = Some []"
| "QueryUnescape (c # s) =
     (if c = CHR ''%'' then
        (case s of
           a # b # s' \<Rightarrow>
             (case (unhex a, unhex b) of
                (Some x, Some y) \<Rightarrow> map_option ((#) (char_of (16 * x + y))) (QueryUnescape s')
              | _ \<Rightarrow> None)
         | _ \<Rightarrow> None)
      else map_option ((#) (if c = CHR ''+'' then CHR '' '' else c)) (QueryUnescape s))"

definition Cut :: "string \<Rightarrow> char \<Rightarrow> string \<times> string" where
  "Cut s c = (takeWhile (\<lambda>x. x \<noteq> c) s, tl (dropWhile (\<lambda>x. x \<noteq> c) s))"

text \<open>
  \<open>r.URL.Query()\<close>: every \<open>&\<close>-separated piece adds one value; empty pieces, pieces with a
  semicolon and pieces with a malformed escape are dropped.
\<close>

definition add_query_piece :: "string list gomap \<Rightarrow> string \<Rightarrow> string list gomap" where
  "add_query_piece m p =
     (if p = [] \<or> CHR '';'' \<in> set p then m
      else case (QueryUnescape (fst (Cut p (CHR ''=''))), QueryUnescape (snd (Cut p (CHR ''='')))) of
        (Some k, Some v) \<Rightarrow>
          AList.update k ((case map_of m k of None \<Rightarrow> [] | Some vs \<Rightarrow> vs) @ [v]) m
      | _ \<Rightarrow> m)"

definition ParseQuery :: "string \<Rightarrow> string list gomap" where
  "ParseQuery s = foldl add_query_piece [] (Split s (CHR ''&''))"

text \<open>The last index of a byte, and \<open>net.SplitHostPort\<close> (\<open>None\<close> is its error).\<close>

fun last_index :: "char \<Rightarrow> string \<Rightarrow> nat option" where
  "last_index c [] = None"
| "last_index c (x # s) =
     (case last_index c s of Some i \<Rightarrow> Some (Suc i) | None \<Rightarrow> if x = c then Some 0 else None)"

fun first_index :: "char \<Rightarrow> string \<Rightarrow> nat option" where
  "first_index c [] = None"
| "first_index c (x # s) = (if x = c then Some 0 else map_option Suc (first_index c s))"

definition SplitHostPort :: "string \<Rightarrow> (string \<times> string) option" where
  "SplitHostPort hp =
     (case last_index (CHR '':'') hp of
        None \<Rightarrow> None
      | Some i \<Rightarrow>
          if hd hp = CHR ''['' then
            (case first_index (CHR '']'') hp of
               None \<Rightarrow> None
             | Some e \<Rightarrow>
                 if e + 1 \<noteq> i then None
                 else if CHR ''['' \<in> set (drop 1 hp) \<or> CHR '']'' \<in> set (drop (e + 1) hp) then None
                 else Some (drop 1 (take e hp), drop (i + 1) hp))
          else if CHR '':'' \<in> set (take i hp) then None
          else if CHR ''['' \<in> set hp \<or> CHR '']'' \<in> set hp then None
          else Some (take i hp, drop (i + 1) hp))"

lemma last_index_None: "last_index c s = None \<longleftrightarrow> c \<notin> set s"
  by (induction s) (auto split: option.splits)

lemma last_index_append:
  "c \<notin> set t \<Longrightarrow> last_index c (s @ c # t) = Some (length s)"
  by (induction s) (auto simp: last_index_None split: option.splits)


section \<open>Response writers\<close>

text \<open>
  The writer a handler gets, with what \<open>server/middleware.go\<close> wraps around it: \<open>wLogged\<close> is
  the field \<open>status\<close> of that wrapper, the last code passed to its \<open>WriteHeader\<close> (the status
  that an early \<open>Write\<close> implies does not go through the wrapper), and \<open>wBytes\<close> its field \<open>bytes\<close>,
  the bytes written through it. \<open>wStatus\<close>, \<open>wSent\<close> and \<open>wBody\<close> are what the client gets.
\<close>

record ResponseWriter =
  wHeader :: header
  wStatus :: "int option"
  wSent :: header
  wBody :: bytes
  wLogged :: int
  wBytes :: int

definition new_writer :: ResponseWriter where
  "new_writer = \<lparr>wHeader = [], wStatus = None, wSent = [], wBody = [], wLogged = 200, wBytes = 0\<rparr>"

text \<open>\<open>&responseWriter{ResponseWriter: w, status: http.StatusOK}\<close>.\<close>

abbreviation wrapped :: "ResponseWriter \<Rightarrow> ResponseWriter" where
  "wrapped w \<equiv> w\<lparr>wLogged := 200, wBytes := 0\<rparr>"

definition send_header :: "int \<Rightarrow> ResponseWriter \<Rightarrow> ResponseWriter" where
  "send_header code w =
     (case wStatus w of None \<Rightarrow> w\<lparr>wStatus := Some code, wSent := wHeader w\<rparr> | Some _ \<Rightarrow> w)"

definition WriteHeader :: "int \<Rightarrow> ResponseWriter \<Rightarrow> ResponseWriter" where
  "WriteHeader code w = send_header code (w\<lparr>wLogged := code\<rparr>)"

definition Write :: "bytes \<Rightarrow> ResponseWriter \<Rightarrow> ResponseWriter" where
  "Write b w =
     (let w' = send_header 200 w in w'\<lparr>wBody := wBody w' @ b, wBytes := wBytes w' + int (length b)\<rparr>)"

definition set_wHeader :: "string \<Rightarrow> string \<Rightarrow> ResponseWriter \<Rightarrow> ResponseWriter" where
  "set_wHeader k v w = w\<lparr>wHeader := Header_Set (wHeader w) k v\<rparr>"

definition newline :: char where "newline = char_of (10::nat)"

definition http_Error :: "string \<Rightarrow> int \<Rightarrow> ResponseWriter \<Rightarrow> ResponseWriter" where
  "http_Error msg code w =
     (let w1 = w\<lparr>wHeader := Header_Del (wHeader w) ''Content-Length''\<rparr>;
          w2 = set_wHeader ''Content-Type'' ''text/plain; charset=utf-8'' w1;
          w3 = set_wHeader ''X-Content-Type-Options'' ''nosniff'' w2
      in Write (msg @ [newline]) (WriteHeader code w3))"

definition http_NotFound :: "ResponseWriter \<Rightarrow> ResponseWriter" where
  "http_NotFound w = http_Error ''404 page not found'' 404 w"

lemma wStatus_WriteHeader [simp]:
  "wStatus (WriteHeader c w) = Some (case wStatus w of None \<Rightarrow> c | Some c' \<Rightarrow> c')"
  by (simp add: WriteHeader_def send_header_def split: option.splits)

lemma wStatus_Write [simp]:
  "wStatus (Write b w) = Some (case wStatus w of None \<Rightarrow> 200 | Some c' \<Rightarrow> c')"
  by (simp add: Write_def send_header_def Let_def split: option.splits)

lemma wStatus_set_wHeader [simp]: "wStatus (set_wHeader k v w) = wStatus w"
  by (simp add: set_wHeader_def)

lemma wStatus_http_Error [simp]:
  "wStatus (http_Error msg code w) = Some (case wStatus w of None \<Rightarrow> code | Some c' \<Rightarrow> c')"
  by (simp add: http_Error_def Let_def)

text \<open>The response as the client gets it, from an untouched writer.\<close>

lemma WriteHeader_fresh [simp]:
  "wStatus w = None \<Longrightarrow>
   WriteHeader c w = w\<lparr>wLogged := c, wStatus := Some c, wSent := wHeader w\<rparr>"
  by (simp add: WriteHeader_def send_header_def)

lemma Write_sent [simp]: "wStatus w = Some c \<Longrightarrow> 
   Write b w = w\<lparr>wBody := wBody w @ b, wBytes := wBytes w + int (length b)\<rparr>"
  by (simp add: Write_def send_header_def)


text \<open>The bytes the wrapper has counted are those of the body.\<close>

definition bytes_ok :: "ResponseWriter \<Rightarrow> bool" where
  "bytes_ok w \<longleftrightarrow> wBytes w = int (length (wBody w))"

lemma bytes_ok_steps [simp]:
  "bytes_ok (WriteHeader c w) = bytes_ok w" "bytes_ok (set_wHeader k v w) = bytes_ok w"
  "bytes_ok (w\<lparr>wHeader := h\<rparr>) = bytes_ok w" "bytes_ok (Write b w) = bytes_ok w"
  by (auto simp: bytes_ok_def WriteHeader_def Write_def send_header_def set_wHeader_def Let_def
      split: option.split)

lemma bytes_ok_http_Error [simp]: "bytes_ok (http_Error msg c w) = bytes_ok w"
  by (simp add: http_Error_def Let_def del: Write_sent)

lemma http_Error_bytes:
  "wStatus w = None \<Longrightarrow> wBytes (http_Error msg c w) = wBytes w + int (length msg) + 1"
  by (simp add: http_Error_def Let_def set_wHeader_def)

lemma bytes_ok_wrapped: "wBody w = [] \<Longrightarrow> bytes_ok (wrapped w)"
  by (simp add: bytes_ok_def)


section \<open>Responses of an origin server\<close>

record Response =
  StatusCode :: int
  RespHeader :: header
  RespBody :: reader

end
