(* ===== verification/Config.thy ===== *)
theory Config
  imports Prelude
begin

text \<open>
  Package config: the configuration structures, \<open>Defaults\<close>, \<open>Load\<close> and the \<open>Watch\<close> loop over
  the events it receives (\<open>config.go\<close>, \<open>loader.go\<close>). A plugin's opaque configuration is a
  value of Go's type \<open>any\<close>: the datatype \<open>any_val\<close> lists the dynamic types the code
  distinguishes, and the other numeric types a decoder may produce. The YAML decoder and the
  file system are parameters of \<open>Load\<close>.
\<close>

datatype any_val =
    ANil
  | ABool bool
  | AInt int
  | AInt64 int
  | AUint64 int
  | AFloat float64
  | AString string
  | AList "any_val list"
  | AMap "(string \<times> any_val) list"

record ServerConfig =
  srvAddr :: string

record AdminConfig =
  admAddr :: string

record StorageConfig =
  stType :: string
  stRootDir :: string

record CacheConfig =
  MaxItems :: int
  FlushRuleMaxAge :: duration

record KeyRulesConfig =
  IncludeQueryParams :: "string list"
  IncludeHeaders :: "string list"

record PluginConfig =
  pcType :: string
  pcConfig :: "any_val gomap"

record DomainConfig =
  Domain :: string
  Origins :: "string list"
  OriginTimeout :: duration
  OriginRetry :: int
  DefaultTTL :: duration
  KeyRules :: "KeyRulesConfig option"
  Plugins :: "PluginConfig list"

record Config =
  cfgServer :: ServerConfig
  cfgAdmin :: AdminConfig
  cfgStorage :: StorageConfig
  cfgCache :: CacheConfig
  cfgKeyRules :: KeyRulesConfig
  cfgDomains :: "DomainConfig list"


section \<open>Defaults\<close>

definition default_str :: "string \<Rightarrow> string \<Rightarrow> string" where
  "default_str d s = (if s = [] then d else s)"

definition Defaults_domain :: "DomainConfig \<Rightarrow> DomainConfig" where
  "Defaults_domain d =
     d\<lparr>OriginTimeout := (if OriginTimeout d \<le> 0 then 10 * Second else OriginTimeout d),
       OriginRetry := (if OriginRetry d < 0 then 0 else OriginRetry d),
       DefaultTTL := (if DefaultTTL d \<le> 0 then Hour else DefaultTTL d)\<rparr>"

definition Defaults :: "Config \<Rightarrow> Config" where
  "Defaults c =
     c\<lparr>cfgServer := (cfgServer c)\<lparr>srvAddr := default_str '':8080'' (srvAddr (cfgServer c))\<rparr>,
       cfgAdmin := (cfgAdmin c)\<lparr>admAddr := default_str '':9090'' (admAddr (cfgAdmin c))\<rparr>,
       cfgStorage := (cfgStorage c)
         \<lparr>stType := default_str ''localfs'' (stType (cfgStorage c)),
          stRootDir := default_str ''./cache_data'' (stRootDir (cfgStorage c))\<rparr>,
       cfgCache := (cfgCache c)
         \<lparr>MaxItems := (if MaxItems (cfgCache c) \<le> 0 then 10000 else MaxItems (cfgCache c)),
          FlushRuleMaxAge := (if FlushRuleMaxAge (cfgCache c) \<le> 0 then 7 * 24 * Hour
                              else FlushRuleMaxAge (cfgCache c))\<rparr>,
       cfgDomains := map Defaults_domain (cfgDomains c)\<rparr>"

text \<open>What the rest of the program may rely on after \<open>Defaults\<close>.\<close>

definition domain_ok :: "DomainConfig \<Rightarrow> bool" where
  "domain_ok d \<longleftrightarrow> 0 < OriginTimeout d \<and> 0 \<le> OriginRetry d \<and> 0 < DefaultTTL d"

definition config_ok :: "Config \<Rightarrow> bool" where
  "config_ok c \<longleftrightarrow>
     srvAddr (cfgServer c) \<noteq> [] \<and> admAddr (cfgAdmin c) \<noteq> [] \<and>
     stType (cfgStorage c) \<noteq> [] \<and> stRootDir (cfgStorage c) \<noteq> [] \<and>
     0 < MaxItems (cfgCache c) \<and> 0 < FlushRuleMaxAge (cfgCache c) \<and>
     list_all domain_ok (cfgDomains c)"

lemma Defaults_domain_ok [wf_intros]: "domain_ok (Defaults_domain d)"
  by (simp add: domain_ok_def Defaults_domain_def Second_def Hour_def Minute_def)

lemma Defaults_domain_id: "domain_ok d \<Longrightarrow> Defaults_domain d = d"
  by (simp add: domain_ok_def Defaults_domain_def)

lemma default_str_id [simp]: "s \<noteq> [] \<Longrightarrow> default_str d s = s"
  by (simp add: default_str_def)

lemma default_str_nonempty [simp]: "d \<noteq> [] \<Longrightarrow> default_str d s \<noteq> []"
  by (simp add: default_str_def)

lemma Defaults_config_ok: "config_ok (Defaults c)"
  by (simp add: config_ok_def Defaults_def Hour_def Minute_def Second_def list_all_iff
      Defaults_domain_ok)

lemma Defaults_id: "config_ok c \<Longrightarrow> Defaults c = c"
proof -
  assume ok: "config_ok c"
  then have "map Defaults_domain (cfgDomains c) = cfgDomains c"
    by (auto simp: config_ok_def list_all_iff Defaults_domain_id intro: map_idI)
  with ok show ?thesis by (simp add: Defaults_def config_ok_def)
qed


section \<open>Loading and watching\<close>

datatype config_err = ConfigRead string | ConfigParse string

definition Load ::
  "(bytes \<Rightarrow> Config option) \<Rightarrow> (string \<Rightarrow> bytes option) \<Rightarrow> string \<Rightarrow> config_err + Config" where
  "Load yaml readfile path =
     (case readfile path of
        None \<Rightarrow> Inl (ConfigRead path)
      | Some data \<Rightarrow> (case yaml data of
          None \<Rightarrow> Inl (ConfigParse path)
        | Some cfg \<Rightarrow> Inr (Defaults cfg)))"

text \<open>
  One event of the \<open>select\<close> in \<open>Watch\<close>. A write or create event and a SIGHUP reload the file
  as it is at that moment; a failed reload keeps the previous configuration; a closed channel
  ends the loop. The state \<open>'a\<close> is whatever \<open>onChange\<close> changes.
\<close>

datatype watch_event =
    FsEvent bool bool "bytes option"   \<comment> \<open>Write?, Create?, content of the file then\<close>
  | FsError
  | SigHup "bytes option"
  | ChannelClosed

definition reload ::
  "(bytes \<Rightarrow> Config option) \<Rightarrow> string \<Rightarrow> (Config \<Rightarrow> 'a \<Rightarrow> 'a) \<Rightarrow> bytes option \<Rightarrow> 'a \<Rightarrow> 'a" where
  "reload yaml path onChange content s =
     (case Load yaml (\<lambda>p. content) path of Inl e \<Rightarrow> s | Inr cfg \<Rightarrow> onChange cfg s)"

fun Watch ::
  "(bytes \<Rightarrow> Config option) \<Rightarrow> string \<Rightarrow> (Config \<Rightarrow> 'a \<Rightarrow> 'a) \<Rightarrow> watch_event list \<Rightarrow> 'a \<Rightarrow> 'a" where
  "Watch yaml path onChange [] s = s"
| "Watch yaml path onChange (e # es) s =
     (case e of
        ChannelClosed \<Rightarrow> s
      | FsError \<Rightarrow> Watch yaml path onChange es s
      | SigHup content \<Rightarrow> Watch yaml path onChange es (reload yaml path onChange content s)
      | FsEvent wr cr content \<Rightarrow>
          Watch yaml path onChange es
            (if wr \<or> cr then reload yaml path onChange content s else s))"

text \<open>
  \<open>Watch\<close> from the start: \<open>created\<close> and \<open>added\<close> say whether fsnotify made the watcher and took the
  path. Either failure is returned before any event is handled; a closed channel returns nil.
\<close>

datatype watch_err = WatchCreate | WatchAdd string

definition Watch_file ::
  "bool \<Rightarrow> bool \<Rightarrow> (bytes \<Rightarrow> Config option) \<Rightarrow> string \<Rightarrow> (Config \<Rightarrow> 'a \<Rightarrow> 'a) \<Rightarrow> watch_event list \<Rightarrow> 'a \<Rightarrow>
   watch_err option \<times> 'a" where
  "Watch_file created added yaml path onChange es s =
     (if \<not> created then (Some WatchCreate, s)
      else if \<not> added then (Some (WatchAdd path), s)
      else (None, Watch yaml path onChange es s))"

text \<open>An invariant of the service that every \<open>onChange\<close> with a valid configuration keeps.\<close>

lemma Watch_invariant:
  assumes "\<And>cfg s. config_ok cfg \<Longrightarrow> P s \<Longrightarrow> P (onChange cfg s)" "P s"
  shows "P (Watch yaml path onChange es s)"
  using assms(2)
proof (induction es arbitrary: s)
  case (Cons e es)
  have r: "P (reload yaml path onChange c s)" for c
    using Cons.prems assms(1) [OF Defaults_config_ok]
    by (auto simp: reload_def Load_def split: option.splits)
  with Cons show ?case by (cases e) simp_all
qed simp


section \<open>Properties\<close>

text \<open>
  A configuration that loads is complete: every timeout, retry count, lifetime and capacity
  the program uses is in range, and applying the defaults again changes nothing.
\<close>

lemma Load_complete:
  assumes "Load yaml readfile path = Inr cfg"
  shows "config_ok cfg \<and> Defaults cfg = cfg"
proof -
  from assms obtain c where "cfg = Defaults c"
    by (auto simp: Load_def split: option.splits)
  then show ?thesis using Defaults_config_ok Defaults_id by blast
qed

definition ex_config :: Config where
  "ex_config = \<lparr>cfgServer = \<lparr>srvAddr = []\<rparr>, cfgAdmin = \<lparr>admAddr = []\<rparr>,
     cfgStorage = \<lparr>stType = [], stRootDir = []\<rparr>, cfgCache = \<lparr>MaxItems = 0, FlushRuleMaxAge = 0\<rparr>,
     cfgKeyRules = \<lparr>IncludeQueryParams = [], IncludeHeaders = []\<rparr>,
     cfgDomains = [\<lparr>Domain = ''a.com'', Origins = [''http://o''], OriginTimeout = 0, OriginRetry = - 1,
                    DefaultTTL = 0, KeyRules = None, Plugins = []\<rparr>]\<rparr>"

text \<open>A watcher that cannot be set up changes nothing.\<close>

lemma Watch_file_invariant:
  assumes "\<And>cfg s. config_ok cfg \<Longrightarrow> P s \<Longrightarrow> P (onChange cfg s)" "P s"
  shows "P (snd (Watch_file created added yaml path onChange es s))"
  using Watch_invariant [of P onChange s] assms by (simp add: Watch_file_def)

text \<open>The watcher hands the callback only complete configurations.\<close>

lemma Watch_only_complete:
  "list_all config_ok (Watch yaml path (\<lambda>cfg seen. cfg # seen) es [])"
  by (rule Watch_invariant) simp_all

end
