(* ===== verification/CacheKey.thy ===== *)
theory CacheKey
  imports Httplib Config
begin

text \<open>
  Cache keys (\<open>cache/key.go\<close>): the rules that select query parameters and headers, and the
  key \<open><domain>:<path>?<query>#<header hash>\<close>. SHA-1 is the parameter \<open>sha1\<close>, of which
  nothing is assumed.
\<close>

record KeyBuilder =
  kbGlobal :: KeyRulesConfig

definition NewKeyBuilder :: "KeyRulesConfig \<Rightarrow> KeyBuilder" where
  "NewKeyBuilder g = \<lparr>kbGlobal = g\<rparr>"

fun query_parts :: "string list gomap \<Rightarrow> string list \<Rightarrow> string list" where
  "query_parts q [] = []"
| "query_parts q (name # names) =
     (case map_of q name of
        Some (v # vs) \<Rightarrow> (name @ ''='' @ v) # query_parts q names
      | _ \<Rightarrow> query_parts q names)"

definition buildQuery :: "Request \<Rightarrow> string list \<Rightarrow> string" where
  "buildQuery req params =
     (if params = [] then []
      else Join (sort (query_parts (ParseQuery (RawQuery req)) params)) ''&'')"

fun header_parts :: "header \<Rightarrow> string list \<Rightarrow> string list" where
  "header_parts h [] = []"
| "header_parts h (name # names) =
     (let v = Header_Get h name
      in if v \<noteq> [] then (name @ ''='' @ v) # header_parts h names else header_parts h names)"

definition buildHeaderHash :: "(bytes \<Rightarrow> bytes) \<Rightarrow> Request \<Rightarrow> string list \<Rightarrow> string" where
  "buildHeaderHash sha1 req headers =
     (if headers = [] then []
      else let parts = header_parts (ReqHeader req) headers
           in if parts = [] then [] else hex (take 8 (sha1 (Join (sort parts) '';''))))"

definition Build ::
  "(bytes \<Rightarrow> bytes) \<Rightarrow> KeyBuilder \<Rightarrow> string \<Rightarrow> string \<Rightarrow> Request \<Rightarrow> KeyRulesConfig option \<Rightarrow> string" where
  "Build sha1 kb domain rewrittenPath req domainRules =
     (let rules = (case domainRules of None \<Rightarrow> kbGlobal kb | Some r \<Rightarrow> r);
          queryPart = buildQuery req (IncludeQueryParams rules);
          headerPart = buildHeaderHash sha1 req (IncludeHeaders rules)
      in domain @ '':'' @ rewrittenPath @ ''?'' @ queryPart @ ''#'' @ headerPart)"

lemma query_parts_map: "query_parts q ps =
    map (\<lambda>n. n @ ''='' @ hd (the (map_of q n)))
      (filter (\<lambda>n. case map_of q n of Some (v # vs) \<Rightarrow> True | _ \<Rightarrow> False) ps)"
  by (induction ps) (auto split: option.splits list.splits)

lemma header_parts_map: "header_parts h ps =
    map (\<lambda>n. n @ ''='' @ Header_Get h n) (filter (\<lambda>n. Header_Get h n \<noteq> []) ps)"
  by (induction ps) (auto simp: Let_def)

lemma mset_query_parts: "mset ps = mset qs \<Longrightarrow> mset (query_parts q ps) = mset (query_parts q qs)"
  by (simp add: query_parts_map)

lemma mset_header_parts: "mset ps = mset qs \<Longrightarrow> mset (header_parts h ps) = mset (header_parts h qs)"
  by (simp add: header_parts_map)

lemma sort_mset_cong: "mset xs = mset ys \<Longrightarrow> sort xs = (sort ys :: string list)"
  by (metis mset_sort properties_for_sort sorted_sort)

lemma mset_eq_Nil_iff: "mset xs = mset ys \<Longrightarrow> xs = [] \<longleftrightarrow> ys = []"
  by (metis mset_zero_iff)

lemma buildQuery_perm:
  assumes "mset ps = mset qs" shows "buildQuery req ps = buildQuery req qs"
  unfolding buildQuery_def mset_eq_Nil_iff [OF assms]
  by (simp only: sort_mset_cong [OF mset_query_parts [OF assms]])

lemma buildHeaderHash_perm:
  assumes "mset ps = mset qs" shows "buildHeaderHash sha1 req ps = buildHeaderHash sha1 req qs"
  unfolding buildHeaderHash_def Let_def mset_eq_Nil_iff [OF assms]
    mset_eq_Nil_iff [OF mset_header_parts [OF assms]]
  by (simp only: sort_mset_cong [OF mset_header_parts [OF assms]])

text \<open>Splitting a string at the first occurrence of a separator is unambiguous.\<close>

lemma append_sep_inject:
  "c \<notin> set a \<Longrightarrow> c \<notin> set a' \<Longrightarrow> a @ c # b = a' @ c # b' \<longleftrightarrow> a = a' \<and> b = b'"
proof (induction a arbitrary: a')
  case Nil
  then show ?case by (cases a') auto
next
  case (Cons x a)
  then show ?case by (cases a') auto
qed

lemma append_last_sep_inject:
  "c \<notin> set b \<Longrightarrow> c \<notin> set b' \<Longrightarrow> a @ c # b = a' @ c # b' \<longleftrightarrow> a = a' \<and> b = b'"
  using append_sep_inject [of c "rev b" "rev b'" "rev a" "rev a'"]
  by (metis rev_append rev.simps(2) append.assoc append_Cons append_Nil rev_is_rev_conv set_rev rev_rev_ident)

lemma hash_not_in_hash: "CHR ''#'' \<notin> set (buildHeaderHash sha1 req hs)"
proof -
  have "\<not> is_hex_digit (CHR ''#'')"
    by (simp add: is_hex_digit_def is_digit_def byte_of_def)
  then show ?thesis using hex_char_neq
    by (auto simp: buildHeaderHash_def Let_def)
qed

text \<open>A domain name has no colon, so the key determines the domain.\<close>

lemma Build_domain:
  "CHR '':'' \<notin> set d \<Longrightarrow> CHR '':'' \<notin> set d' \<Longrightarrow>
   Build sha1 kb d path req rules = Build sha1 kb d' path' req' rules' \<Longrightarrow> d = d'"
  by (simp add: Build_def Let_def append_sep_inject)


section \<open>Properties\<close>

text \<open>
  The key does not depend on the order in which the configuration lists query parameters
  and headers.
\<close>

lemma Build_rules_perm:
  assumes "mset (IncludeQueryParams a) = mset (IncludeQueryParams b)"
    and "mset (IncludeHeaders a) = mset (IncludeHeaders b)"
  shows "Build sha1 kb domain path req (Some a) = Build sha1 kb domain path req (Some b)"
  by (simp add: Build_def Let_def buildQuery_perm [OF assms(1)] buildHeaderHash_perm [OF assms(2)])

definition ex_request :: Request where
  "ex_request = \<lparr>Host = ''a.com'', URLPath = ''/x'', RawQuery = ''v=2&q=1'',
     ReqHeader = [(''Accept'', [''text''])], RemoteAddr = ''10.0.0.1:5''\<rparr>"

text \<open>
  C35: requests of different domains never share a key (a domain name has no colon), nor do
  requests whose selected headers hash differently, or whose path and query text differ.
\<close>

theorem Build_inject:
  assumes "CHR '':'' \<notin> set d" "CHR '':'' \<notin> set d'"
    and "Build sha1 kb d path req rules = Build sha1 kb d' path' req' rules'"
  defines "rl \<equiv> (case rules of None \<Rightarrow> kbGlobal kb | Some x \<Rightarrow> x)"
    and "rl' \<equiv> (case rules' of None \<Rightarrow> kbGlobal kb | Some x \<Rightarrow> x)"
  shows "d = d' \<and>
    path @ ''?'' @ buildQuery req (IncludeQueryParams rl) =
      path' @ ''?'' @ buildQuery req' (IncludeQueryParams rl') \<and>
    buildHeaderHash sha1 req (IncludeHeaders rl) = buildHeaderHash sha1 req' (IncludeHeaders rl')"
proof -
  let ?q = "path @ ''?'' @ buildQuery req (IncludeQueryParams rl)"
  let ?q' = "path' @ ''?'' @ buildQuery req' (IncludeQueryParams rl')"
  let ?h = "buildHeaderHash sha1 req (IncludeHeaders rl)"
  let ?h' = "buildHeaderHash sha1 req' (IncludeHeaders rl')"
  from assms(3) have "d @ CHR '':'' # (?q @ CHR ''#'' # ?h) = d' @ CHR '':'' # (?q' @ CHR ''#'' # ?h')"
    by (simp add: Build_def Let_def rl_def rl'_def)
  with assms(1,2) have d: "d = d'" and rest: "?q @ CHR ''#'' # ?h = ?q' @ CHR ''#'' # ?h'"
    by (simp_all only: append_sep_inject simp_thms)
  from rest have "?q = ?q'" "?h = ?h'"
    by (simp_all only: append_last_sep_inject [OF hash_not_in_hash hash_not_in_hash] simp_thms)
  with d show ?thesis by simp
qed

theorem Build_inject_witness:
  "Build (\<lambda>b. b) \<lparr>kbGlobal = \<lparr>IncludeQueryParams = [''q''], IncludeHeaders = []\<rparr>\<rparr> ''a.com'' ''/x'' ex_request None
     = ''a.com:/x?q=1#'' \<and>
   buildQuery ex_request [''q''] = buildQuery (ex_request\<lparr>RawQuery := ''q=1&z=9''\<rparr>) [''q'']"
proof -
  let ?kb = "\<lparr>kbGlobal = \<lparr>IncludeQueryParams = [''q''], IncludeHeaders = []\<rparr>\<rparr>"
  have a: "Build (\<lambda>b. b) ?kb ''a.com'' ''/x'' ex_request None = ''a.com:/x?q=1#''" by code_simp
  have b: "Build (\<lambda>b. b) ?kb ''a.com'' ''/x'' (ex_request\<lparr>RawQuery := ''q=1&z=9''\<rparr>) None = ''a.com:/x?q=1#''"
    by code_simp
  have "CHR '':'' \<notin> set ''a.com''" by simp
  from Build_inject [OF this this trans [OF a b [symmetric]]] a show ?thesis by simp
qed

end
