(* ===== verification/TTL.thy ===== *)
theory TTL
  imports Httplib
begin

text \<open>
  The lifetime of a response (\<open>ParseTTL\<close> in \<open>cache/cache.go\<close>). The parser of HTTP dates
  (\<open>http.ParseTime\<close>) is the parameter \<open>parse_time\<close>, of which nothing is assumed; \<open>now\<close> is
  the instant \<open>time.Until\<close> reads.
\<close>

fun max_age :: "string list \<Rightarrow> duration option" where
  "max_age [] = None"
| "max_age (p # ps) =
     (let part = TrimSpace p
      in if HasPrefix part ''max-age='' then
           (case Atoi (TrimPrefix part ''max-age='') of
              Some secs \<Rightarrow> if 0 < secs then Some (duration_mul secs Second) else max_age ps
            | None \<Rightarrow> max_age ps)
         else max_age ps)"

definition expires_ttl :: "(string \<Rightarrow> time option) \<Rightarrow> time \<Rightarrow> header \<Rightarrow> duration \<Rightarrow> duration" where
  "expires_ttl parse_time now h defaultTTL =
     (let exp = Header_Get h ''Expires''
      in if exp = [] then defaultTTL
         else (case parse_time exp of
                 None \<Rightarrow> defaultTTL
               | Some t \<Rightarrow> (let d = Until now t in if 0 < d then d else defaultTTL)))"

definition ParseTTL :: "(string \<Rightarrow> time option) \<Rightarrow> time \<Rightarrow> header \<Rightarrow> duration \<Rightarrow> duration" where
  "ParseTTL parse_time now h defaultTTL =
     (let cc = Header_Get h ''Cache-Control''
      in if cc \<noteq> [] then
           (let cc = ToLower cc
            in if Contains cc ''no-store'' \<or> Contains cc ''no-cache'' then 0
               else (case max_age (Split cc (CHR '','')) of
                       Some d \<Rightarrow> d
                     | None \<Rightarrow> expires_ttl parse_time now h defaultTTL))
         else expires_ttl parse_time now h defaultTTL)"

text \<open>The directives of a header that forbids neither storing nor caching.\<close>

definition uncacheable :: "header \<Rightarrow> bool" where
  "uncacheable h \<longleftrightarrow> Contains (ToLower (Header_Get h ''Cache-Control'')) ''no-store'' \<or>
     Contains (ToLower (Header_Get h ''Cache-Control'')) ''no-cache''"

lemma uncacheable_nonempty: "uncacheable h \<Longrightarrow> Header_Get h ''Cache-Control'' \<noteq> []"
  by (auto simp: uncacheable_def ToLower_def)

lemma ParseTTL_uncacheable: "uncacheable h \<Longrightarrow> ParseTTL pt now h d = 0"
  using uncacheable_nonempty [of h] by (simp add: ParseTTL_def uncacheable_def Let_def)

lemma ParseTTL_cacheable: "\<not> uncacheable h \<Longrightarrow> ParseTTL pt now h d =
    (case max_age (Split (ToLower (Header_Get h ''Cache-Control'')) (CHR '','')) of
       Some d \<Rightarrow> d | None \<Rightarrow> expires_ttl pt now h d)"
  by (auto simp: ParseTTL_def uncacheable_def Let_def ToLower_def TrimSpace_def HasPrefix_def)

lemma expires_ttl_pos: "0 < d \<Longrightarrow> 0 < expires_ttl pt now h d"
  by (auto simp: expires_ttl_def Let_def split: option.splits)

lemma max_age_int64: "max_age ps = Some d \<Longrightarrow> int64 d"
  by (induction ps)
     (auto simp: Let_def duration_mul_def wrap64_int64 split: if_splits option.splits)

lemma Atoi_int64: "Atoi s = Some v \<Longrightarrow> int64 v"
  by (auto simp: Atoi_def Let_def int64_def split: if_splits)

text \<open>The seconds of the first usable \<open>max-age\<close> directive.\<close>

fun max_age_secs :: "string list \<Rightarrow> int option" where
  "max_age_secs [] = None"
| "max_age_secs (p # ps) =
     (case (if HasPrefix (TrimSpace p) ''max-age='' then Atoi (TrimPrefix (TrimSpace p) ''max-age='') else None) of
        Some secs \<Rightarrow> if 0 < secs then Some secs else max_age_secs ps
      | None \<Rightarrow> max_age_secs ps)"

lemma max_age_secs: "max_age ps = map_option (\<lambda>n. wrap64 (n * 1000000000)) (max_age_secs ps)"
  by (induction ps)
     (auto simp: Let_def duration_mul_def Second_def split: option.splits)

lemma max_age_secs_pos: "max_age_secs ps = Some n \<Longrightarrow> 0 < n"
  by (induction ps) (auto split: option.splits if_splits)


section \<open>Properties\<close>

text \<open>The seconds \<open>ParseTTL\<close> takes from the header, if any.\<close>

definition cc_secs :: "header \<Rightarrow> int option" where
  "cc_secs h = max_age_secs (Split (ToLower (Header_Get h ''Cache-Control'')) (CHR '',''))"

lemma Until_pos: "0 < Until now t \<longleftrightarrow> now < t"
  by (auto simp: Until_def clamp64_def int64_bounds)

lemma expires_ttl_cases:
  "expires_ttl pt now h d =
     (case pt (Header_Get h ''Expires'') of
        Some t \<Rightarrow> if Header_Get h ''Expires'' \<noteq> [] \<and> now < t then Until now t else d
      | None \<Rightarrow> d)"
  by (simp add: expires_ttl_def Let_def Until_pos split: option.split)

lemma max_age_zero:
  assumes "Header_Get h ''Cache-Control'' = ''max-age=0''"
  shows "\<not> uncacheable h \<and> cc_secs h = None"
proof -
  have "\<not> Contains (ToLower ''max-age=0'') ''no-store''" "\<not> Contains (ToLower ''max-age=0'') ''no-cache''"
    "max_age_secs (Split (ToLower ''max-age=0'') (CHR '','')) = None" by code_simp+
  with assms show ?thesis by (simp add: uncacheable_def cc_secs_def)
qed

text \<open>
  C34: with a positive default, and a \<open>max-age\<close> of less than 9223372037 seconds if there is one,
  the lifetime is the first positive \<open>max-age\<close> in nanoseconds, or else the time until \<open>Expires\<close> when
  that is in the future, or else the default. It is never negative, and zero exactly for \<open>no-store\<close>
  and \<open>no-cache\<close>. So a response with \<open>max-age=0\<close>, or with \<open>Expires\<close> in the past, which is stale at
  once by the rules of HTTP and by section 1.3 of \<open>doc/design.md\<close>, is kept for the default lifetime.
\<close>

theorem ParseTTL_exact:
  assumes "0 < d" "\<forall>n. cc_secs h = Some n \<longrightarrow> n \<le> 9223372036"
  shows "(uncacheable h \<longleftrightarrow> ParseTTL pt now h d = 0) \<and> 0 \<le> ParseTTL pt now h d \<and>
    (\<forall>n. \<not> uncacheable h \<and> cc_secs h = Some n \<longrightarrow> ParseTTL pt now h d = n * Second) \<and>
    (\<not> uncacheable h \<and> cc_secs h = None \<longrightarrow> ParseTTL pt now h d =
       (case pt (Header_Get h ''Expires'') of
          Some t \<Rightarrow> if Header_Get h ''Expires'' \<noteq> [] \<and> now < t then Until now t else d
        | None \<Rightarrow> d)) \<and>
    (Header_Get h ''Cache-Control'' = ''max-age=0'' \<longrightarrow> \<not> uncacheable h \<and> cc_secs h = None)"
proof (cases "uncacheable h")
  case True
  then show ?thesis using max_age_zero [of h] by (auto simp: ParseTTL_uncacheable)
next
  case False
  show ?thesis
  proof (cases "cc_secs h")
    case None
    with False have "ParseTTL pt now h d = expires_ttl pt now h d"
      by (simp add: ParseTTL_cacheable max_age_secs cc_secs_def)
    moreover have "0 < expires_ttl pt now h d" by (rule expires_ttl_pos [OF assms(1)])
    ultimately show ?thesis using False None by (auto simp: expires_ttl_cases)
  next
    case (Some n)
    then have n: "0 < n" "n \<le> 9223372036"
      using assms(2) max_age_secs_pos by (auto simp: cc_secs_def)
    then have "wrap64 (n * 1000000000) = n * 1000000000"
      by (intro wrap64_id) (simp add: int64_bounds)
    with False Some n max_age_zero [of h] show ?thesis
      by (auto simp: ParseTTL_cacheable max_age_secs cc_secs_def Second_def)
  qed
qed

theorem ParseTTL_exact_witness:
  "ParseTTL (\<lambda>_. None) 0 [(''Cache-Control'', [''public, Max-Age=60''])] Hour = 60 * Second"
proof -
  have s: "cc_secs [(''Cache-Control'', [''public, Max-Age=60''])] = Some 60" by code_simp
  have u: "\<not> uncacheable [(''Cache-Control'', [''public, Max-Age=60''])]" by code_simp
  have "0 < Hour" by (simp add: Hour_def Minute_def Second_def)
  from ParseTTL_exact [OF this, of "[(''Cache-Control'', [''public, Max-Age=60''])]" "\<lambda>_. None" 0] s u
  show ?thesis by simp
qed

text \<open>
  The multiplication by \<open>time.Second\<close> wraps around: a response that may be cached for
  9223372037 seconds gets a negative lifetime, so it expires before it was written.
\<close>

lemma ParseTTL_overflow:
  "ParseTTL pt now [(''Cache-Control'', [''max-age=9223372037''])] d = - 9223372036709551616"
proof -
  have "\<not> uncacheable [(''Cache-Control'', [''max-age=9223372037''])]" by code_simp
  moreover have "max_age (Split (ToLower (Header_Get [(''Cache-Control'', [''max-age=9223372037''])]
      ''Cache-Control'')) (CHR '','')) = Some (- 9223372036709551616)" by code_simp
  ultimately show ?thesis by (simp add: ParseTTL_cacheable)
qed

end
