(* ===== verification/Storage.thy ===== *)
theory Storage
  imports Prelude
begin

text \<open>
  Package storage: the metadata record and the \<open>Storage\<close> interface (\<open>storage.go\<close>,
  \<open>metadata.go\<close>). A Go interface value is a table of methods, so \<open>storage_ops\<close> is a
  record of functions over the backend's own state; every method returns the new state. The
  contract the cache and the flush store rely on is the locale \<open>storage_contract\<close>; the
  theories LocalFS and MemStorage interpret it on the two backends of the repository.
\<close>

record Metadata =
  ContentType :: string
  CacheControl :: string
  Expires :: string
  CustomMeta :: "string \<rightharpoonup> string"

definition empty_Metadata :: Metadata where
  "empty_Metadata = \<lparr>ContentType = [], CacheControl = [], Expires = [], CustomMeta = Map.empty\<rparr>"

record FileInfo =
  fiSize :: int
  fiModTime :: time

text \<open>The errors the backends build with \<open>fmt.Errorf\<close>, one constructor per message.\<close>

datatype storage_err =
    SKeyNotFound string
  | SOpen string
  | SReadMeta
  | SDecodeMeta
  | SCreateTemp
  | SWriteContent
  | SCloseTemp
  | SRename
  | SEncodeMeta
  | SWriteMeta
  | SDelete string
  | SStat string
  | SListDir
  | SReadBody
  | SCreateRoot string

record 's storage_ops =
  stRead :: "string \<Rightarrow> 's \<Rightarrow> (storage_err + reader \<times> Metadata option) \<times> 's"
  stWrite :: "string \<Rightarrow> reader \<Rightarrow> Metadata option \<Rightarrow> 's \<Rightarrow> storage_err option \<times> 's"
  stDelete :: "string \<Rightarrow> 's \<Rightarrow> storage_err option \<times> 's"
  stExists :: "string \<Rightarrow> 's \<Rightarrow> bool \<times> 's"
  stStat :: "string \<Rightarrow> 's \<Rightarrow> (storage_err + FileInfo) \<times> 's"
  stList :: "string \<Rightarrow> 's \<Rightarrow> (storage_err + string list) \<times> 's"

text \<open>
  The contract. \<open>lookup\<close> is the content a key has, \<open>same\<close> relates keys that share a slot
  of the backend (for LocalFS, keys with the same digest), \<open>ok_meta\<close> says that metadata
  survives the backend's encoding, and \<open>reliable\<close> that no I/O error is pending. A failed
  write may lose the old content of its own key, never that of another, and never leaves a part of
  a body.
\<close>

locale storage_contract =
  fixes S :: "'s storage_ops"
    and lookup :: "'s \<Rightarrow> string \<Rightarrow> bytes option"
    and same :: "string \<Rightarrow> string \<Rightarrow> bool"
    and ok_meta :: "Metadata \<Rightarrow> bool"
    and inv :: "'s \<Rightarrow> bool"
    and reliable :: "'s \<Rightarrow> bool"
  assumes same_refl: "same k k"
    and read_view: "inv s \<Longrightarrow> lookup (snd (stRead S k s)) k' = lookup s k'"
    and read_inv: "inv s \<Longrightarrow> inv (snd (stRead S k s))"
    and read_reliable: "inv s \<Longrightarrow> reliable s \<Longrightarrow> reliable (snd (stRead S k s))"
    and read_sound: "inv s \<Longrightarrow> fst (stRead S k s) = Inr (rd, mo) \<Longrightarrow> rd_err rd = None \<Longrightarrow>
        lookup s k = Some (rd_data rd)"
    and read_complete: "inv s \<Longrightarrow> reliable s \<Longrightarrow> lookup s k = Some b \<Longrightarrow>
        \<exists>mo. fst (stRead S k s) = Inr (bytes_reader b, mo)"
    and read_missing: "inv s \<Longrightarrow> lookup s k = None \<Longrightarrow> \<exists>e. fst (stRead S k s) = Inl e"
    and write_view: "inv s \<Longrightarrow> ok_meta m \<Longrightarrow> fst (stWrite S k r (Some m) s) = None \<Longrightarrow>
        lookup (snd (stWrite S k r (Some m) s)) k' =
          (if same k k' then Some (rd_data r) else lookup s k')"
    and write_reader: "inv s \<Longrightarrow> fst (stWrite S k r mo s) = None \<Longrightarrow> rd_err r = None"
    and write_frame: "inv s \<Longrightarrow> \<not> same k k' \<Longrightarrow>
        lookup (snd (stWrite S k r mo s)) k' = lookup s k'"
    and write_shrinks: "inv s \<Longrightarrow> lookup (snd (stWrite S k r mo s)) k = Some b \<Longrightarrow>
        lookup s k = Some b \<or> rd_err r = None \<and> b = rd_data r"
    and write_inv: "inv s \<Longrightarrow> inv (snd (stWrite S k r mo s))"
    and write_reliable: "inv s \<Longrightarrow> reliable s \<Longrightarrow> reliable (snd (stWrite S k r mo s))"
    and write_complete: "inv s \<Longrightarrow> reliable s \<Longrightarrow> ok_meta m \<Longrightarrow> rd_err r = None \<Longrightarrow>
        fst (stWrite S k r (Some m) s) = None"
    and delete_view: "inv s \<Longrightarrow> fst (stDelete S k s) = None \<Longrightarrow>
        lookup (snd (stDelete S k s)) k' = (if same k k' then None else lookup s k')"
    and delete_failed: "inv s \<Longrightarrow> fst (stDelete S k s) = Some e \<Longrightarrow>
        lookup (snd (stDelete S k s)) k' = lookup s k'"
    and delete_inv: "inv s \<Longrightarrow> inv (snd (stDelete S k s))"
    and delete_reliable: "inv s \<Longrightarrow> reliable s \<Longrightarrow> reliable (snd (stDelete S k s))"
    and delete_complete: "inv s \<Longrightarrow> reliable s \<Longrightarrow> fst (stDelete S k s) = None"
    and write_sound: "inv s \<Longrightarrow> fst (stWrite S k r mo s) = None \<Longrightarrow>
        lookup (snd (stWrite S k r mo s)) k = Some b \<Longrightarrow> b = rd_data r"
begin

text \<open>A delete that returns, with or without an error, only ever removes the slot of its key.\<close>

lemma delete_frame:
  assumes "inv s" "\<not> same k k'"
  shows "lookup (snd (stDelete S k s)) k' = lookup s k'"
  using assms delete_view [of s k k'] delete_failed [of s k _ k']
  by (cases "fst (stDelete S k s)") auto

lemma delete_shrinks:
  assumes "inv s" "lookup (snd (stDelete S k s)) k' = Some b"
  shows "lookup s k' = Some b"
  using assms delete_view [of s k k'] delete_failed [of s k _ k']
  by (cases "fst (stDelete S k s)") (auto split: if_splits)

text \<open>Read after write returns the bytes written.\<close>

lemma read_after_write:
  assumes "inv s" "reliable s" "ok_meta m" "rd_err r = None"
  shows "\<exists>m'. fst (stRead S k (snd (stWrite S k r (Some m) s))) = Inr (bytes_reader (rd_data r), m')"
proof (rule read_complete)
  show "inv (snd (stWrite S k r (Some m) s))" by (rule write_inv [OF assms(1)])
  show "reliable (snd (stWrite S k r (Some m) s))" by (rule write_reliable [OF assms(1,2)])
  show "lookup (snd (stWrite S k r (Some m) s)) k = Some (rd_data r)"
    by (simp add: write_view [OF assms(1,3) write_complete [OF assms]] same_refl)
qed

lemma read_after_delete:
  assumes "inv s" "reliable s"
  shows "\<exists>e. fst (stRead S k (snd (stDelete S k s))) = Inl e"
proof (rule read_missing)
  show "inv (snd (stDelete S k s))" by (rule delete_inv [OF assms(1)])
  show "lookup (snd (stDelete S k s)) k = None"
    by (simp add: delete_view [OF assms(1) delete_complete [OF assms]] same_refl)
qed

end

text \<open>A backend without I/O errors that stores any metadata: the contract without side conditions.\<close>

locale total_storage = storage_contract +
  assumes all_reliable: "reliable s" and all_meta: "ok_meta m"
begin

lemma total_read_after_write:
  "inv s \<Longrightarrow> rd_err r = None \<Longrightarrow>
   \<exists>m'. fst (stRead S k (snd (stWrite S k r (Some m) s))) = Inr (bytes_reader (rd_data r), m')"
  by (rule read_after_write [OF _ all_reliable all_meta])

lemma total_read_iff:
  assumes "inv s"
  shows "(\<exists>rd mo. fst (stRead S k s) = Inr (rd, mo)) \<longleftrightarrow> lookup s k \<noteq> None"
proof (cases "lookup s k")
  case None
  then show ?thesis using read_missing [OF assms None] by auto
next
  case (Some b)
  then show ?thesis using read_complete [OF assms all_reliable Some] by auto
qed

end

end
