(* ===== verification/LocalFS.thy ===== *)
theory LocalFS
  imports Storage
begin

text \<open>
  The local-filesystem backend (\<open>storage/localfs.go\<close>). The state is the root directory: its
  regular files by base name (all paths the code builds are \<open>filepath.Join(root, name)\<close>, so
  the root itself is left out), the names of its subdirectories, the pending I/O faults, the
  random numbers \<open>os.CreateTemp\<close> draws and the clock of the operating system.

  Every system call takes the next entry of \<open>faults\<close>: \<open>Fault\<close> makes it fail without effect,
  \<open>Short n\<close> makes a read or write stop with an error after \<open>n\<close> bytes, and an exhausted list
  means no more faults. An open file is modelled by the content it had when it was opened:
  the program replaces content files by \<open>rename\<close> and removes them by \<open>unlink\<close>, neither of
  which changes the file an open descriptor refers to.

  SHA-256 and \<open>encoding/json\<close> on \<open>Metadata\<close> are the fields of \<open>codec\<close>; no law is assumed of
  them, so every statement holds for all of them.
\<close>

datatype os_err = ENOENT | EEXIST | EIO

datatype fault = NoFault | Fault | Short nat

record localfs =
  files :: "(bytes \<times> time) gomap"
  subdirs :: "string list"
  faults :: "fault list"
  rnd :: "nat \<Rightarrow> nat"
  rndpos :: nat
  osclock :: time

record codec =
  sha256 :: "bytes \<Rightarrow> bytes"
  metaMarshal :: "Metadata \<Rightarrow> bytes option"
  metaUnmarshal :: "bytes \<Rightarrow> Metadata option"


section \<open>System calls\<close>

definition pop_fault :: "localfs \<Rightarrow> fault \<times> localfs" where
  "pop_fault s = (case faults s of [] \<Rightarrow> (NoFault, s) | f # fs \<Rightarrow> (f, s\<lparr>faults := fs\<rparr>))"

definition put_file :: "string \<Rightarrow> bytes \<Rightarrow> localfs \<Rightarrow> localfs" where
  "put_file n b s = s\<lparr>files := AList.update n (b, osclock s) (files s)\<rparr>"

definition drop_file :: "string \<Rightarrow> localfs \<Rightarrow> localfs" where
  "drop_file n s = s\<lparr>files := AList.delete n (files s)\<rparr>"

definition os_Open :: "string \<Rightarrow> localfs \<Rightarrow> (os_err + reader) \<times> localfs" where
  "os_Open n s = (let (f, s1) = pop_fault s in
     case f of Fault \<Rightarrow> (Inl EIO, s1)
     | _ \<Rightarrow> (case map_of (files s1) n of
              None \<Rightarrow> (Inl ENOENT, s1)
            | Some (b, t) \<Rightarrow> (Inr (case f of Short k \<Rightarrow> Reader (take k b) (Some ''read error'')
                                          | _ \<Rightarrow> bytes_reader b), s1)))"

definition os_ReadFile :: "string \<Rightarrow> localfs \<Rightarrow> (os_err + bytes) \<times> localfs" where
  "os_ReadFile n s = (let (f, s1) = pop_fault s in
     case f of NoFault \<Rightarrow> (case map_of (files s1) n of None \<Rightarrow> (Inl ENOENT, s1)
                                                       | Some (b, t) \<Rightarrow> (Inr b, s1))
     | _ \<Rightarrow> (Inl EIO, s1))"

definition os_Stat :: "string \<Rightarrow> localfs \<Rightarrow> (os_err + FileInfo) \<times> localfs" where
  "os_Stat n s = (let (f, s1) = pop_fault s in
     case f of NoFault \<Rightarrow>
       (case map_of (files s1) n of None \<Rightarrow> (Inl ENOENT, s1)
        | Some (b, t) \<Rightarrow> (Inr \<lparr>fiSize = int (length b), fiModTime = t\<rparr>, s1))
     | _ \<Rightarrow> (Inl EIO, s1))"

definition os_Remove :: "string \<Rightarrow> localfs \<Rightarrow> os_err option \<times> localfs" where
  "os_Remove n s = (let (f, s1) = pop_fault s in
     case f of NoFault \<Rightarrow> (case map_of (files s1) n of None \<Rightarrow> (Some ENOENT, s1)
                                                       | Some _ \<Rightarrow> (None, drop_file n s1))
     | _ \<Rightarrow> (Some EIO, s1))"

definition os_Rename :: "string \<Rightarrow> string \<Rightarrow> localfs \<Rightarrow> os_err option \<times> localfs" where
  "os_Rename old new s = (let (f, s1) = pop_fault s in
     case f of NoFault \<Rightarrow>
       (case map_of (files s1) old of
          None \<Rightarrow> (Some ENOENT, s1)
        | Some bt \<Rightarrow>
            (None, s1\<lparr>files := AList.update new bt (AList.delete old (files s1))\<rparr>))
     | _ \<Rightarrow> (Some EIO, s1))"

text \<open>\<open>os.WriteFile\<close> truncates first: a short write leaves a prefix of the data.\<close>

definition os_WriteFile :: "string \<Rightarrow> bytes \<Rightarrow> localfs \<Rightarrow> os_err option \<times> localfs" where
  "os_WriteFile n d s = (let (f, s1) = pop_fault s in
     case f of NoFault \<Rightarrow> (None, put_file n d s1)
     | Fault \<Rightarrow> (Some EIO, s1)
     | Short k \<Rightarrow> (Some EIO, put_file n (take k d) s1))"

definition os_Close :: "localfs \<Rightarrow> os_err option \<times> localfs" where
  "os_Close s = (let (f, s1) = pop_fault s in
     case f of NoFault \<Rightarrow> (None, s1) | _ \<Rightarrow> (Some EIO, s1))"

text \<open>
  \<open>os.CreateTemp(dir, ".tmp-")\<close>: the pattern followed by a random 32-bit number in decimal,
  drawn again while a file of that name exists, at most 10000 times.
\<close>

definition temp_name :: "nat \<Rightarrow> string" where
  "temp_name r = ''.tmp-'' @ show_nat (r mod 2 ^ 32)"

fun try_temp :: "nat \<Rightarrow> localfs \<Rightarrow> (os_err + string) \<times> localfs" where
  "try_temp 0 s = (Inl EEXIST, s)"
| "try_temp (Suc n) s =
     (let name = temp_name (rnd s (rndpos s)); s1 = s\<lparr>rndpos := Suc (rndpos s)\<rparr>
      in if map_of (files s1) name \<noteq> None \<or> name \<in> set (subdirs s1) then try_temp n s1
         else (Inr name, put_file name [] s1))"

definition os_CreateTemp :: "localfs \<Rightarrow> (os_err + string) \<times> localfs" where
  "os_CreateTemp s = (let (f, s1) = pop_fault s in
     case f of NoFault \<Rightarrow> try_temp 10000 s1 | _ \<Rightarrow> (Inl EIO, s1))"

text \<open>\<open>io.Copy(tmp, r)\<close> into an empty file: a failing reader fails it after its bytes.\<close>

definition io_Copy :: "string \<Rightarrow> reader \<Rightarrow> localfs \<Rightarrow> bool \<times> localfs" where
  "io_Copy tmp r s = (let (f, s1) = pop_fault s in
     case f of NoFault \<Rightarrow> (rd_err r = None, put_file tmp (rd_data r) s1)
     | Fault \<Rightarrow> (False, s1)
     | Short k \<Rightarrow> (False, put_file tmp (take k (rd_data r)) s1))"


section \<open>The methods of LocalFS\<close>

definition NewLocalFS :: "string \<Rightarrow> localfs \<Rightarrow> (storage_err + unit) \<times> localfs" where
  "NewLocalFS dir s = (let (f, s1) = pop_fault s in
     case f of NoFault \<Rightarrow> (Inr (), s1) | _ \<Rightarrow> (Inl (SCreateRoot dir), s1))"

definition keyToPath :: "codec \<Rightarrow> string \<Rightarrow> string" where
  "keyToPath C key = hex (sha256 C key)"

definition readMeta :: "codec \<Rightarrow> string \<Rightarrow> localfs \<Rightarrow> (storage_err + Metadata) \<times> localfs" where
  "readMeta C contentPath s =
     (case os_ReadFile (contentPath @ ''.meta'') s of
        (Inl e, s1) \<Rightarrow> (if e = ENOENT then (Inr empty_Metadata, s1) else (Inl SReadMeta, s1))
      | (Inr d, s1) \<Rightarrow> (case metaUnmarshal C d of None \<Rightarrow> (Inl SDecodeMeta, s1)
                                                | Some m \<Rightarrow> (Inr m, s1)))"

definition writeMeta ::
  "codec \<Rightarrow> string \<Rightarrow> Metadata option \<Rightarrow> localfs \<Rightarrow> storage_err option \<times> localfs" where
  "writeMeta C contentPath meta s =
     (let m = (case meta of None \<Rightarrow> empty_Metadata | Some m \<Rightarrow> m)
      in case metaMarshal C m of
           None \<Rightarrow> (Some SEncodeMeta, s)
         | Some d \<Rightarrow> (case os_WriteFile (contentPath @ ''.meta'') d s of
                       (None, s1) \<Rightarrow> (None, s1) | (Some e, s1) \<Rightarrow> (Some SWriteMeta, s1)))"

definition LocalFS_Read ::
  "codec \<Rightarrow> string \<Rightarrow> localfs \<Rightarrow> (storage_err + reader \<times> Metadata option) \<times> localfs" where
  "LocalFS_Read C key s =
     (let p = keyToPath C key
      in case os_Open p s of
           (Inl e, s1) \<Rightarrow> (Inl (if e = ENOENT then SKeyNotFound key else SOpen key), s1)
         | (Inr f, s1) \<Rightarrow> (case readMeta C p s1 of
             (Inl e, s2) \<Rightarrow> (Inl e, s2) | (Inr m, s2) \<Rightarrow> (Inr (f, Some m), s2)))"

text \<open>
  \<open>Write\<close> between the creation of the temporary file and the deferred clean-up; the clean-up
  removes the temporary file again (it is gone when the rename succeeded).
\<close>

definition LocalFS_Write_body ::
  "codec \<Rightarrow> string \<Rightarrow> string \<Rightarrow> reader \<Rightarrow> Metadata option \<Rightarrow> localfs \<Rightarrow>
   storage_err option \<times> localfs" where
  "LocalFS_Write_body C p tmp r meta s1 =
     (case io_Copy tmp r s1 of
        (False, s2) \<Rightarrow> (Some SWriteContent, s2)
      | (True, s2) \<Rightarrow> (case os_Close s2 of
          (Some e, s3) \<Rightarrow> (Some SCloseTemp, s3)
        | (None, s3) \<Rightarrow> (case os_Rename tmp p s3 of
            (Some e, s4) \<Rightarrow> (Some SRename, s4)
          | (None, s4) \<Rightarrow> (case writeMeta C p meta s4 of
              (Some e, s5) \<Rightarrow> (Some e, snd (os_Remove p s5))
            | (None, s5) \<Rightarrow> (None, s5)))))"

definition LocalFS_Write ::
  "codec \<Rightarrow> string \<Rightarrow> reader \<Rightarrow> Metadata option \<Rightarrow> localfs \<Rightarrow> storage_err option \<times> localfs" where
  "LocalFS_Write C key r meta s =
     (let p = keyToPath C key
      in case os_CreateTemp s of
           (Inl e, s1) \<Rightarrow> (Some SCreateTemp, s1)
         | (Inr tmp, s1) \<Rightarrow>
             (let (res, s2) = LocalFS_Write_body C p tmp r meta s1
              in (res, snd (os_Remove tmp s2))))"

definition LocalFS_Delete :: "codec \<Rightarrow> string \<Rightarrow> localfs \<Rightarrow> storage_err option \<times> localfs" where
  "LocalFS_Delete C key s =
     (let p = keyToPath C key
      in case os_Remove p s of
           (Some e, s1) \<Rightarrow>
             (if e \<noteq> ENOENT then (Some (SDelete key), s1)
              else (None, snd (os_Remove (p @ ''.meta'') s1)))
         | (None, s1) \<Rightarrow> (None, snd (os_Remove (p @ ''.meta'') s1)))"

definition LocalFS_Exists :: "codec \<Rightarrow> string \<Rightarrow> localfs \<Rightarrow> bool \<times> localfs" where
  "LocalFS_Exists C key s =
     (case os_Stat (keyToPath C key) s of (Inl e, s1) \<Rightarrow> (False, s1) | (Inr i, s1) \<Rightarrow> (True, s1))"

definition LocalFS_Stat :: "codec \<Rightarrow> string \<Rightarrow> localfs \<Rightarrow> (storage_err + FileInfo) \<times> localfs" where
  "LocalFS_Stat C key s =
     (case os_Stat (keyToPath C key) s of
        (Inl e, s1) \<Rightarrow> (Inl (if e = ENOENT then SKeyNotFound key else SStat key), s1)
      | (Inr i, s1) \<Rightarrow> (Inr i, s1))"

text \<open>\<open>os.ReadDir\<close> sorts by name; \<open>List\<close> skips directories, \<open>.meta\<close> and \<open>.tmp\<close> files.\<close>

fun list_entries ::
  "codec \<Rightarrow> string \<Rightarrow> string list \<Rightarrow> localfs \<Rightarrow> string list \<times> localfs" where
  "list_entries C prfx [] s = ([], s)"
| "list_entries C prfx (e # es) s =
     (if e \<in> set (subdirs s) \<or> HasSuffix e ''.meta'' \<or> HasPrefix e ''.tmp''
      then list_entries C prfx es s
      else case readMeta C e s of
             (Inl err, s1) \<Rightarrow> list_entries C prfx es s1
           | (Inr m, s1) \<Rightarrow> (case CustomMeta m ''key'' of
               None \<Rightarrow> list_entries C prfx es s1
             | Some k \<Rightarrow> (let (ks, s2) = list_entries C prfx es s1
                          in (if HasPrefix k prfx then k # ks else ks, s2))))"

definition LocalFS_List :: "codec \<Rightarrow> string \<Rightarrow> localfs \<Rightarrow> (storage_err + string list) \<times> localfs" where
  "LocalFS_List C prfx s = (let (f, s1) = pop_fault s in
     case f of NoFault \<Rightarrow>
       (let (ks, s2) = list_entries C prfx (sort (map fst (files s1) @ subdirs s1)) s1
        in (Inr ks, s2))
     | _ \<Rightarrow> (Inl SListDir, s1))"

definition LocalFS_ops :: "codec \<Rightarrow> localfs storage_ops" where
  "LocalFS_ops C = \<lparr>stRead = LocalFS_Read C, stWrite = LocalFS_Write C,
     stDelete = LocalFS_Delete C, stExists = LocalFS_Exists C, stStat = LocalFS_Stat C,
     stList = LocalFS_List C\<rparr>"


section \<open>What the system calls change\<close>

definition lfs_inv :: "localfs \<Rightarrow> bool" where
  "lfs_inv s \<longleftrightarrow> distinct (map fst (files s))"

text \<open>
  No pending fault, and the names \<open>os.CreateTemp\<close> will draw are free; temporary files that a crash
  left behind under other names may be there.
\<close>

definition lfs_reliable :: "localfs \<Rightarrow> bool" where
  "lfs_reliable s \<longleftrightarrow> faults s = [] \<and>
     (\<forall>i \<ge> rndpos s. temp_name (rnd s i) \<notin> set (map fst (files s)) \<union> set (subdirs s))"

text \<open>The only files a call may touch are those named in \<open>N\<close>.\<close>

definition touches :: "string set \<Rightarrow> localfs \<Rightarrow> localfs \<Rightarrow> bool" where
  "touches N s s' \<longleftrightarrow> (\<forall>n. n \<notin> N \<longrightarrow> map_of (files s') n = map_of (files s) n) \<and>
     (lfs_inv s \<longrightarrow> lfs_inv s') \<and> subdirs s' = subdirs s \<and> (faults s = [] \<longrightarrow> faults s' = []) \<and>
     rnd s' = rnd s \<and> rndpos s \<le> rndpos s'"

lemma touches_refl [simp, wf_intros]: "touches N s s"
  by (simp add: touches_def)

lemma touches_trans: "touches N s s' \<Longrightarrow> touches N s' s'' \<Longrightarrow> touches N s s''"
  by (auto simp: touches_def)

lemma touches_mono: "touches N s s' \<Longrightarrow> N \<subseteq> M \<Longrightarrow> touches M s s'"
  by (auto simp: touches_def)

lemma pop_fault_none [simp]: "faults s = [] \<Longrightarrow> pop_fault s = (NoFault, s)"
  by (simp add: pop_fault_def)

lemma pop_fault_touches: "touches N s (snd (pop_fault s))"
  by (auto simp: touches_def pop_fault_def lfs_inv_def split: list.splits)

lemma pop_fault_files [simp]:
  "files (snd (pop_fault s)) = files s" "subdirs (snd (pop_fault s)) = subdirs s"
  "osclock (snd (pop_fault s)) = osclock s"
  "rnd (snd (pop_fault s)) = rnd s" "rndpos (snd (pop_fault s)) = rndpos s"
  by (auto simp: pop_fault_def split: list.splits)

lemma files_put_drop [simp]:
  "files (put_file n b s) = AList.update n (b, osclock s) (files s)"
  "files (drop_file n s) = AList.delete n (files s)"
  "subdirs (put_file n b s) = subdirs s" "subdirs (drop_file n s) = subdirs s"
  "faults (put_file n b s) = faults s" "faults (drop_file n s) = faults s"
  "rnd (put_file n b s) = rnd s" "rnd (drop_file n s) = rnd s"
  "rndpos (put_file n b s) = rndpos s" "rndpos (drop_file n s) = rndpos s"
  by (simp_all add: put_file_def drop_file_def)

lemma touches_put_drop:
  "touches N s s' \<Longrightarrow> n \<in> N \<Longrightarrow> touches N s (put_file n b s')"
  "touches N s s' \<Longrightarrow> n \<in> N \<Longrightarrow> touches N s (drop_file n s')"
  by (auto simp: touches_def lfs_inv_def)

lemma syscall_touches:
  "touches {} s (snd (os_Open n s))"
  "touches {} s (snd (os_ReadFile n s))"
  "touches {} s (snd (os_Stat n s))"
  "touches {} s (snd (os_Close s))"
  "touches {n} s (snd (os_Remove n s))"
  "touches {n} s (snd (os_WriteFile n d s))"
  "touches {n} s (snd (io_Copy n r s))"
  by (auto simp: os_Open_def os_ReadFile_def os_Stat_def os_Close_def os_Remove_def
      os_WriteFile_def io_Copy_def Let_def split_beta pop_fault_touches touches_put_drop
      split: fault.splits option.splits)

lemma os_Rename_touches: "touches {a, b} s (snd (os_Rename a b s))"
  using pop_fault_touches [of "{a, b}" s]
  by (auto simp: os_Rename_def Let_def split_beta touches_def lfs_inv_def
      split: fault.splits option.splits)

lemma temp_name_prefix [simp]: "HasPrefix (temp_name r) ''.tmp-''"
  unfolding temp_name_def by (rule HasPrefix_append)

lemma rndpos_touches: "touches N s (s\<lparr>rndpos := Suc (rndpos s)\<rparr>)"
  by (simp add: touches_def lfs_inv_def)

lemma try_temp_only:
  "try_temp n s = (r, s') \<Longrightarrow>
   touches (case r of Inl e \<Rightarrow> {} | Inr t \<Rightarrow> {t}) s s' \<and>
   (case r of Inl e \<Rightarrow> True | Inr t \<Rightarrow> HasPrefix t ''.tmp-'')"
proof (induction n s rule: try_temp.induct)
  case (2 n s)
  then show ?case
    by (auto simp: Let_def intro: touches_put_drop rndpos_touches
        touches_trans [OF rndpos_touches] split: if_splits)
qed auto

lemma os_CreateTemp_only:
  "os_CreateTemp s = (r, s') \<Longrightarrow> touches (case r of Inl e \<Rightarrow> {} | Inr t \<Rightarrow> {t}) s s'"
  by (auto simp: os_CreateTemp_def Let_def split_beta pop_fault_touches
      intro: touches_trans [OF pop_fault_touches] dest: try_temp_only split: fault.splits)

lemma os_CreateTemp_name: "os_CreateTemp s = (Inr t, s') \<Longrightarrow> HasPrefix t ''.tmp-''"
  by (auto simp: os_CreateTemp_def Let_def split_beta dest: try_temp_only split: fault.splits)


section \<open>Names: content, metadata and temporary files are disjoint\<close>

lemma keyToPath_hex: "c \<in> set (keyToPath C k) \<Longrightarrow> is_hex_digit c"
  by (auto simp: keyToPath_def intro: hex_char_neq)

lemma dot_not_in_path [simp]: "CHR ''.'' \<notin> set (keyToPath C k)"
  using keyToPath_hex [of "CHR ''.''" C k]
  by (auto simp: is_hex_digit_def is_digit_def byte_of_def)

lemma temp_neq_path:
  assumes "HasPrefix t ''.tmp-''"
  shows "t \<noteq> keyToPath C k" "t \<noteq> keyToPath C k @ ''.meta''"
proof -
  obtain r where t: "t = ''.tmp-'' @ r"
    using assms by (metis HasPrefix_iff_prefix prefix_def)
  then have "CHR ''.'' \<in> set t" by simp
  then show "t \<noteq> keyToPath C k" using dot_not_in_path [of C k] by blast
  show "t \<noteq> keyToPath C k @ ''.meta''"
  proof
    assume "t = keyToPath C k @ ''.meta''"
    then show False using t dot_not_in_path [of C k] by (cases "keyToPath C k") auto
  qed
qed

lemma meta_neq_path: "keyToPath C k @ ''.meta'' \<noteq> keyToPath C k'"
  using dot_not_in_path [of C k'] by (metis in_set_conv_decomp append.assoc append_Cons)

lemma path_not_temp:
  "\<not> HasPrefix (keyToPath C k) ''.tmp-''" "\<not> HasPrefix (keyToPath C k @ ''.meta'') ''.tmp-''"
  using temp_neq_path by blast+

lemmas path_neqs = temp_neq_path temp_neq_path [symmetric] meta_neq_path meta_neq_path [symmetric]


section \<open>The content of a key\<close>

definition lfs_lookup :: "codec \<Rightarrow> localfs \<Rightarrow> string \<Rightarrow> bytes option" where
  "lfs_lookup C s k =
     (case map_of (files s) (keyToPath C k) of
        None \<Rightarrow> None
      | Some (b, t) \<Rightarrow> (case map_of (files s) (keyToPath C k @ ''.meta'') of
          None \<Rightarrow> Some b
        | Some (d, u) \<Rightarrow> (if metaUnmarshal C d = None then None else Some b)))"

definition lfs_same :: "codec \<Rightarrow> string \<Rightarrow> string \<Rightarrow> bool" where
  "lfs_same C k k' \<longleftrightarrow> keyToPath C k = keyToPath C k'"

definition lfs_ok_meta :: "codec \<Rightarrow> Metadata \<Rightarrow> bool" where
  "lfs_ok_meta C m \<longleftrightarrow> (case metaMarshal C m of None \<Rightarrow> False
     | Some d \<Rightarrow> (case metaUnmarshal C d of None \<Rightarrow> False | Some _ \<Rightarrow> True))"

definition own_names :: "codec \<Rightarrow> string \<Rightarrow> string set" where
  "own_names C k = {keyToPath C k, keyToPath C k @ ''.meta''} \<union> {x. HasPrefix x ''.tmp-''}"

lemma lfs_lookup_touches:
  "touches N s s' \<Longrightarrow> keyToPath C k \<notin> N \<Longrightarrow> keyToPath C k @ ''.meta'' \<notin> N \<Longrightarrow>
   lfs_lookup C s' k = lfs_lookup C s k"
  by (auto simp: lfs_lookup_def touches_def split: option.splits)

lemma lfs_lookup_same: "lfs_same C k k' \<Longrightarrow> lfs_lookup C s k' = lfs_lookup C s k"
  by (simp only: lfs_lookup_def lfs_same_def)

lemma own_names_other:
  "\<not> lfs_same C k k' \<Longrightarrow> keyToPath C k' \<notin> own_names C k"
  "\<not> lfs_same C k k' \<Longrightarrow> keyToPath C k' @ ''.meta'' \<notin> own_names C k"
  by (auto simp: lfs_same_def own_names_def path_neqs path_not_temp)

lemma readMeta_touches: "touches {} s (snd (readMeta C p s))"
  using syscall_touches(2) [of s "p @ ''.meta''"]
  by (auto simp: readMeta_def split: prod.splits sum.splits option.splits)

lemma writeMeta_touches: "touches {p @ ''.meta''} s (snd (writeMeta C p mo s))"
  using syscall_touches(6) [of "p @ ''.meta''" s]
  by (auto simp: writeMeta_def Let_def split: prod.splits option.splits)
     (metis snd_conv)+

lemma LocalFS_Read_touches: "touches {} s (snd (LocalFS_Read C k s))"
proof (cases "os_Open (keyToPath C k) s")
  case (Pair r s1)
  then have "touches {} s s1" by (metis syscall_touches(1) snd_conv)
  with Pair show ?thesis
    using readMeta_touches [of s1 C "keyToPath C k"]
    by (auto simp: LocalFS_Read_def Let_def elim: touches_trans split: prod.splits sum.splits)
qed

lemma LocalFS_Delete_touches: "touches (own_names C k) s (snd (LocalFS_Delete C k s))"
proof -
  let ?p = "keyToPath C k"
  obtain e s1 where s1: "os_Remove ?p s = (e, s1)" by (cases "os_Remove ?p s")
  have "touches (own_names C k) s s1"
    using syscall_touches(5) [of ?p s] s1 by (auto simp: own_names_def elim: touches_mono)
  moreover have "touches (own_names C k) s1 (snd (os_Remove (?p @ ''.meta'') s1))"
    by (rule touches_mono [OF syscall_touches(5)]) (simp add: own_names_def)
  ultimately show ?thesis using s1
    by (auto simp: LocalFS_Delete_def Let_def elim: touches_trans split: option.splits)
qed

lemma LocalFS_Write_body_touches:
  assumes N: "tmp \<in> N" "p \<in> N" "p @ ''.meta'' \<in> N"
  shows "touches N s (snd (LocalFS_Write_body C p tmp r mo s))"
proof -
  define s2 where "s2 = snd (io_Copy tmp r s)"
  define s3 where "s3 = snd (os_Close s2)"
  define s4 where "s4 = snd (os_Rename tmp p s3)"
  define s5 where "s5 = snd (writeMeta C p mo s4)"
  define s6 where "s6 = snd (os_Remove p s5)"
  have t2: "touches N s s2"
    unfolding s2_def by (rule touches_mono [OF syscall_touches(7)]) (use N in simp)
  have t3: "touches N s s3"
    unfolding s3_def by (rule touches_trans [OF t2 touches_mono [OF syscall_touches(4)]]) simp
  have t4: "touches N s s4"
    unfolding s4_def by (rule touches_trans [OF t3 touches_mono [OF os_Rename_touches]]) (use N in simp)
  have t5: "touches N s s5"
    unfolding s5_def by (rule touches_trans [OF t4 touches_mono [OF writeMeta_touches]]) (use N in simp)
  have t6: "touches N s s6"
    unfolding s6_def by (rule touches_trans [OF t5 touches_mono [OF syscall_touches(5)]]) (use N in simp)
  obtain b where e2: "io_Copy tmp r s = (b, s2)" by (cases "io_Copy tmp r s") (simp add: s2_def)
  obtain e3 where e3: "os_Close s2 = (e3, s3)" by (cases "os_Close s2") (simp add: s3_def)
  obtain e4 where e4: "os_Rename tmp p s3 = (e4, s4)"
    by (cases "os_Rename tmp p s3") (simp add: s4_def)
  obtain e5 where e5: "writeMeta C p mo s4 = (e5, s5)"
    by (cases "writeMeta C p mo s4") (simp add: s5_def)
  show ?thesis
    by (cases b; cases e3; cases e4; cases e5)
       (simp_all add: LocalFS_Write_body_def e2 e3 e4 e5 t2 t3 t4 t5 t6 flip: s6_def)
qed

lemma LocalFS_Write_only:
  assumes "os_CreateTemp s = (Inr tmp, s1)"
  shows "touches {tmp, keyToPath C k, keyToPath C k @ ''.meta''} s (snd (LocalFS_Write C k r mo s))"
proof -
  let ?N = "{tmp, keyToPath C k, keyToPath C k @ ''.meta''}"
  let ?b = "LocalFS_Write_body C (keyToPath C k) tmp r mo s1"
  have 1: "touches ?N s s1" using os_CreateTemp_only [OF assms] by (auto elim: touches_mono)
  have 3: "touches ?N (snd ?b) (snd (os_Remove tmp (snd ?b)))"
    by (rule touches_mono [OF syscall_touches(5)]) simp
  have "snd (LocalFS_Write C k r mo s) = snd (os_Remove tmp (snd ?b))"
    using assms by (simp add: LocalFS_Write_def Let_def split_beta)
  moreover have 2: "touches ?N s1 (snd ?b)" by (rule LocalFS_Write_body_touches) simp_all
  ultimately show ?thesis
    by (simp only:) (rule touches_trans [OF 1 touches_trans [OF 2 3]])
qed

lemma LocalFS_Write_touches: "touches (own_names C k) s (snd (LocalFS_Write C k r mo s))"
proof (cases "os_CreateTemp s")
  case (Pair t s1)
  show ?thesis
  proof (cases t)
    case (Inl e)
    have "touches (own_names C k) s s1"
      using os_CreateTemp_only [OF Pair] Inl by (auto elim: touches_mono)
    with Inl Pair show ?thesis by (simp add: LocalFS_Write_def Let_def)
  next
    case (Inr tmp)
    with Pair have "os_CreateTemp s = (Inr tmp, s1)" by simp
    then show ?thesis
      by (intro touches_mono [OF LocalFS_Write_only]) (auto simp: own_names_def dest: os_CreateTemp_name)
  qed
qed


section \<open>Results of the system calls\<close>

lemma os_Open_Inr:
  "os_Open n s = (Inr f, s') \<Longrightarrow> rd_err f = None \<Longrightarrow>
   \<exists>t. map_of (files s) n = Some (rd_data f, t)"
  by (auto simp: os_Open_def Let_def split_beta split: fault.splits option.splits)

lemma os_Open_None: "map_of (files s) n = None \<Longrightarrow> \<exists>e. fst (os_Open n s) = Inl e"
  by (auto simp: os_Open_def Let_def split_beta split: fault.splits)

lemma os_Open_quiet:
  "faults s = [] \<Longrightarrow> map_of (files s) n = Some (b, t) \<Longrightarrow> os_Open n s = (Inr (bytes_reader b), s)"
  by (simp add: os_Open_def Let_def)

lemma readMeta_Inr:
  "readMeta C p s = (Inr m, s') \<Longrightarrow>
   (case map_of (files s) (p @ ''.meta'') of None \<Rightarrow> True | Some (d, u) \<Rightarrow> metaUnmarshal C d \<noteq> None)"
  by (auto simp: readMeta_def os_ReadFile_def Let_def split_beta
      split: fault.splits option.splits sum.splits if_splits)

lemma readMeta_quiet:
  "faults s = [] \<Longrightarrow>
   (case map_of (files s) (p @ ''.meta'') of None \<Rightarrow> True | Some (d, u) \<Rightarrow> metaUnmarshal C d \<noteq> None)
   \<Longrightarrow> \<exists>m. readMeta C p s = (Inr m, s)"
  by (auto simp: readMeta_def os_ReadFile_def Let_def split: option.splits)

lemma io_Copy_True:
  "io_Copy n r s = (True, s') \<Longrightarrow>
   rd_err r = None \<and> (\<exists>t. map_of (files s') n = Some (rd_data r, t))"
  by (auto simp: io_Copy_def Let_def split_beta split: fault.splits)

lemma os_Rename_None: "os_Rename a b s = (None, s') \<Longrightarrow> map_of (files s') b = map_of (files s) a"
  by (auto simp: os_Rename_def Let_def split_beta split: fault.splits option.splits)

lemma writeMeta_None:
  "writeMeta C p (Some m) s = (None, s') \<Longrightarrow>
   \<exists>d t. metaMarshal C m = Some d \<and> map_of (files s') (p @ ''.meta'') = Some (d, t)"
  by (auto simp: writeMeta_def os_WriteFile_def Let_def split_beta
      split: fault.splits option.splits prod.splits)

lemma os_Remove_None: "os_Remove n s = (None, s') \<Longrightarrow> map_of (files s') n = None"
  by (auto simp: os_Remove_def Let_def split_beta split: fault.splits option.splits)

lemma os_Remove_ENOENT: "os_Remove n s = (Some ENOENT, s') \<Longrightarrow> map_of (files s') n = None"
  by (auto simp: os_Remove_def Let_def split_beta split: fault.splits option.splits)

lemma os_Remove_failed: "os_Remove n s = (Some e, s') \<Longrightarrow> files s' = files s"
  by (auto simp: os_Remove_def Let_def split_beta split: fault.splits option.splits)

lemma os_Close_files: "files (snd (os_Close s)) = files s"
  by (auto simp: os_Close_def Let_def split_beta split: fault.splits)


section \<open>The storage contract\<close>

lemma LocalFS_Read_sound:
  assumes "fst (LocalFS_Read C k s) = Inr (rd, mo)" "rd_err rd = None"
  shows "lfs_lookup C s k = Some (rd_data rd)"
proof -
  from assms(1) obtain s1 m s2 where
    o: "os_Open (keyToPath C k) s = (Inr rd, s1)" and
    r: "readMeta C (keyToPath C k) s1 = (Inr m, s2)"
    by (auto simp: LocalFS_Read_def Let_def split: prod.splits sum.splits)
  have "map_of (files s1) n = map_of (files s) n" for n
    using syscall_touches(1) [of s "keyToPath C k"] o by (simp add: touches_def)
  then show ?thesis using os_Open_Inr [OF o assms(2)] readMeta_Inr [OF r]
    by (auto simp: lfs_lookup_def split: option.splits)
qed

lemma LocalFS_Read_complete:
  assumes "faults s = []" "lfs_lookup C s k = Some b"
  shows "\<exists>mo. fst (LocalFS_Read C k s) = Inr (bytes_reader b, mo)"
proof -
  from assms(2) obtain t where "map_of (files s) (keyToPath C k) = Some (b, t)"
    by (auto simp: lfs_lookup_def split: option.splits if_splits)
  moreover obtain m where "readMeta C (keyToPath C k) s = (Inr m, s)"
    using readMeta_quiet [OF assms(1), where p = "keyToPath C k" and C = C] assms(2)
    by (auto simp: lfs_lookup_def split: option.splits if_splits)
  ultimately show ?thesis
    using os_Open_quiet [OF assms(1)] by (simp add: LocalFS_Read_def Let_def)
qed

lemma LocalFS_Read_missing:
  assumes "lfs_lookup C s k = None" shows "\<exists>e. fst (LocalFS_Read C k s) = Inl e"
proof (cases "map_of (files s) (keyToPath C k)")
  case None
  then show ?thesis using os_Open_None [OF None]
    by (auto simp: LocalFS_Read_def Let_def split: prod.splits)
next
  case (Some bt)
  then have bad: "case map_of (files s) (keyToPath C k @ ''.meta'') of
      None \<Rightarrow> False | Some (d, u) \<Rightarrow> metaUnmarshal C d = None"
    using assms by (auto simp: lfs_lookup_def split: option.splits prod.splits if_splits)
  obtain r s1 where o: "os_Open (keyToPath C k) s = (r, s1)" by (cases "os_Open (keyToPath C k) s")
  have "map_of (files s1) n = map_of (files s) n" for n
    using syscall_touches(1) [of s "keyToPath C k"] o by (simp add: touches_def)
  then have "fst (readMeta C (keyToPath C k) s1) \<noteq> Inr m" for m
    using bad readMeta_Inr [where C = C and p = "keyToPath C k" and s = s1 and m = m]
    by (cases "readMeta C (keyToPath C k) s1") (auto split: option.splits)
  then show ?thesis using o
    by (cases "fst (readMeta C (keyToPath C k) s1)")
       (auto simp: LocalFS_Read_def Let_def split: sum.splits prod.splits)
qed

lemma LocalFS_Write_success:
  assumes "fst (LocalFS_Write C k r mo s) = None"
  obtains tmp s1 s2 s3 s4 s5 where
    "HasPrefix tmp ''.tmp-''" "os_CreateTemp s = (Inr tmp, s1)"
    "io_Copy tmp r s1 = (True, s2)" "os_Close s2 = (None, s3)"
    "os_Rename tmp (keyToPath C k) s3 = (None, s4)" "writeMeta C (keyToPath C k) mo s4 = (None, s5)"
    "snd (LocalFS_Write C k r mo s) = snd (os_Remove tmp s5)"
proof -
  from assms obtain tmp s1 where t: "os_CreateTemp s = (Inr tmp, s1)"
    and b: "fst (LocalFS_Write_body C (keyToPath C k) tmp r mo s1) = None"
    by (cases "os_CreateTemp s"; cases "fst (os_CreateTemp s)")
       (auto simp: LocalFS_Write_def Let_def split_beta)
  from b obtain s2 s3 s4 s5 where
    "io_Copy tmp r s1 = (True, s2)" "os_Close s2 = (None, s3)"
    "os_Rename tmp (keyToPath C k) s3 = (None, s4)" "writeMeta C (keyToPath C k) mo s4 = (None, s5)"
    by (auto simp: LocalFS_Write_body_def split: prod.splits bool.splits option.splits)
  moreover from this t have "snd (LocalFS_Write C k r mo s) = snd (os_Remove tmp s5)"
    by (simp add: LocalFS_Write_def LocalFS_Write_body_def Let_def)
  ultimately show ?thesis using that t os_CreateTemp_name by blast
qed

text \<open>A write that succeeds installs the whole body.\<close>

lemma LocalFS_Write_installed:
  assumes "fst (LocalFS_Write C k r mo s) = None"
  shows "\<exists>t. map_of (files (snd (LocalFS_Write C k r mo s))) (keyToPath C k) = Some (rd_data r, t)"
proof (rule LocalFS_Write_success [OF assms])
  fix tmp s1 s2 s3 s4 s5
  let ?p = "keyToPath C k"
  assume tmp: "HasPrefix tmp ''.tmp-''"
    and c: "io_Copy tmp r s1 = (True, s2)" and cl: "os_Close s2 = (None, s3)"
    and rn: "os_Rename tmp ?p s3 = (None, s4)" and wm: "writeMeta C ?p mo s4 = (None, s5)"
    and e: "snd (LocalFS_Write C k r mo s) = snd (os_Remove tmp s5)"
  have s3: "files s3 = files s2" using os_Close_files [of s2] cl by simp
  obtain t where "map_of (files s4) ?p = Some (rd_data r, t)"
    using io_Copy_True [OF c] os_Rename_None [OF rn] by (auto simp: s3)
  then have "map_of (files s5) ?p = Some (rd_data r, t)"
    using writeMeta_touches [of ?p s4 C mo] wm by (simp add: touches_def path_neqs)
  moreover have "?p \<noteq> tmp" using tmp path_not_temp [of C k] by auto
  ultimately show ?thesis using syscall_touches(5) [of tmp s5] by (simp add: e touches_def)
qed

lemma LocalFS_Write_view:
  assumes "lfs_ok_meta C m" "fst (LocalFS_Write C k r (Some m) s) = None" "lfs_same C k k'"
  shows "lfs_lookup C (snd (LocalFS_Write C k r (Some m) s)) k' = Some (rd_data r)"
proof (rule LocalFS_Write_success [OF assms(2)])
  fix tmp s1 s2 s3 s4 s5
  let ?p = "keyToPath C k" and ?s = "snd (LocalFS_Write C k r (Some m) s)"
  assume tmp: "HasPrefix tmp ''.tmp-''" and wm: "writeMeta C ?p (Some m) s4 = (None, s5)"
    and e: "?s = snd (os_Remove tmp s5)"
  obtain d u where d: "metaMarshal C m = Some d" "map_of (files s5) (?p @ ''.meta'') = Some (d, u)"
    using writeMeta_None [OF wm] by blast
  have "map_of (files ?s) (?p @ ''.meta'') = Some (d, u)"
    using syscall_touches(5) [of tmp s5] tmp path_not_temp [of C k] d(2) by (auto simp: e touches_def)
  with LocalFS_Write_installed [OF assms(2)] d(1) assms(1)
  have "lfs_lookup C ?s k = Some (rd_data r)"
    by (auto simp: lfs_lookup_def lfs_ok_meta_def split: option.splits)
  then show ?thesis by (simp add: lfs_lookup_same [OF assms(3)])
qed

lemma LocalFS_Write_reader: "fst (LocalFS_Write C k r mo s) = None \<Longrightarrow> rd_err r = None"
  by (metis LocalFS_Write_success io_Copy_True)

lemma try_temp_fresh:
  "map_of (files s) (temp_name (rnd s (rndpos s))) = None \<Longrightarrow>
   temp_name (rnd s (rndpos s)) \<notin> set (subdirs s) \<Longrightarrow> 0 < n \<Longrightarrow>
   try_temp n s = (Inr (temp_name (rnd s (rndpos s))),
     put_file (temp_name (rnd s (rndpos s))) [] (s\<lparr>rndpos := Suc (rndpos s)\<rparr>))"
  by (cases n) (simp_all add: Let_def)

lemma os_CreateTemp_quiet:
  assumes "lfs_reliable s" obtains tmp s1 where
    "os_CreateTemp s = (Inr tmp, s1)" "faults s1 = []" "map_of (files s1) tmp \<noteq> None"
proof -
  let ?t = "temp_name (rnd s (rndpos s))"
  have "?t \<notin> set (map fst (files s)) \<union> set (subdirs s)"
    using assms unfolding lfs_reliable_def by blast
  then have "map_of (files s) ?t = None" "?t \<notin> set (subdirs s)"
    by (auto simp: map_of_eq_None_iff)
  then show ?thesis using that assms
    by (simp add: os_CreateTemp_def lfs_reliable_def try_temp_fresh)
qed

lemma LocalFS_Write_complete:
  assumes "lfs_reliable s" "lfs_ok_meta C m" "rd_err r = None"
  shows "fst (LocalFS_Write C k r (Some m) s) = None"
proof (rule os_CreateTemp_quiet [OF assms(1)])
  fix tmp s1
  assume t: "os_CreateTemp s = (Inr tmp, s1)" "faults s1 = []"
  obtain d where "metaMarshal C m = Some d"
    using assms(2) by (auto simp: lfs_ok_meta_def split: option.splits)
  with t assms(3) show ?thesis
    by (simp add: LocalFS_Write_def LocalFS_Write_body_def io_Copy_def os_Close_def os_Rename_def
        writeMeta_def os_WriteFile_def Let_def)
qed

lemma LocalFS_Delete_None:
  assumes "fst (LocalFS_Delete C k s) = None" "lfs_same C k k'"
  shows "lfs_lookup C (snd (LocalFS_Delete C k s)) k' = None"
proof -
  let ?p = "keyToPath C k"
  obtain e s1 where r: "os_Remove ?p s = (e, s1)" by (cases "os_Remove ?p s")
  have "map_of (files s1) ?p = None" and fin: "snd (LocalFS_Delete C k s) = snd (os_Remove (?p @ ''.meta'') s1)"
    using assms(1) r os_Remove_None os_Remove_ENOENT
    by (auto simp: LocalFS_Delete_def Let_def split: option.splits if_splits)
  then have "map_of (files (snd (os_Remove (?p @ ''.meta'') s1))) ?p = None"
    using syscall_touches(5) [of "?p @ ''.meta''" s1] by (simp add: touches_def path_neqs)
  then show ?thesis using assms(2) by (simp add: fin lfs_lookup_def lfs_same_def)
qed

lemma LocalFS_Delete_failed:
  "fst (LocalFS_Delete C k s) = Some e \<Longrightarrow> files (snd (LocalFS_Delete C k s)) = files s"
  by (cases "os_Remove (keyToPath C k) s")
     (auto simp: LocalFS_Delete_def Let_def os_Remove_failed split: option.splits if_splits)

lemma LocalFS_Delete_complete: "faults s = [] \<Longrightarrow> fst (LocalFS_Delete C k s) = None"
  by (auto simp: LocalFS_Delete_def os_Remove_def Let_def split: option.splits)

lemma lfs_reliable_quiet [simp]: "lfs_reliable s \<Longrightarrow> faults s = []"
  by (simp add: lfs_reliable_def)

text \<open>Names that are not those of temporary files do not matter.\<close>

lemma lfs_reliable_names:
  assumes "lfs_reliable s" "faults s' = []" "subdirs s' = subdirs s" "rnd s' = rnd s" "rndpos s \<le> rndpos s'"
    and "\<And>n. HasPrefix n ''.tmp-'' \<Longrightarrow> n \<in> set (map fst (files s')) \<Longrightarrow> n \<in> set (map fst (files s))"
  shows "lfs_reliable s'"
  unfolding lfs_reliable_def
proof (intro conjI allI impI)
  fix i assume "rndpos s' \<le> i"
  with assms(5) have "rndpos s \<le> i" by (rule order_trans)
  with assms(1) have "temp_name (rnd s i) \<notin> set (map fst (files s)) \<union> set (subdirs s)"
    unfolding lfs_reliable_def by blast
  with assms(6) [OF temp_name_prefix] show "temp_name (rnd s' i) \<notin> set (map fst (files s')) \<union> set (subdirs s')"
    unfolding assms(3,4) by blast
qed (rule assms(2))

lemma lfs_reliable_touches:
  assumes "touches N s s'" "lfs_reliable s" "\<And>n. n \<in> N \<Longrightarrow> \<not> HasPrefix n ''.tmp-''"
  shows "lfs_reliable s'"
proof (rule lfs_reliable_names [OF assms(2)])
  fix n assume n: "HasPrefix n ''.tmp-''" "n \<in> set (map fst (files s'))"
  then have "map_of (files s') n = map_of (files s) n" using assms(1,3) unfolding touches_def by blast
  with n(2) show "n \<in> set (map fst (files s))" unfolding key_map_of by simp
qed (use assms(1,2) in \<open>simp_all add: touches_def\<close>)

lemma LocalFS_Delete_reliable:
  assumes "lfs_reliable s" shows "lfs_reliable (snd (LocalFS_Delete C k s))"
proof -
  let ?p = "keyToPath C k"
  have r: "lfs_reliable (snd (os_Remove ?p s))"
    by (rule lfs_reliable_touches [OF syscall_touches(5) assms]) (simp add: path_not_temp)
  then have "lfs_reliable (snd (os_Remove (?p @ ''.meta'') (snd (os_Remove ?p s))))"
    by (rule lfs_reliable_touches [OF syscall_touches(5)]) (simp only: singleton_iff path_not_temp simp_thms)
  with r show ?thesis
    by (auto simp: LocalFS_Delete_def Let_def split: prod.splits option.splits)
qed

lemma LocalFS_Write_reliable:
  assumes "lfs_reliable s" shows "lfs_reliable (snd (LocalFS_Write C k r mo s))"
proof (rule os_CreateTemp_quiet [OF assms])
  fix tmp s1
  assume t: "os_CreateTemp s = (Inr tmp, s1)" "faults s1 = []" "map_of (files s1) tmp \<noteq> None"
  let ?b = "LocalFS_Write_body C (keyToPath C k) tmp r mo s1"
  let ?s' = "snd (LocalFS_Write C k r mo s)"
  have tmp: "HasPrefix tmp ''.tmp-''" using t(1) by (rule os_CreateTemp_name)
  have s': "?s' = snd (os_Remove tmp (snd ?b))"
    using t(1) by (simp add: LocalFS_Write_def Let_def split_beta)
  have q: "faults (snd ?b) = []"
    using LocalFS_Write_body_touches [of tmp UNIV "keyToPath C k" s1 C r mo] t(2)
    by (simp add: touches_def)
  have gone: "map_of (files ?s') tmp = None"
    using q by (simp add: s' os_Remove_def split: option.split)
  have t3: "touches {tmp, keyToPath C k, keyToPath C k @ ''.meta''} s ?s'"
    by (rule LocalFS_Write_only [OF t(1)])
  show "lfs_reliable ?s'"
  proof (rule lfs_reliable_names [OF assms])
    fix n assume n: "HasPrefix n ''.tmp-''" "n \<in> set (map fst (files ?s'))"
    have "n \<noteq> tmp" using n(2) gone unfolding key_map_of by blast
    moreover have "n \<noteq> keyToPath C k" "n \<noteq> keyToPath C k @ ''.meta''"
      using temp_neq_path [OF n(1)] by blast+
    ultimately have "map_of (files ?s') n = map_of (files s) n"
      using t3 unfolding touches_def by blast
    with n(2) show "n \<in> set (map fst (files s))" unfolding key_map_of by simp
  qed (use t3 assms in \<open>simp_all add: touches_def\<close>)
qed

section \<open>Failed writes\<close>

definition content :: "codec \<Rightarrow> localfs \<Rightarrow> string \<Rightarrow> bytes option" where
  "content C s k = map_option fst (map_of (files s) (keyToPath C k))"

lemma content_touches: "touches N s s' \<Longrightarrow> keyToPath C k \<notin> N \<Longrightarrow> content C s' k = content C s k"
  by (simp add: content_def touches_def)

lemma os_Rename_failed: "os_Rename a b s = (Some e, s') \<Longrightarrow> files s' = files s"
  by (auto simp: os_Rename_def Let_def split_beta split: fault.splits option.splits)

lemma content_files: "files s' = files s \<Longrightarrow> content C s' k = content C s k"
  by (simp add: content_def)

text \<open>Everything the disk holds of a key: its content file and its metadata file.\<close>

definition slot :: "codec \<Rightarrow> localfs \<Rightarrow> string \<Rightarrow> (bytes \<times> time) option \<times> (bytes \<times> time) option" where
  "slot C s k = (map_of (files s) (keyToPath C k), map_of (files s) (keyToPath C k @ ''.meta''))"

lemma slot_touches:
  "touches N s s' \<Longrightarrow> keyToPath C k \<notin> N \<Longrightarrow> keyToPath C k @ ''.meta'' \<notin> N \<Longrightarrow> slot C s' k = slot C s k"
  by (simp add: slot_def touches_def)

lemma slot_files: "files s' = files s \<Longrightarrow> slot C s' k = slot C s k"
  by (simp add: slot_def)

lemma slot_content: "slot C s' k = slot C s k \<Longrightarrow> content C s' k = content C s k"
  by (simp add: slot_def content_def)

lemma slot_lookup: "slot C s' k = slot C s k \<Longrightarrow> lfs_lookup C s' k = lfs_lookup C s k"
  unfolding slot_def lfs_lookup_def by (simp only: prod.inject)

lemma lookup_content: "lfs_lookup C s k = Some b \<Longrightarrow> content C s k = Some b"
  by (auto simp: lfs_lookup_def content_def split: option.splits if_splits)

text \<open>After the rename: the metadata write, and the removal of the content if it fails.\<close>

lemma write_tail_content:
  assumes "content C s4 k = Some b"
  shows "content C (snd (case writeMeta C (keyToPath C k) mo s4 of
      (Some e, s5) \<Rightarrow> (Some e, snd (os_Remove (keyToPath C k) s5)) | (None, s5) \<Rightarrow> (None, s5))) k
    \<in> {None, Some b}"
proof -
  let ?p = "keyToPath C k"
  obtain e5 s5 where w: "writeMeta C ?p mo s4 = (e5, s5)" by (cases "writeMeta C ?p mo s4")
  have c5: "content C s5 k = Some b"
  proof -
    have "touches {?p @ ''.meta''} s4 s5" using writeMeta_touches [of ?p s4 C mo] w by simp
    then have "content C s5 k = content C s4 k" by (rule content_touches) (simp add: path_neqs)
    with assms show ?thesis by simp
  qed
  obtain e6 s6 where rm: "os_Remove ?p s5 = (e6, s6)" by (cases "os_Remove ?p s5")
  have "content C s6 k \<in> {None, Some b}"
    using os_Remove_None [of ?p s5 s6] os_Remove_failed [of ?p s5 _ s6] rm c5
    by (cases e6) (auto simp: content_def)
  with w rm c5 show ?thesis by (cases e5) simp_all
qed

lemma write_body_slot:
  assumes tmp: "HasPrefix tmp ''.tmp-''"
  shows "slot C (snd (LocalFS_Write_body C (keyToPath C k) tmp r mo s)) k = slot C s k \<or>
    rd_err r = None \<and>
    content C (snd (LocalFS_Write_body C (keyToPath C k) tmp r mo s)) k \<in> {None, Some (rd_data r)}"
proof -
  let ?p = "keyToPath C k"
  have p: "?p \<notin> {tmp}" "?p @ ''.meta'' \<notin> {tmp}" using path_not_temp [of C k] tmp by auto
  obtain b s2 where c: "io_Copy tmp r s = (b, s2)" by (cases "io_Copy tmp r s")
  have c2: "slot C s2 k = slot C s k"
    using slot_touches [OF syscall_touches(7) p, of r s] c by simp
  obtain e3 s3 where cl: "os_Close s2 = (e3, s3)" by (cases "os_Close s2")
  have f3: "files s3 = files s2" using os_Close_files [of s2] cl by simp
  then have c3: "slot C s3 k = slot C s k" using c2 by (simp add: slot_def)
  obtain e4 s4 where rn: "os_Rename tmp ?p s3 = (e4, s4)" by (cases "os_Rename tmp ?p s3")
  show ?thesis
  proof (cases b)
    case False
    with c c2 show ?thesis by (simp add: LocalFS_Write_body_def)
  next
    case True
    have rd: "rd_err r = None" "\<exists>t. map_of (files s2) tmp = Some (rd_data r, t)"
      using io_Copy_True [of tmp r s s2] c True by simp_all
    show ?thesis
    proof (cases e3)
      case (Some e)
      with True c cl c3 show ?thesis by (simp add: LocalFS_Write_body_def)
    next
      case None3: None
      show ?thesis
      proof (cases e4)
        case (Some e)
        with True None3 c cl rn c3 slot_files [OF os_Rename_failed] show ?thesis
          by (simp add: LocalFS_Write_body_def)
      next
        case None
        with rn rd(2) f3 have "content C s4 k = Some (rd_data r)"
          using os_Rename_None [of tmp ?p s3 s4] by (auto simp: content_def)
        from write_tail_content [OF this, of mo] rd(1) show ?thesis
          by (simp add: LocalFS_Write_body_def c cl rn True None3 None)
      qed
    qed
  qed
qed


text \<open>A write leaves the slot of its key alone, or installs a complete body or nothing.\<close>

lemma LocalFS_Write_slot:
  "slot C (snd (LocalFS_Write C k r mo s)) k = slot C s k \<or>
   rd_err r = None \<and> content C (snd (LocalFS_Write C k r mo s)) k \<in> {None, Some (rd_data r)}"
proof (cases "os_CreateTemp s")
  case (Pair t s1)
  show ?thesis
  proof (cases t)
    case (Inl e)
    with Pair slot_touches [of "{}" s s1 C k] os_CreateTemp_only [OF Pair] show ?thesis
      by (simp add: LocalFS_Write_def Let_def)
  next
    case (Inr tmp)
    have pre: "HasPrefix tmp ''.tmp-''" using os_CreateTemp_name Pair Inr by blast
    then have p: "keyToPath C k \<notin> {tmp}" "keyToPath C k @ ''.meta'' \<notin> {tmp}"
      using path_not_temp [of C k] by auto
    have c1: "slot C s1 k = slot C s k"
      using slot_touches [OF _ p] os_CreateTemp_only [OF Pair] Inr by simp
    have "slot C (snd (LocalFS_Write C k r mo s)) k =
        slot C (snd (LocalFS_Write_body C (keyToPath C k) tmp r mo s1)) k"
      using slot_touches [OF syscall_touches(5) p] Pair Inr
      by (simp add: LocalFS_Write_def Let_def split_beta)
    with write_body_slot [OF pre, of C k r mo s1] c1 slot_content show ?thesis by metis
  qed
qed

lemma LocalFS_Write_lookup:
  assumes "lfs_lookup C (snd (LocalFS_Write C k r mo s)) k = Some b"
  shows "lfs_lookup C s k = Some b \<or> rd_err r = None \<and> b = rd_data r"
  using LocalFS_Write_slot [of C k r mo s]
proof
  assume "slot C (snd (LocalFS_Write C k r mo s)) k = slot C s k"
  from slot_lookup [OF this] assms show ?thesis by simp
qed (use lookup_content [OF assms] in simp)


section \<open>LocalFS keeps the storage contract\<close>

interpretation lfs: storage_contract "LocalFS_ops C" "lfs_lookup C" "lfs_same C" "lfs_ok_meta C"
    lfs_inv lfs_reliable for C :: codec
proof (unfold_locales, goal_cases)
  case 1 show ?case by (simp add: lfs_same_def)
next
  case (2 s k k') show ?case
    using lfs_lookup_touches [OF LocalFS_Read_touches] by (simp add: LocalFS_ops_def)
next
  case (3 s k) then show ?case
    using LocalFS_Read_touches [of s C k] by (simp add: LocalFS_ops_def touches_def)
next
  case (4 s k) show ?case
    using lfs_reliable_touches [OF LocalFS_Read_touches 4(2)] by (simp add: LocalFS_ops_def)
next
  case 5 then show ?case using LocalFS_Read_sound by (simp add: LocalFS_ops_def)
next
  case 6 then show ?case using LocalFS_Read_complete by (simp add: LocalFS_ops_def)
next
  case 7 then show ?case using LocalFS_Read_missing by (simp add: LocalFS_ops_def)
next
  case (8 s m k r k') then show ?case
    using LocalFS_Write_view lfs_lookup_touches [OF LocalFS_Write_touches own_names_other]
    by (simp add: LocalFS_ops_def)
next
  case 9 then show ?case using LocalFS_Write_reader by (simp add: LocalFS_ops_def)
next
  case 10 then show ?case
    using lfs_lookup_touches [OF LocalFS_Write_touches own_names_other] by (simp add: LocalFS_ops_def)
next
  case 11 then show ?case using LocalFS_Write_lookup by (simp add: LocalFS_ops_def)
next
  case (12 s k r mo) then show ?case
    using LocalFS_Write_touches [of C k s r mo] by (simp add: LocalFS_ops_def touches_def)
next
  case 13 then show ?case by (simp add: LocalFS_ops_def LocalFS_Write_reliable)
next
  case 14 then show ?case using LocalFS_Write_complete by (simp add: LocalFS_ops_def)
next
  case 15 then show ?case
    using LocalFS_Delete_None lfs_lookup_touches [OF LocalFS_Delete_touches own_names_other]
    by (simp add: LocalFS_ops_def)
next
  case 16 then show ?case 
    by (simp only: LocalFS_ops_def storage_ops.simps lfs_lookup_def LocalFS_Delete_failed)
next
  case (17 s k) then show ?case
    using LocalFS_Delete_touches [of C k s] by (simp add: LocalFS_ops_def touches_def)
next
  case 18 then show ?case by (simp add: LocalFS_ops_def LocalFS_Delete_reliable)
next
  case 19 then show ?case by (simp add: LocalFS_ops_def LocalFS_Delete_complete)
next
  case (20 s k r mo b) then show ?case
    using LocalFS_Write_installed [of C k r mo s] lookup_content [of C "snd (LocalFS_Write C k r mo s)" k b]
    by (auto simp: LocalFS_ops_def content_def)
qed


section \<open>Properties\<close>

text \<open>
  A write is atomic for the content of its key whatever I/O errors occur: afterwards the
  key has its old content, or the write consumed a complete body and the key has that body or
  nothing. A truncated body is never visible.
\<close>

lemma LocalFS_Write_atomic:
  "content C (snd (LocalFS_Write C k r mo s)) k = content C s k \<or>
   rd_err r = None \<and> content C (snd (LocalFS_Write C k r mo s)) k \<in> {None, Some (rd_data r)}"
  using LocalFS_Write_slot [of C k r mo s] slot_content by blast

text \<open>
  C31: without I/O errors, what was written under a key is what a read of the key returns, and
  keys with another digest keep their content.
\<close>

theorem LocalFS_read_after_write:
  assumes "lfs_inv s" "lfs_reliable s" "lfs_ok_meta C m"
  shows "fst (LocalFS_Write C k (bytes_reader b) (Some m) s) = None \<and>
    (\<exists>m'. fst (LocalFS_Read C k (snd (LocalFS_Write C k (bytes_reader b) (Some m) s))) =
       Inr (bytes_reader b, m')) \<and>
    (\<forall>k'. keyToPath C k' \<noteq> keyToPath C k \<longrightarrow>
       lfs_lookup C (snd (LocalFS_Write C k (bytes_reader b) (Some m) s)) k' = lfs_lookup C s k')"
  using lfs.write_complete [OF assms, of "bytes_reader b" k]
    lfs.read_after_write [OF assms, of "bytes_reader b" k]
    lfs.write_frame [OF assms(1), of C k _ "bytes_reader b" "Some m"]
  by (simp add: LocalFS_ops_def lfs_same_def)

text \<open>An empty directory without faults, and a codec, for the examples.\<close>

definition ex_fs :: localfs where
  "ex_fs = \<lparr>files = [], subdirs = [], faults = [], rnd = (\<lambda>i. i), rndpos = 0, osclock = 0\<rparr>"

definition ex_codec :: codec where
  "ex_codec = \<lparr>sha256 = (\<lambda>b. b), metaMarshal = (\<lambda>m. Some ''{}''),
     metaUnmarshal = (\<lambda>d. Some empty_Metadata)\<rparr>"

lemma ex_fs_ok: "lfs_inv ex_fs" "lfs_reliable ex_fs" "lfs_ok_meta ex_codec m"
  by (simp_all add: lfs_inv_def lfs_reliable_def lfs_ok_meta_def ex_fs_def ex_codec_def)

theorem LocalFS_read_after_write_witness:
  "\<exists>m'. fst (LocalFS_Read ex_codec ''k'' (snd (LocalFS_Write ex_codec ''k'' (bytes_reader ''body'')
     (Some empty_Metadata) ex_fs))) = Inr (bytes_reader ''body'', m')"
  using LocalFS_read_after_write [OF ex_fs_ok(1,2) ex_fs_ok(3)] by blast

text \<open>
  A delete that reports success leaves the key without content, one that reports an error leaves
  every key as it was, and no delete touches keys with another digest.
\<close>

lemma LocalFS_Delete_exact:
  assumes "lfs_inv s"
  shows "lfs_lookup C (snd (LocalFS_Delete C k s)) k' =
    (if fst (LocalFS_Delete C k s) = None \<and> keyToPath C k' = keyToPath C k then None
     else lfs_lookup C s k')"
  using lfs.delete_view [OF assms, of C k k'] lfs.delete_failed [OF assms, of C k _ k']
  by (cases "fst (LocalFS_Delete C k s)") (auto simp: LocalFS_ops_def lfs_same_def)

end
