(* ===== verification/MemStorage.thy ===== *)
theory MemStorage
  imports Storage
begin

text \<open>
  The in-memory backend of the integration tests (\<open>integration/mock/storage_mock.go\<close>): a map
  from keys to entries and one call counter per method. It interprets the storage contract
  with distinct keys in distinct slots, and it never fails on a reader that does not fail.
\<close>

record entry =
  eData :: bytes
  eMeta :: "Metadata option"

record MemStorage =
  mstore :: "entry gomap"
  readCount :: int
  writeCount :: int
  deleteCount :: int
  existsCount :: int
  statCount :: int
  listCount :: int

definition NewMemStorage :: MemStorage where
  "NewMemStorage = \<lparr>mstore = [], readCount = 0, writeCount = 0, deleteCount = 0,
     existsCount = 0, statCount = 0, listCount = 0\<rparr>"

definition MemStorage_Read ::
  "string \<Rightarrow> MemStorage \<Rightarrow> (storage_err + reader \<times> Metadata option) \<times> MemStorage" where
  "MemStorage_Read key m =
     (let m1 = m\<lparr>readCount := readCount m + 1\<rparr>
      in case map_of (mstore m1) key of
           None \<Rightarrow> (Inl (SKeyNotFound key), m1)
         | Some e \<Rightarrow> (Inr (bytes_reader (eData e), eMeta e), m1))"

definition MemStorage_Write ::
  "string \<Rightarrow> reader \<Rightarrow> Metadata option \<Rightarrow> MemStorage \<Rightarrow> storage_err option \<times> MemStorage" where
  "MemStorage_Write key r meta m =
     (let m1 = m\<lparr>writeCount := writeCount m + 1\<rparr>
      in case ReadAll r of
           Inl e \<Rightarrow> (Some SReadBody, m1)
         | Inr d \<Rightarrow>
             (None, m1\<lparr>mstore := AList.update key \<lparr>eData = d, eMeta = meta\<rparr> (mstore m1)\<rparr>))"

definition MemStorage_Delete :: "string \<Rightarrow> MemStorage \<Rightarrow> storage_err option \<times> MemStorage" where
  "MemStorage_Delete key m =
     (let m1 = m\<lparr>deleteCount := deleteCount m + 1\<rparr>
      in (None, m1\<lparr>mstore := AList.delete key (mstore m1)\<rparr>))"

definition MemStorage_Exists :: "string \<Rightarrow> MemStorage \<Rightarrow> bool \<times> MemStorage" where
  "MemStorage_Exists key m =
     (let m1 = m\<lparr>existsCount := existsCount m + 1\<rparr> in (map_of (mstore m1) key \<noteq> None, m1))"

text \<open>\<open>ModTime\<close> is the time of the call, the argument \<open>now\<close>.\<close>

definition MemStorage_Stat ::
  "time \<Rightarrow> string \<Rightarrow> MemStorage \<Rightarrow> (storage_err + FileInfo) \<times> MemStorage" where
  "MemStorage_Stat now key m =
     (let m1 = m\<lparr>statCount := statCount m + 1\<rparr>
      in case map_of (mstore m1) key of
           None \<Rightarrow> (Inl (SKeyNotFound key), m1)
         | Some e \<Rightarrow> (Inr \<lparr>fiSize = int (length (eData e)), fiModTime = now\<rparr>, m1))"

definition MemStorage_List ::
  "string \<Rightarrow> MemStorage \<Rightarrow> (storage_err + string list) \<times> MemStorage" where
  "MemStorage_List prfx m =
     (let m1 = m\<lparr>listCount := listCount m + 1\<rparr>
      in (Inr (filter (\<lambda>k. HasPrefix k prfx) (map fst (mstore m1))), m1))"

text \<open>The test helpers. \<open>CallCount\<close> panics (\<open>None\<close>) on an unknown method name.\<close>

definition MemStorage_CallCount :: "string \<Rightarrow> MemStorage \<Rightarrow> int option" where
  "MemStorage_CallCount meth m =
     (if meth = ''read'' then Some (readCount m)
      else if meth = ''write'' then Some (writeCount m)
      else if meth = ''delete'' then Some (deleteCount m)
      else if meth = ''exists'' then Some (existsCount m)
      else if meth = ''stat'' then Some (statCount m)
      else if meth = ''list'' then Some (listCount m)
      else None)"

definition MemStorage_Clear :: "MemStorage \<Rightarrow> MemStorage" where
  "MemStorage_Clear m = m\<lparr>mstore := [], readCount := 0, writeCount := 0, deleteCount := 0,
     existsCount := 0, statCount := 0, listCount := 0\<rparr>"

definition MemStorage_Keys :: "MemStorage \<Rightarrow> string list" where
  "MemStorage_Keys m = map fst (mstore m)"

text \<open>\<open>ReadJSON\<close>; \<open>dec\<close> is \<open>Decode\<close> of \<open>encoding/json\<close> on the reader, into the type of the caller's target.\<close>

datatype read_json_err = ReadJSONRead storage_err | ReadJSONDecode

definition MemStorage_ReadJSON ::
  "(reader \<Rightarrow> 'v option) \<Rightarrow> string \<Rightarrow> MemStorage \<Rightarrow> (read_json_err + 'v) \<times> MemStorage" where
  "MemStorage_ReadJSON dec key m =
     (case MemStorage_Read key m of
        (Inl e, m1) \<Rightarrow> (Inl (ReadJSONRead e), m1)
      | (Inr (rc, meta), m1) \<Rightarrow>
          (case dec rc of None \<Rightarrow> (Inl ReadJSONDecode, m1) | Some v \<Rightarrow> (Inr v, m1)))"

definition MemStorage_ops :: "time \<Rightarrow> MemStorage storage_ops" where
  "MemStorage_ops now = \<lparr>stRead = MemStorage_Read, stWrite = MemStorage_Write,
     stDelete = MemStorage_Delete, stExists = MemStorage_Exists, stStat = MemStorage_Stat now,
     stList = MemStorage_List\<rparr>"

definition mem_lookup :: "MemStorage \<Rightarrow> string \<Rightarrow> bytes option" where
  "mem_lookup m k = map_option eData (map_of (mstore m) k)"

definition mem_inv :: "MemStorage \<Rightarrow> bool" where
  "mem_inv m \<longleftrightarrow> distinct (map fst (mstore m))"

lemmas MemStorage_defs =
  MemStorage_Read_def MemStorage_Write_def MemStorage_Delete_def MemStorage_Exists_def
  MemStorage_Stat_def MemStorage_List_def MemStorage_ops_def

lemma MemStorage_ops_sel [simp]:
  "stRead (MemStorage_ops now) = MemStorage_Read"
  "stWrite (MemStorage_ops now) = MemStorage_Write"
  "stDelete (MemStorage_ops now) = MemStorage_Delete"
  "stExists (MemStorage_ops now) = MemStorage_Exists"
  "stStat (MemStorage_ops now) = MemStorage_Stat now"
  "stList (MemStorage_ops now) = MemStorage_List"
  by (simp_all add: MemStorage_ops_def)

lemma mem_inv_new [wf_intros]: "mem_inv NewMemStorage"
  by (simp add: mem_inv_def NewMemStorage_def)

interpretation mem: total_storage "MemStorage_ops now" mem_lookup "(=)" "\<lambda>_. True" mem_inv "\<lambda>_. True"
  for now :: time
  by unfold_locales
     (auto simp: MemStorage_defs mem_lookup_def mem_inv_def Let_def ReadAll_def bytes_reader_def
        simp del: map_of_eq_Some_iff split: option.splits)

text \<open>\<open>List\<close> reports exactly the stored keys with the prefix, each once.\<close>

lemma MemStorage_List_correct:
  assumes "mem_inv m" "fst (MemStorage_List p m) = Inr ks"
  shows "distinct ks \<and> (\<forall>k. k \<in> set ks \<longleftrightarrow> mem_lookup m k \<noteq> None \<and> HasPrefix k p)"
proof -
  from assms(2) have ks: "ks = filter (\<lambda>k. HasPrefix k p) (map fst (mstore m))"
    by (simp add: MemStorage_List_def Let_def)
  have "mem_lookup m k \<noteq> None \<longleftrightarrow> k \<in> set (map fst (mstore m))" for k
    by (simp add: mem_lookup_def map_of_eq_None_iff)
  with assms(1) show ?thesis by (auto simp: ks mem_inv_def)
qed

text \<open>\<open>ReadJSON\<close> after a write decodes the bytes written, whatever else is stored; a missing key is an error.\<close>

lemma MemStorage_ReadJSON_written:
  assumes "MemStorage_Write key r meta m = (None, m1)"
  shows "\<exists>b. ReadAll r = Inr b \<and> fst (MemStorage_ReadJSON dec key m1) =
    (case dec (bytes_reader b) of None \<Rightarrow> Inl ReadJSONDecode | Some v \<Rightarrow> Inr v)"
  using assms
  by (auto simp: MemStorage_Write_def MemStorage_ReadJSON_def MemStorage_Read_def Let_def update_conv'
      split: sum.splits option.split)

lemma MemStorage_ReadJSON_missing:
  "mem_lookup m key = None \<Longrightarrow>
   fst (MemStorage_ReadJSON dec key m) = Inl (ReadJSONRead (SKeyNotFound key))"
  by (simp add: mem_lookup_def MemStorage_ReadJSON_def MemStorage_Read_def Let_def)


section \<open>Properties\<close>

text \<open>\<open>List\<close> of the in-memory backend reports exactly the stored keys with the prefix.\<close>

lemma MemStorage_List_exact:
  assumes "mem_inv m"
  shows "\<exists>ks. fst (MemStorage_List p m) = Inr ks \<and> distinct ks \<and>
    (\<forall>k. k \<in> set ks \<longleftrightarrow> mem_lookup m k \<noteq> None \<and> HasPrefix k p)"
proof -
  obtain ks where ks: "fst (MemStorage_List p m) = Inr ks" by (simp add: MemStorage_List_def Let_def)
  with MemStorage_List_correct [OF assms ks] show ?thesis by blast
qed

end
