(* ===== verification/LRU.thy ===== *)
theory LRU
  imports Httplib LocalFS MemStorage
begin

text \<open>
  The LRU and TTL cache (\<open>cache/cache.go\<close>). The Go structure is a map from keys to elements of
  a doubly linked \<open>container/list\<close> whose values are \<open>*Meta\<close>. The model keeps the element
  identity: \<open>lru\<close> is the list of element addresses (front first), \<open>vals\<close> the heap they point
  to, \<open>items\<close> the map. The storage is shared with the flush store, so it is not a field but
  a second component of the state that every operation threads through; its methods are the
  record \<open>S\<close> (the field \<open>storage\<close> of the Go structure).

  \<open>cache_view\<close> abstracts the structure to the list of its metadata in recency order; the
  refinement lemmas say what each operation does to that list.

  Every operation is one step here; in the code \<open>Get\<close>, \<open>Set\<close> and \<open>Delete\<close> release the mutex around
  their storage access, and the interleavings this allows are the subject of theory LRUConc.
\<close>

record Meta =
  mKey :: string
  WrittenAt :: time
  TTL :: duration
  mSize :: int
  mHeaders :: "header option"

definition ExpiresAt :: "Meta \<Rightarrow> time" where
  "ExpiresAt m = Add (WrittenAt m) (TTL m)"

datatype cache_err =
    CacheMiss string
  | CacheExpired string
  | CacheStorageRead storage_err
  | CacheStorageWrite storage_err
  | CacheNotFound string

record LRUCache =
  items :: "string \<rightharpoonup> nat"
  lru :: "nat list"
  vals :: "nat \<Rightarrow> Meta"
  nextel :: nat
  maxItems :: int

definition NewLRUCache :: "int \<Rightarrow> LRUCache" where
  "NewLRUCache n = \<lparr>items = Map.empty, lru = [], vals = (\<lambda>_. undefined), nextel = 0, maxItems = n\<rparr>"


section \<open>container/list\<close>

definition MoveToFront :: "nat \<Rightarrow> nat list \<Rightarrow> nat list" where
  "MoveToFront el l = (if el \<in> set l then el # remove1 el l else l)"

definition Back :: "nat list \<Rightarrow> nat option" where
  "Back l = (if l = [] then None else Some (last l))"

definition PushFront :: "Meta \<Rightarrow> LRUCache \<Rightarrow> nat \<times> LRUCache" where
  "PushFront m c = (nextel c, c\<lparr>lru := nextel c # lru c, vals := (vals c)(nextel c := m),
     nextel := Suc (nextel c)\<rparr>)"


section \<open>Helpers\<close>

definition removeLocked :: "nat \<Rightarrow> LRUCache \<Rightarrow> LRUCache" where
  "removeLocked el c =
     (let meta = vals c el
      in c\<lparr>items := (items c)(mKey meta := None), lru := remove1 el (lru c)\<rparr>)"

function evictLocked :: "'s storage_ops \<Rightarrow> LRUCache \<times> 's \<Rightarrow> LRUCache \<times> 's" where
  "evictLocked S (c, st) =
     (if maxItems c < int (length (lru c)) then
        (case Back (lru c) of
           None \<Rightarrow> (c, st)
         | Some tail \<Rightarrow>
             (let meta = vals c tail; st1 = snd (stDelete S (mKey meta) st)
              in evictLocked S (removeLocked tail c, st1)))
      else (c, st))"
  by pat_completeness auto
termination
  by (relation "measure (\<lambda>(S, c, st). length (lru c))")
     (auto simp: removeLocked_def Back_def length_remove1 split: if_splits)

declare evictLocked.simps [simp del]

text \<open>The text forms of instants and durations that go into the persisted metadata.\<close>

record fmt =
  fmtTime :: "time \<Rightarrow> string"
  fmtDuration :: "duration \<Rightarrow> string"

definition metaToStorageMeta :: "fmt \<Rightarrow> Meta \<Rightarrow> Metadata" where
  "metaToStorageMeta F m =
     (let custom = [''key'' \<mapsto> mKey m, ''written_at'' \<mapsto> fmtTime F (WrittenAt m),
                    ''ttl'' \<mapsto> fmtDuration F (TTL m)]
      in case mHeaders m of
           None \<Rightarrow> \<lparr>ContentType = [], CacheControl = [], Expires = [], CustomMeta = custom\<rparr>
         | Some h \<Rightarrow> \<lparr>ContentType = Header_Get h ''Content-Type'',
                      CacheControl = Header_Get h ''Cache-Control'',
                      Expires = Header_Get h ''Expires'', CustomMeta = custom\<rparr>)"


section \<open>Operations\<close>

definition LRUCache_Get ::
  "'s storage_ops \<Rightarrow> time \<Rightarrow> string \<Rightarrow> LRUCache \<times> 's \<Rightarrow>
   (cache_err + reader \<times> Meta) \<times> LRUCache \<times> 's" where
  "LRUCache_Get S now key = (\<lambda>(c, st).
     case items c key of
       None \<Rightarrow> (Inl (CacheMiss key), c, st)
     | Some el \<Rightarrow>
         (let meta = vals c el
          in if After now (ExpiresAt meta) then (Inl (CacheExpired key), removeLocked el c, st)
             else (let c1 = c\<lparr>lru := MoveToFront el (lru c)\<rparr>
               in case stRead S key st of
                    (Inl e, st1) \<Rightarrow>
                      (Inl (CacheStorageRead e),
                       (case items c1 key of None \<Rightarrow> c1 | Some el2 \<Rightarrow> removeLocked el2 c1), st1)
                  | (Inr (rc, m), st1) \<Rightarrow> (Inr (rc, meta), c1, st1))))"

definition LRUCache_Set ::
  "'s storage_ops \<Rightarrow> fmt \<Rightarrow> string \<Rightarrow> reader \<Rightarrow> Meta \<Rightarrow> LRUCache \<times> 's \<Rightarrow>
   cache_err option \<times> LRUCache \<times> 's" where
  "LRUCache_Set S F key r meta = (\<lambda>(c, st).
     case stWrite S key r (Some (metaToStorageMeta F meta)) st of
       (Some e, st1) \<Rightarrow> (Some (CacheStorageWrite e), c, st1)
     | (None, st1) \<Rightarrow>
         (case items c key of
            Some el \<Rightarrow>
              (None, c\<lparr>vals := (vals c)(el := meta), lru := MoveToFront el (lru c)\<rparr>, st1)
          | None \<Rightarrow>
              (let (el, c1) = PushFront meta c
               in (None, evictLocked S (c1\<lparr>items := (items c1)(key \<mapsto> el)\<rparr>, st1)))))"

definition LRUCache_Delete ::
  "'s storage_ops \<Rightarrow> string \<Rightarrow> LRUCache \<times> 's \<Rightarrow> storage_err option \<times> LRUCache \<times> 's" where
  "LRUCache_Delete S key = (\<lambda>(c, st).
     (let c1 = (case items c key of None \<Rightarrow> c | Some el \<Rightarrow> removeLocked el c);
          (e, st1) = stDelete S key st
      in (e, c1, st1)))"

definition LRUCache_Stat :: "string \<Rightarrow> LRUCache \<Rightarrow> cache_err + Meta" where
  "LRUCache_Stat key c =
     (case items c key of None \<Rightarrow> Inl (CacheNotFound key) | Some el \<Rightarrow> Inr (vals c el))"

definition LRUCache_Len :: "LRUCache \<Rightarrow> nat" where
  "LRUCache_Len c = length (lru c)"


section \<open>Invariant and abstract view\<close>

text \<open>
  The map and the list agree: a key maps to an element exactly when that element is in the
  list and its metadata carries the key. So no two listed elements have the same key.
\<close>

definition lru_wf :: "LRUCache \<Rightarrow> bool" where
  "lru_wf c \<longleftrightarrow> distinct (lru c) \<and>
     (\<forall>k e. items c k = Some e \<longleftrightarrow> e \<in> set (lru c) \<and> mKey (vals c e) = k) \<and>
     (\<forall>e \<in> set (lru c). e < nextel c)"

definition lru_inv :: "LRUCache \<Rightarrow> bool" where
  "lru_inv c \<longleftrightarrow> lru_wf c \<and> int (length (lru c)) \<le> maxItems c"

definition cache_view :: "LRUCache \<Rightarrow> Meta list" where
  "cache_view c = map (vals c) (lru c)"

text \<open>The abstract cache: metadata in recency order.\<close>

definition spec_remove :: "string \<Rightarrow> Meta list \<Rightarrow> Meta list" where
  "spec_remove k ms = filter (\<lambda>m. mKey m \<noteq> k) ms"

definition spec_lookup :: "string \<Rightarrow> Meta list \<Rightarrow> Meta option" where
  "spec_lookup k ms = find (\<lambda>m. mKey m = k) ms"

definition spec_touch :: "string \<Rightarrow> Meta list \<Rightarrow> Meta list" where
  "spec_touch k ms = (case spec_lookup k ms of None \<Rightarrow> ms | Some m \<Rightarrow> m # spec_remove k ms)"

definition spec_put :: "nat \<Rightarrow> Meta \<Rightarrow> Meta list \<Rightarrow> Meta list" where
  "spec_put cap m ms = take cap (m # spec_remove (mKey m) ms)"

lemma lru_wf_items: "lru_wf c \<Longrightarrow> items c k = Some e \<longleftrightarrow> e \<in> set (lru c) \<and> mKey (vals c e) = k"
  by (simp add: lru_wf_def)

lemma lru_wf_key_inj:
  "lru_wf c \<Longrightarrow> e \<in> set (lru c) \<Longrightarrow> e' \<in> set (lru c) \<Longrightarrow> mKey (vals c e) = mKey (vals c e') \<Longrightarrow> e = e'"
  unfolding lru_wf_def by (metis option.inject)

lemma lru_wf_None:
  "lru_wf c \<Longrightarrow> items c k = None \<longleftrightarrow> (\<forall>e \<in> set (lru c). mKey (vals c e) \<noteq> k)"
  unfolding lru_wf_def by (metis not_None_eq)

lemma lru_wf_new [wf_intros]: "lru_wf (NewLRUCache n)"
  by (simp add: lru_wf_def NewLRUCache_def)

lemma lru_inv_new [wf_intros]: "0 \<le> n \<Longrightarrow> lru_inv (NewLRUCache n)"
  using lru_wf_new [of n] by (simp add: lru_inv_def NewLRUCache_def)

lemma cache_view_new [simp]: "cache_view (NewLRUCache n) = []"
  by (simp add: cache_view_def NewLRUCache_def)

lemma remove1_filter: "distinct l \<Longrightarrow> remove1 e l = filter (\<lambda>x. x \<noteq> e) l"
  by (simp add: distinct_remove1_removeAll removeAll_filter_not_eq eq_commute [of _ e])

lemma view_remove1:
  assumes "lru_wf c" "e \<in> set (lru c)"
  shows "map (vals c) (remove1 e (lru c)) = spec_remove (mKey (vals c e)) (cache_view c)"
proof -
  have "map (vals c) (filter (\<lambda>x. x \<noteq> e) l) = filter (\<lambda>m. mKey m \<noteq> mKey (vals c e)) (map (vals c) l)"
    if "set l \<subseteq> set (lru c)" for l
    using that lru_wf_key_inj [OF assms(1) _ assms(2)] by (induction l) auto
  with assms(1) show ?thesis
    by (simp add: remove1_filter cache_view_def spec_remove_def lru_wf_def)
qed

lemma spec_lookup_view:
  assumes "lru_wf c"
  shows "spec_lookup k (cache_view c) = map_option (vals c) (items c k)"
proof (cases "items c k")
  case None
  then show ?thesis using lru_wf_None [OF assms, of k]
    by (simp add: spec_lookup_def cache_view_def find_None_iff)
next
  case (Some e)
  then have e: "e \<in> set (lru c)" "mKey (vals c e) = k" using assms lru_wf_items by blast+
  have "find (\<lambda>m. mKey m = k) (map (vals c) l) = Some (vals c e)"
    if "e \<in> set l" "set l \<subseteq> set (lru c)" for l
    using that
  proof (induction l)
    case (Cons x l)
    then show ?case using lru_wf_key_inj [OF assms _ e(1), of x] e(2) by auto
  qed simp
  with e Some show ?thesis by (simp add: spec_lookup_def cache_view_def)
qed

lemma removeLocked_wf:
  assumes "lru_wf c" "e \<in> set (lru c)" shows "lru_wf (removeLocked e c)"
  unfolding lru_wf_def
proof (intro conjI allI ballI)
  show "distinct (lru (removeLocked e c))"
    using assms(1) by (simp add: removeLocked_def Let_def lru_wf_def)
  fix k e'
  have "e' \<in> set (remove1 e (lru c)) \<longleftrightarrow> e' \<in> set (lru c) \<and> e' \<noteq> e"
    using assms(1) by (auto simp: lru_wf_def)
  then show "items (removeLocked e c) k = Some e' \<longleftrightarrow>
      e' \<in> set (lru (removeLocked e c)) \<and> mKey (vals (removeLocked e c) e') = k"
    using lru_wf_items [OF assms(1), of k e'] lru_wf_key_inj [OF assms(1) _ assms(2), of e']
    by (auto simp: removeLocked_def Let_def)
qed (use assms(1) in \<open>auto simp: removeLocked_def Let_def lru_wf_def dest: notin_set_remove1\<close>)

lemma removeLocked_sel [simp]:
  "vals (removeLocked e c) = vals c" "maxItems (removeLocked e c) = maxItems c"
  "lru (removeLocked e c) = remove1 e (lru c)" "nextel (removeLocked e c) = nextel c"
  "items (removeLocked e c) = (items c)(mKey (vals c e) := None)"
  by (simp_all add: removeLocked_def Let_def)

lemma removeLocked_view:
  "lru_wf c \<Longrightarrow> e \<in> set (lru c) \<Longrightarrow>
   cache_view (removeLocked e c) = spec_remove (mKey (vals c e)) (cache_view c)"
  by (simp add: cache_view_def view_remove1 [unfolded cache_view_def])

lemma removeLocked_inv:
  "lru_inv c \<Longrightarrow> e \<in> set (lru c) \<Longrightarrow> lru_inv (removeLocked e c)"
  by (auto simp: lru_inv_def removeLocked_wf length_remove1)

lemma MoveToFront_set [simp]: "set (MoveToFront e l) = set l"
proof (cases "e \<in> set l")
  case True
  then show ?thesis by (induction l) (auto simp: MoveToFront_def)
qed (simp add: MoveToFront_def)

lemma MoveToFront_distinct: "distinct l \<Longrightarrow> distinct (MoveToFront e l)"
  by (auto simp: MoveToFront_def)

lemma MoveToFront_length [simp]: "length (MoveToFront e l) = length l"
  using length_pos_if_in_set [of e l] by (simp add: MoveToFront_def length_remove1)

lemma lru_wf_reorder:
  "lru_wf c \<Longrightarrow> distinct l \<Longrightarrow> set l = set (lru c) \<Longrightarrow> lru_wf (c\<lparr>lru := l\<rparr>)"
  by (simp add: lru_wf_def)

lemma MoveToFront_view:
  assumes "lru_wf c" "items c k = Some e"
  shows "cache_view (c\<lparr>lru := MoveToFront e (lru c)\<rparr>) = spec_touch k (cache_view c)"
    "lru_wf (c\<lparr>lru := MoveToFront e (lru c)\<rparr>)"
proof -
  have e: "e \<in> set (lru c)" "mKey (vals c e) = k" using assms lru_wf_items by blast+
  then show "cache_view (c\<lparr>lru := MoveToFront e (lru c)\<rparr>) = spec_touch k (cache_view c)"
    using view_remove1 [OF assms(1) e(1)]
    by (simp add: spec_touch_def spec_lookup_view [OF assms(1)] assms(2))
       (simp add: cache_view_def MoveToFront_def)
  show "lru_wf (c\<lparr>lru := MoveToFront e (lru c)\<rparr>)"
    using assms(1) by (auto intro!: lru_wf_reorder MoveToFront_distinct simp: lru_wf_def)
qed


section \<open>Eviction\<close>

lemma Back_in_set: "Back l = Some e \<Longrightarrow> e \<in> set l"
  by (auto simp: Back_def split: if_splits)

lemma remove1_last: "distinct l \<Longrightarrow> l \<noteq> [] \<Longrightarrow> remove1 (last l) l = butlast l"
  by (induction l rule: rev_induct) (auto simp: remove1_append)

text \<open>
  The loop removes the least recently used elements until the capacity holds, and deletes
  exactly their keys from the storage; it always ends.
\<close>

definition evicted :: "LRUCache \<Rightarrow> LRUCache \<Rightarrow> bool" where
  "evicted c c' \<longleftrightarrow> lru_inv c' \<and> lru c' = take (nat (maxItems c)) (lru c) \<and>
     vals c' = vals c \<and> maxItems c' = maxItems c \<and> nextel c' = nextel c"

lemma evictLocked_evicted:
  assumes "lru_wf c" "0 \<le> maxItems c"
  shows "evicted c (fst (evictLocked S (c, st)))"
  using assms
proof (induction "length (lru c)" arbitrary: c st rule: less_induct)
  case less
  show ?case
  proof (cases "maxItems c < int (length (lru c))")
    case False
    then show ?thesis using less.prems
      by (simp add: evictLocked.simps [of S c st] lru_inv_def evicted_def)
  next
    case True
    then have ne: "lru c \<noteq> []" using less.prems(2) by auto
    let ?t = "last (lru c)" let ?c' = "removeLocked ?t c"
    let ?st' = "snd (stDelete S (mKey (vals c ?t)) st)"
    have wf: "lru_wf ?c'" by (rule removeLocked_wf [OF less.prems(1)]) (simp add: ne)
    have l: "lru ?c' = butlast (lru c)"
      using less.prems(1) ne by (simp add: remove1_last lru_wf_def)
    then have sh: "length (lru ?c') < length (lru c)" using ne by simp
    have eq: "evictLocked S (c, st) = evictLocked S (?c', ?st')"
      using True ne by (simp add: evictLocked.simps [of S c st] Back_def Let_def)
    have "take (nat (maxItems c)) (butlast (lru c)) = take (nat (maxItems c)) (lru c)"
      using True less.prems(2) by (simp add: take_butlast)
    with less.hyps [OF sh wf, of ?st'] less.prems(2) l show ?thesis
      unfolding eq by (simp add: evicted_def)
  qed
qed

lemma evictLocked_view:
  assumes "lru_wf c" "0 \<le> maxItems c"
  shows "cache_view (fst (evictLocked S (c, st))) = take (nat (maxItems c)) (cache_view c)"
  using evictLocked_evicted [OF assms, of S st] by (simp add: evicted_def cache_view_def take_map)

lemma evictLocked_noop:
  "int (length (lru c)) \<le> maxItems c \<Longrightarrow> evictLocked S (c, st) = (c, st)"
  by (simp add: evictLocked.simps)

lemma evictLocked_one:
  assumes "lru_wf c" "int (length (lru c)) = maxItems c + 1" "0 \<le> maxItems c"
  shows "evictLocked S (c, st) =
    (removeLocked (last (lru c)) c, snd (stDelete S (mKey (vals c (last (lru c)))) st))"
proof -
  have ne: "lru c \<noteq> []" using assms(2,3) by auto
  then obtain n where n: "length (lru c) = Suc n" by (cases "lru c") auto
  have "int (length (lru (removeLocked (last (lru c)) c))) \<le> maxItems (removeLocked (last (lru c)) c)"
    using assms(2) ne n by (simp add: length_remove1)
  then show ?thesis using assms(2) ne
    by (subst evictLocked.simps) (simp add: Back_def Let_def evictLocked_noop)
qed


section \<open>Refinement: what each operation does to the recency list\<close>

text \<open>The element added by a first \<open>Set\<close> of a key, before eviction.\<close>

definition inserted :: "string \<Rightarrow> Meta \<Rightarrow> LRUCache \<Rightarrow> LRUCache" where
  "inserted key m c = (snd (PushFront m c))\<lparr>items := (items c)(key \<mapsto> nextel c)\<rparr>"

lemma inserted_sel [simp]:
  "lru (inserted k m c) = nextel c # lru c" "maxItems (inserted k m c) = maxItems c"
  "vals (inserted k m c) = (vals c)(nextel c := m)" "items (inserted k m c) = (items c)(k \<mapsto> nextel c)"
  "nextel (inserted k m c) = Suc (nextel c)"
  by (simp_all add: inserted_def PushFront_def)

lemma inserted_wf:
  assumes "lru_wf c" "items c (mKey m) = None" shows "lru_wf (inserted (mKey m) m c)"
  using assms lru_wf_None [OF assms(1), of "mKey m"]
  by (auto simp: lru_wf_def fun_upd_def)

lemma inserted_view: "lru_wf c \<Longrightarrow> cache_view (inserted k m c) = m # cache_view c"
  by (auto simp: cache_view_def lru_wf_def)

lemma Set_new:
  "fst (stWrite S key r (Some (metaToStorageMeta F m)) st) = None \<Longrightarrow> items c key = None \<Longrightarrow>
   LRUCache_Set S F key r m (c, st) =
     (None, evictLocked S (inserted key m c, snd (stWrite S key r (Some (metaToStorageMeta F m)) st)))"
  by (cases "stWrite S key r (Some (metaToStorageMeta F m)) st")
     (simp add: LRUCache_Set_def inserted_def PushFront_def Let_def)

lemma Set_old:
  "fst (stWrite S key r (Some (metaToStorageMeta F m)) st) = None \<Longrightarrow> items c key = Some el \<Longrightarrow>
   LRUCache_Set S F key r m (c, st) =
     (None, c\<lparr>vals := (vals c)(el := m), lru := MoveToFront el (lru c)\<rparr>,
      snd (stWrite S key r (Some (metaToStorageMeta F m)) st))"
  by (cases "stWrite S key r (Some (metaToStorageMeta F m)) st") (simp add: LRUCache_Set_def)

lemma Set_failed:
  "fst (stWrite S key r (Some (metaToStorageMeta F m)) st) = Some e \<Longrightarrow>
   LRUCache_Set S F key r m (c, st) =
     (Some (CacheStorageWrite e), c, snd (stWrite S key r (Some (metaToStorageMeta F m)) st))"
  by (cases "stWrite S key r (Some (metaToStorageMeta F m)) st") (simp add: LRUCache_Set_def)

lemma overwrite_wf:
  assumes "lru_wf c" "items c (mKey m) = Some e"
  shows "lru_wf (c\<lparr>vals := (vals c)(e := m), lru := MoveToFront e (lru c)\<rparr>)"
    "cache_view (c\<lparr>vals := (vals c)(e := m), lru := MoveToFront e (lru c)\<rparr>) =
       m # spec_remove (mKey m) (cache_view c)"
proof -
  have e: "e \<in> set (lru c)" "mKey (vals c e) = mKey m" using assms lru_wf_items by blast+
  then show "lru_wf (c\<lparr>vals := (vals c)(e := m), lru := MoveToFront e (lru c)\<rparr>)"
    using assms(1) MoveToFront_distinct [of "lru c" e] by (auto simp: lru_wf_def)
  have "map ((vals c)(e := m)) (remove1 e (lru c)) = map (vals c) (remove1 e (lru c))"
    using assms(1) by (auto simp: lru_wf_def)
  then show "cache_view (c\<lparr>vals := (vals c)(e := m), lru := MoveToFront e (lru c)\<rparr>) =
       m # spec_remove (mKey m) (cache_view c)"
    using e view_remove1 [OF assms(1) e(1)] by (simp add: cache_view_def MoveToFront_def)
qed

text \<open>
  The abstract operations: what the client sees of a call, given the outcome of its one storage
  access, and the recency list after it.
\<close>

definition spec_Get ::
  "time \<Rightarrow> string \<Rightarrow> storage_err + reader \<times> Metadata option \<Rightarrow> Meta list \<Rightarrow>
   (cache_err + reader \<times> Meta) \<times> Meta list" where
  "spec_Get now k res ms =
     (case spec_lookup k ms of
        None \<Rightarrow> (Inl (CacheMiss k), ms)
      | Some m \<Rightarrow>
          if After now (ExpiresAt m) then (Inl (CacheExpired k), spec_remove k ms)
          else (case res of
                  Inl e \<Rightarrow> (Inl (CacheStorageRead e), spec_remove k ms)
                | Inr (rc, x) \<Rightarrow> (Inr (rc, m), spec_touch k ms)))"

definition spec_Set ::
  "nat \<Rightarrow> Meta \<Rightarrow> storage_err option \<Rightarrow> Meta list \<Rightarrow> cache_err option \<times> Meta list" where
  "spec_Set cap m res ms =
     (case res of
        Some e \<Rightarrow> (Some (CacheStorageWrite e), ms)
      | None \<Rightarrow> (None, spec_put cap m ms))"

lemma MoveToFront_items:
  assumes "lru_wf c" "items c k = Some el"
  shows "lru_inv (removeLocked el (c\<lparr>lru := MoveToFront el (lru c)\<rparr>)) \<longleftrightarrow>
      lru_inv (removeLocked el c)"
    "cache_view (removeLocked el (c\<lparr>lru := MoveToFront el (lru c)\<rparr>)) = spec_remove k (cache_view c)"
proof -
  have e: "el \<in> set (lru c)" "mKey (vals c el) = k" using assms lru_wf_items by blast+
  have l: "remove1 el (MoveToFront el (lru c)) = remove1 el (lru c)"
    using e by (simp add: MoveToFront_def)
  then have "removeLocked el (c\<lparr>lru := MoveToFront el (lru c)\<rparr>) = removeLocked el c"
    by (simp add: removeLocked_def Let_def)
  then show "lru_inv (removeLocked el (c\<lparr>lru := MoveToFront el (lru c)\<rparr>)) \<longleftrightarrow>
      lru_inv (removeLocked el c)"
    "cache_view (removeLocked el (c\<lparr>lru := MoveToFront el (lru c)\<rparr>)) = spec_remove k (cache_view c)"
    using removeLocked_view [OF assms(1) e(1)] e(2) by simp_all
qed

lemma Get_refines_spec:
  assumes inv: "lru_inv c" and run: "LRUCache_Get S now k (c, st) = (r, c', st')"
  shows "(r, cache_view c') = spec_Get now k (fst (stRead S k st)) (cache_view c) \<and> lru_inv c'"
proof (cases "items c k")
  case None
  with inv run show ?thesis
    by (auto simp: LRUCache_Get_def spec_Get_def spec_lookup_view lru_inv_def)
next
  case (Some el)
  have wf: "lru_wf c" using inv by (simp add: lru_inv_def)
  have e: "el \<in> set (lru c)" "mKey (vals c el) = k" using wf Some lru_wf_items by blast+
  have spec: "spec_lookup k (cache_view c) = Some (vals c el)"
    by (simp add: spec_lookup_view [OF wf] Some)
  note rm = removeLocked_view [OF wf e(1), unfolded e(2)] removeLocked_inv [OF inv e(1)]
  have mv: "lru_inv (c\<lparr>lru := MoveToFront el (lru c)\<rparr>)"
    using MoveToFront_view(2) [OF wf Some] inv by (simp add: lru_inv_def)
  show ?thesis
    using run Some rm mv MoveToFront_items [OF wf Some] MoveToFront_view(1) [OF wf Some]
    by (cases "stRead S k st"; cases "fst (stRead S k st)")
       (auto simp: LRUCache_Get_def spec_Get_def spec Let_def split: if_splits)
qed

lemma Set_refines_spec:
  assumes inv: "lru_inv c" and key: "mKey m = k"
    and run: "LRUCache_Set S F k r m (c, st) = (e, c', st')"
  shows "(e, cache_view c') = spec_Set (nat (maxItems c)) m
      (fst (stWrite S k r (Some (metaToStorageMeta F m)) st)) (cache_view c) \<and>
    lru_inv c' \<and> maxItems c' = maxItems c"
proof (cases "fst (stWrite S k r (Some (metaToStorageMeta F m)) st)")
  case (Some err)
  then show ?thesis using Set_failed [OF Some, of c] run inv by (simp add: spec_Set_def)
next
  case None
  have wf: "lru_wf c" and len: "int (length (lru c)) \<le> maxItems c"
    using inv by (simp_all add: lru_inv_def)
  show ?thesis
  proof (cases "items c k")
    case (Some el)
    have sub: "length (remove1 el (lru c)) < length (lru c)"
      using wf Some lru_wf_items by (metis One_nat_def length_pos_if_in_set length_remove1 diff_less zero_less_one)
    have "length (m # spec_remove k (cache_view c)) \<le> nat (maxItems c)"
      using view_remove1 [OF wf, of el] wf Some sub len lru_wf_items [OF wf, of k el]
      by (metis (no_types, lifting) Suc_leI length_Cons length_map nat_int nat_mono order_trans)
    then show ?thesis
      using Set_old [OF None Some] run overwrite_wf [OF wf, of m el] Some len
      by (simp add: spec_Set_def spec_put_def key None lru_inv_def)
  next
    case Nonei: None
    have m0: "0 \<le> maxItems c" using len by linarith
    have wf': "lru_wf (inserted k m c)" using inserted_wf [OF wf, of m] Nonei key by simp
    have rmv: "spec_remove k (cache_view c) = cache_view c"
      using lru_wf_None [OF wf, of k] Nonei by (auto simp: spec_remove_def cache_view_def)
    let ?st1 = "snd (stWrite S k r (Some (metaToStorageMeta F m)) st)"
    have "e = None" and c': "c' = fst (evictLocked S (inserted k m c, ?st1))"
      using Set_new [OF None Nonei] run by (simp_all add: prod_eq_iff)
    then show ?thesis
      using evictLocked_evicted [OF wf', of S ?st1] evictLocked_view [OF wf', of S ?st1] m0
      by (simp add: spec_Set_def spec_put_def key None rmv inserted_view [OF wf] evicted_def)
  qed
qed

lemma Delete_refines_spec:
  assumes inv: "lru_inv c" and run: "LRUCache_Delete S k (c, st) = (e, c', st')"
  shows "cache_view c' = spec_remove k (cache_view c) \<and> lru_inv c' \<and>
    (e, st') = stDelete S k st"
proof -
  have wf: "lru_wf c" using inv by (simp add: lru_inv_def)
  show ?thesis
  proof (cases "items c k")
    case None
    have "spec_remove k (cache_view c) = cache_view c"
      using lru_wf_None [OF wf, of k] None by (auto simp: spec_remove_def cache_view_def)
    with None run inv show ?thesis by (auto simp: LRUCache_Delete_def Let_def split_beta)
  next
    case (Some el)
    have e: "el \<in> set (lru c)" "mKey (vals c el) = k" using wf Some lru_wf_items by blast+
    with Some run removeLocked_view [OF wf e(1)] removeLocked_inv [OF inv e(1)] show ?thesis
      by (auto simp: LRUCache_Delete_def Let_def split_beta)
  qed
qed


section \<open>Index and content agree over any history\<close>

text \<open>
  A history of calls. The ghost \<open>last_set\<close> remembers, for every key, the bytes and the
  metadata of the last \<open>Set\<close> and forgets them at a \<open>Delete\<close>.
\<close>

datatype cache_op =
    OpGet time string
  | OpSet string bytes Meta
  | OpDelete string
  | OpStat string

fun run_op :: "'s storage_ops \<Rightarrow> fmt \<Rightarrow> cache_op \<Rightarrow> LRUCache \<times> 's \<Rightarrow> LRUCache \<times> 's" where
  "run_op S F (OpGet now k) cs = snd (LRUCache_Get S now k cs)"
| "run_op S F (OpSet k b m) cs = snd (LRUCache_Set S F k (bytes_reader b) m cs)"
| "run_op S F (OpDelete k) cs = snd (LRUCache_Delete S k cs)"
| "run_op S F (OpStat k) cs = cs"

fun last_set :: "(string \<rightharpoonup> bytes \<times> Meta) \<Rightarrow> cache_op list \<Rightarrow> (string \<rightharpoonup> bytes \<times> Meta)" where
  "last_set G [] = G"
| "last_set G (OpSet k b m # ops) = last_set (G(k \<mapsto> (b, m))) ops"
| "last_set G (OpDelete k # ops) = last_set (G(k := None)) ops"
| "last_set G (_ # ops) = last_set G ops"

fun op_key :: "cache_op \<Rightarrow> string" where
  "op_key (OpGet now k) = k"
| "op_key (OpSet k b m) = k"
| "op_key (OpDelete k) = k"
| "op_key (OpStat k) = k"

text \<open>The one obligation of a client of \<open>Set\<close>: the metadata names the key it is stored under.\<close>

fun op_ok :: "(Metadata \<Rightarrow> bool) \<Rightarrow> fmt \<Rightarrow> cache_op \<Rightarrow> bool" where
  "op_ok ok F (OpSet k b m) = (mKey m = k \<and> ok (metaToStorageMeta F m))"
| "op_ok ok F _ = True"

text \<open>The specification of a call: a list in recency order, whatever the storage does.\<close>

fun lru_spec_op :: "nat \<Rightarrow> cache_op \<Rightarrow> Meta list \<Rightarrow> Meta list" where
  "lru_spec_op cap (OpGet now k) ms =
     (case spec_lookup k ms of
        None \<Rightarrow> ms
      | Some m \<Rightarrow> if After now (ExpiresAt m) then spec_remove k ms else spec_touch k ms)"
| "lru_spec_op cap (OpSet k b m) ms = spec_put cap m ms"
| "lru_spec_op cap (OpDelete k) ms = spec_remove k ms"
| "lru_spec_op cap (OpStat k) ms = ms"

text \<open>Invariant and capacity along a history, reliable or not.\<close>

lemma Get_maxItems: "maxItems (fst (snd (LRUCache_Get S now k (c, st)))) = maxItems c"
  by (auto simp: LRUCache_Get_def Let_def split: option.split prod.split sum.split)

lemma Delete_maxItems: "maxItems (fst (snd (LRUCache_Delete S k (c, st)))) = maxItems c"
  by (auto simp: LRUCache_Delete_def Let_def split: option.split prod.split)

lemma run_op_inv:
  assumes "lru_inv (fst cs)" "\<And>k b m. x = OpSet k b m \<Longrightarrow> mKey m = k"
  shows "lru_inv (fst (run_op S F x cs)) \<and> maxItems (fst (run_op S F x cs)) = maxItems (fst cs)"
proof (cases cs)
  case (Pair c st)
  show ?thesis
  proof (cases x)
    case (OpGet now k)
    with Pair assms(1) Get_refines_spec [of c S now k st] Get_maxItems [of S now k c st] show ?thesis
      by (cases "LRUCache_Get S now k (c, st)") auto
  next
    case (OpSet k b m)
    with Pair assms Set_refines_spec [of c m k S F "bytes_reader b" st] show ?thesis
      by (cases "LRUCache_Set S F k (bytes_reader b) m (c, st)") auto
  next
    case (OpDelete k)
    with Pair assms(1) Delete_refines_spec [of c S k st] Delete_maxItems [of S k c st] show ?thesis
      by (cases "LRUCache_Delete S k (c, st)") auto
  qed (use Pair assms(1) in simp)
qed

lemma run_op_maxItems:
  "lru_inv (fst cs) \<Longrightarrow> op_ok ok F x \<Longrightarrow> maxItems (fst (run_op S F x cs)) = maxItems (fst cs)"
  using run_op_inv [of cs x S F] by (cases x) auto

lemma fold_run_op_inv:
  "lru_inv (fst cs) \<Longrightarrow> (\<And>k b m. OpSet k b m \<in> set ops \<Longrightarrow> mKey m = k) \<Longrightarrow>
   lru_inv (fst (fold (run_op S F) ops cs)) \<and>
   maxItems (fst (fold (run_op S F) ops cs)) = maxItems (fst cs)"
proof (induction ops arbitrary: cs)
  case (Cons x ops)
  have "lru_inv (fst (run_op S F x cs)) \<and> maxItems (fst (run_op S F x cs)) = maxItems (fst cs)"
    using Cons.prems by (intro run_op_inv) auto
  with Cons.IH [of "run_op S F x cs"] Cons.prems(2) show ?case by auto
qed simp

text \<open>Along a history no entry appears that was not set, reliable or not.\<close>

lemma set_spec_touch: "set (spec_touch k ms) \<subseteq> set ms"
  by (auto simp: spec_touch_def spec_lookup_def spec_remove_def find_Some_iff split: option.splits)

lemma set_spec_put: "set (spec_put cap m ms) \<subseteq> insert m (set ms)"
  by (auto simp: spec_put_def spec_remove_def dest: in_set_takeD)

lemma run_op_entries:
  assumes "lru_inv (fst cs)" "\<And>k b m. x = OpSet k b m \<Longrightarrow> mKey m = k"
  shows "set (cache_view (fst (run_op S F x cs))) \<subseteq> set (cache_view (fst cs)) \<union> {m. \<exists>k b. x = OpSet k b m}"
proof (cases cs)
  case (Pair c st)
  show ?thesis
  proof (cases x)
    case (OpGet now k)
    obtain r c' st' where g: "LRUCache_Get S now k (c, st) = (r, c', st')" by (cases "LRUCache_Get S now k (c, st)")
    have "cache_view c' = snd (spec_Get now k (fst (stRead S k st)) (cache_view c))"
      using Get_refines_spec [OF _ g] assms(1) Pair by (simp add: prod_eq_iff)
    moreover have "set (snd (spec_Get now k res ms)) \<subseteq> set ms" for res ms
      using set_spec_touch by (auto simp: spec_Get_def spec_remove_def split: option.splits sum.splits prod.splits)
    ultimately show ?thesis using OpGet Pair g by simp
  next
    case (OpSet k b m)
    with Pair assms Set_refines_spec [of c m k S F "bytes_reader b" st] set_spec_put show ?thesis
      by (cases "LRUCache_Set S F k (bytes_reader b) m (c, st)") (fastforce simp: spec_Set_def split: option.splits)
  next
    case (OpDelete k)
    with Pair assms(1) Delete_refines_spec [of c S k st] show ?thesis
      by (cases "LRUCache_Delete S k (c, st)") (auto simp: spec_remove_def)
  qed (use Pair in simp)
qed

lemma fold_run_op_entries:
  "lru_inv (fst cs) \<Longrightarrow> (\<And>k b m. OpSet k b m \<in> set ops \<Longrightarrow> mKey m = k) \<Longrightarrow>
   set (cache_view (fst (fold (run_op S F) ops cs))) \<subseteq>
     set (cache_view (fst cs)) \<union> {m. \<exists>k b. OpSet k b m \<in> set ops}"
proof (induction ops arbitrary: cs)
  case (Cons x ops)
  have key: "mKey m = k" if "x = OpSet k b m" for k b m
    using Cons.prems(2) [of k b m] that by simp
  have key': "mKey m = k" if "OpSet k b m \<in> set ops" for k b m
    using Cons.prems(2) [of k b m] that by simp
  have inv: "lru_inv (fst (run_op S F x cs))"
    using run_op_inv [of cs x S F] Cons.prems(1) key by blast
  have head: "set (cache_view (fst (run_op S F x cs))) \<subseteq> set (cache_view (fst cs)) \<union> {m. \<exists>k b. x = OpSet k b m}"
    by (rule run_op_entries) (use Cons.prems(1) key in blast)+
  have tail: "set (cache_view (fst (fold (run_op S F) ops (run_op S F x cs)))) \<subseteq>
      set (cache_view (fst (run_op S F x cs))) \<union> {m. \<exists>k b. OpSet k b m \<in> set ops}"
    by (rule Cons.IH) (use inv key' in blast)+
  show ?case
  proof
    fix m assume "m \<in> set (cache_view (fst (fold (run_op S F) (x # ops) cs)))"
    then have "m \<in> set (cache_view (fst (fold (run_op S F) ops (run_op S F x cs))))" by simp
    with head tail show "m \<in> set (cache_view (fst cs)) \<union> {m. \<exists>k b. OpSet k b m \<in> set (x # ops)}"
      by (simp only: list.set insert_iff) blast
  qed
qed simp

context storage_contract
begin

text \<open>
  The coherence invariant: every indexed key has its content in the storage, and both are those
  of the last \<open>Set\<close>. \<open>K\<close> is a set of keys no two of which share a slot of the backend.
\<close>

definition coherent :: "string set \<Rightarrow> (string \<rightharpoonup> bytes \<times> Meta) \<Rightarrow> LRUCache \<times> 's \<Rightarrow> bool" where
  "coherent K G cs \<longleftrightarrow> lru_inv (fst cs) \<and> inv (snd cs) \<and> reliable (snd cs) \<and>
     (\<forall>k e. items (fst cs) k = Some e \<longrightarrow> k \<in> K \<and>
        (\<exists>b. G k = Some (b, vals (fst cs) e) \<and> lookup (snd cs) k = Some b))"

definition separate :: "string set \<Rightarrow> bool" where
  "separate K \<longleftrightarrow> (\<forall>k \<in> K. \<forall>k' \<in> K. same k k' \<longrightarrow> k = k')"

lemma coherent_new: "0 \<le> n \<Longrightarrow> inv st \<Longrightarrow> reliable st \<Longrightarrow> coherent K G (NewLRUCache n, st)"
  by (simp add: coherent_def lru_inv_new) (simp add: NewLRUCache_def)

lemma coherent_hit:
  assumes "coherent K G (c, st)" "items c k = Some e" "\<not> After now (ExpiresAt (vals c e))"
  shows "\<exists>b. G k = Some (b, vals c e) \<and>
    LRUCache_Get S now k (c, st) =
      (Inr (bytes_reader b, vals c e), c\<lparr>lru := MoveToFront e (lru c)\<rparr>, snd (stRead S k st))"
proof -
  from assms(1,2) obtain b where b: "G k = Some (b, vals c e)" "lookup st k = Some b"
    by (auto simp: coherent_def)
  moreover obtain mo where "fst (stRead S k st) = Inr (bytes_reader b, mo)"
    using read_complete [OF _ _ b(2)] assms(1) by (auto simp: coherent_def)
  ultimately show ?thesis using assms(2,3)
    by (cases "stRead S k st") (simp add: LRUCache_Get_def Let_def)
qed

lemma coherent_Get:
  assumes coh: "coherent K G (c, st)"
  shows "coherent K G (snd (LRUCache_Get S now k (c, st)))"
proof -
  have inv: "lru_inv (fst (snd (LRUCache_Get S now k (c, st))))"
    using Get_refines_spec [of c S now k st] coh
    by (cases "LRUCache_Get S now k (c, st)") (auto simp: coherent_def)
  show ?thesis
  proof (cases "items c k")
    case None
    with coh show ?thesis by (simp add: LRUCache_Get_def)
  next
    case (Some e)
    show ?thesis
    proof (cases "After now (ExpiresAt (vals c e))")
      case True
      with Some coh inv show ?thesis
        by (auto simp: LRUCache_Get_def Let_def coherent_def split: if_splits)
    next
      case False
      obtain b where "LRUCache_Get S now k (c, st) =
          (Inr (bytes_reader b, vals c e), c\<lparr>lru := MoveToFront e (lru c)\<rparr>, snd (stRead S k st))"
        using coherent_hit [OF coh Some False] by blast
      with inv coh show ?thesis
        by (auto simp: coherent_def read_view read_inv read_reliable)
    qed
  qed
qed

lemma coherent_Delete:
  assumes coh: "coherent K G (c, st)" and sep: "separate (insert k K)"
  shows "coherent K (G(k := None)) (snd (LRUCache_Delete S k (c, st)))"
proof -
  obtain e c' st' where r: "LRUCache_Delete S k (c, st) = (e, c', st')"
    by (cases "LRUCache_Delete S k (c, st)")
  have st': "st' = snd (stDelete S k st)" and inv: "lru_inv c'"
    using Delete_refines_spec [OF _ r] coh by (auto simp: coherent_def prod_eq_iff)
  have wf: "lru_wf c" using coh by (simp add: coherent_def lru_inv_def)
  have c': "items c' = (items c)(k := None) \<and> vals c' = vals c"
  proof (cases "items c k")
    case None
    then have "items c = (items c)(k := None)" by auto
    with None r show ?thesis by (auto simp: LRUCache_Delete_def Let_def split_beta)
  next
    case (Some e)
    then have "mKey (vals c e) = k" using lru_wf_items [OF wf] by blast
    with Some r show ?thesis by (auto simp: LRUCache_Delete_def Let_def split_beta)
  qed
  have "lookup st' k' = lookup st k'" if "k' \<in> K" "k' \<noteq> k" for k'
    unfolding st' using coh sep that
    by (intro delete_frame) (auto simp: coherent_def separate_def)
  with coh inv show ?thesis
    by (auto simp: r c' coherent_def st' delete_inv delete_reliable)
qed

text \<open>The write of \<open>Set\<close> on an indexed key, and the eviction after one on a new key.\<close>

lemma coherent_write:
  fixes b :: bytes
  assumes "coherent K G (c, st)" "separate (insert k K)" "ok_meta m"
  defines "st1 \<equiv> snd (stWrite S k (bytes_reader b) (Some m) st)"
  shows "fst (stWrite S k (bytes_reader b) (Some m) st) = None" "inv st1" "reliable st1"
    "lookup st1 k = Some b" "k' \<in> K \<Longrightarrow> k' \<noteq> k \<Longrightarrow> lookup st1 k' = lookup st k'"
proof -
  have i: "inv st" "reliable st" using assms(1) by (simp_all add: coherent_def)
  show ok: "fst (stWrite S k (bytes_reader b) (Some m) st) = None"
    by (rule write_complete [OF i assms(3)]) simp
  show "inv st1" "reliable st1" unfolding st1_def by (simp_all add: write_inv write_reliable i)
  show "lookup st1 k = Some b"
    unfolding st1_def using write_view [OF i(1) assms(3) ok] by (simp add: same_refl)
  assume k': "k' \<in> K" "k' \<noteq> k"
  then have "\<not> same k k'" using assms(2) by (auto simp: separate_def)
  then show "lookup st1 k' = lookup st k'"
    unfolding st1_def by (rule write_frame [OF i(1)])
qed

text \<open>The part of the invariant that speaks of the indexed keys.\<close>

definition indexed :: "string set \<Rightarrow> (string \<rightharpoonup> bytes \<times> Meta) \<Rightarrow> LRUCache \<Rightarrow> 's \<Rightarrow> bool" where
  "indexed K G c st \<longleftrightarrow> (\<forall>k e. items c k = Some e \<longrightarrow> k \<in> K \<and>
     (\<exists>b. G k = Some (b, vals c e) \<and> lookup st k = Some b))"

lemma coherent_indexed:
  "coherent K G (c, st) \<longleftrightarrow> lru_inv c \<and> inv st \<and> reliable st \<and> indexed K G c st"
  by (simp add: coherent_def indexed_def)

lemma indexed_overwrite:
  assumes "indexed K G c st" "lru_wf c" "items c k = Some el" "lookup st1 k = Some b"
    and "\<And>k'. k' \<in> K \<Longrightarrow> k' \<noteq> k \<Longrightarrow> lookup st1 k' = lookup st k'"
  shows "indexed (insert k K) (G(k \<mapsto> (b, m))) (c\<lparr>vals := (vals c)(el := m), lru := l\<rparr>) st1"
  unfolding indexed_def
proof (intro allI impI)
  fix k' e assume "items (c\<lparr>vals := (vals c)(el := m), lru := l\<rparr>) k' = Some e"
  then have e: "items c k' = Some e" by simp
  have "e = el \<longleftrightarrow> k' = k" using e assms(3) lru_wf_key_inj [OF assms(2)] by (auto simp: lru_wf_items [OF assms(2)])
  with e assms(1,4,5) show "k' \<in> insert k K \<and> (\<exists>b'. (G(k \<mapsto> (b, m))) k' =
      Some (b', vals (c\<lparr>vals := (vals c)(el := m), lru := l\<rparr>) e) \<and> lookup st1 k' = Some b')"
    by (cases "k' = k") (auto simp: indexed_def)
qed

lemma indexed_insert:
  assumes "indexed K G c st" "lru_wf c" "lookup st1 k = Some b"
    and "\<And>k'. k' \<in> K \<Longrightarrow> k' \<noteq> k \<Longrightarrow> lookup st1 k' = lookup st k'"
  shows "indexed (insert k K) (G(k \<mapsto> (b, m))) (inserted k m c) st1"
  unfolding indexed_def
proof (intro allI impI)
  fix k' e assume e: "items (inserted k m c) k' = Some e"
  show "k' \<in> insert k K \<and> (\<exists>b'. (G(k \<mapsto> (b, m))) k' = Some (b', vals (inserted k m c) e) \<and> lookup st1 k' = Some b')"
  proof (cases "k' = k")
    case True
    with e assms(3) show ?thesis by simp
  next
    case False
    with e have e': "items c k' = Some e" by simp
    then have "e < nextel c" using assms(2) lru_wf_items [OF assms(2)] unfolding lru_wf_def by blast
    moreover obtain b' where "k' \<in> K" "G k' = Some (b', vals c e)" "lookup st k' = Some b'"
      using assms(1) e' unfolding indexed_def by auto
    ultimately show ?thesis using False assms(4) by simp
  qed
qed

lemma indexed_evict:
  assumes "indexed K G c st" "lru_wf c" "separate K" "inv st" "l \<in> set (lru c)"
  shows "indexed K G (removeLocked l c) (snd (stDelete S (mKey (vals c l)) st))"
proof -
  let ?t = "mKey (vals c l)"
  have "items c ?t = Some l" using assms(5) by (simp add: lru_wf_items [OF assms(2)])
  then have tK: "?t \<in> K" using assms(1) unfolding indexed_def by blast
  have keep: "lookup (snd (stDelete S ?t st)) k' = lookup st k'" if "k' \<in> K" "k' \<noteq> ?t" for k'
    using assms(3) [unfolded separate_def, rule_format, OF tK that(1)] that(2)
    by (intro delete_frame [OF assms(4)]) metis
  have "k' \<noteq> ?t \<and> items c k' = Some e" if "items (removeLocked l c) k' = Some e" for k' e
    using that unfolding removeLocked_sel fun_upd_apply
    by (cases "k' = ?t") (simp_all only: if_True if_False option.distinct simp_thms)
  then show ?thesis
    using assms(1) keep unfolding indexed_def removeLocked_sel(1) by metis
qed

lemma coherent_Set:
  assumes coh: "coherent K G (c, st)" and sep: "separate (insert k K)"
    and key: "mKey m = k" and ok: "ok_meta (metaToStorageMeta F m)"
  shows "coherent (insert k K) (G(k \<mapsto> (b, m))) (snd (LRUCache_Set S F k (bytes_reader b) m (c, st)))"
proof -
  let ?st1 = "snd (stWrite S k (bytes_reader b) (Some (metaToStorageMeta F m)) st)"
  let ?res = "LRUCache_Set S F k (bytes_reader b) m (c, st)"
  note w = coherent_write [OF coh sep ok, where b = b]
  have wf: "lru_wf c" and len: "int (length (lru c)) \<le> maxItems c" and ix: "indexed K G c st"
    using coh by (simp_all add: coherent_indexed lru_inv_def)
  have inv': "lru_inv (fst (snd ?res))"
    using Set_refines_spec [of c m k S F "bytes_reader b" st] coh key
    by (cases ?res) (auto simp: coherent_def)
  show ?thesis
  proof (cases "items c k")
    case (Some el)
    with inv' w(2,3) indexed_overwrite [OF ix wf Some w(4,5)] show ?thesis
      by (simp add: coherent_indexed Set_old [OF w(1) Some])
  next
    case None
    let ?c1 = "inserted k m c" let ?l = "last (lru ?c1)"
    have wf1: "lru_wf ?c1" using inserted_wf [OF wf, of m] None key by simp
    have c1: "indexed (insert k K) (G(k \<mapsto> (b, m))) ?c1 ?st1" by (rule indexed_insert [OF ix wf w(4,5)])
    show ?thesis
    proof (cases "int (length (lru ?c1)) \<le> maxItems c")
      case True
      then have eq: "snd ?res = (?c1, ?st1)" by (simp add: Set_new [OF w(1) None] evictLocked_noop)
      show ?thesis using inv' c1 w(2,3) unfolding eq coherent_indexed by simp
    next
      case False
      have "evictLocked S (?c1, ?st1) = (removeLocked ?l ?c1, snd (stDelete S (mKey (vals ?c1 ?l)) ?st1))"
        by (rule evictLocked_one [OF wf1]) (use False len in auto)
      then have eq: "snd ?res = (removeLocked ?l ?c1, snd (stDelete S (mKey (vals ?c1 ?l)) ?st1))"
        by (simp only: Set_new [OF w(1) None] snd_conv)
      have "?l \<in> set (lru ?c1)" by (rule last_in_set) simp
      from indexed_evict [OF c1 wf1 sep w(2) this] inv' show ?thesis
        unfolding eq coherent_indexed fst_conv by (simp only: delete_inv w(2) delete_reliable [OF w(2,3)] simp_thms)
    qed
  qed
qed

text \<open>Every history keeps the invariant, so a hit returns what the last \<open>Set\<close> stored.\<close>

lemma coherent_run:
  assumes "coherent K G cs" "separate (K \<union> op_key ` set ops)" "list_all (op_ok ok_meta F) ops"
  shows "coherent (K \<union> op_key ` set ops) (last_set G ops) (fold (run_op S F) ops cs)"
  using assms
proof (induction ops arbitrary: K G cs)
  case (Cons x ops)
  obtain c st where cs: "cs = (c, st)" by (cases cs)
  let ?K = "insert (op_key x) K"
  have sep: "separate (insert (op_key x) K)" and sep': "separate (?K \<union> op_key ` set ops)"
    using Cons.prems(2) by (auto simp: separate_def)
  have mono: "coherent K G' cs' \<Longrightarrow> coherent ?K G' cs'" for G' cs' by (auto simp: coherent_def)
  have step: "\<exists>G'. last_set G (x # ops) = last_set G' ops \<and> coherent ?K G' (run_op S F x cs)"
  proof (cases x)
    case (OpGet now k)
    then show ?thesis using mono [OF coherent_Get] Cons.prems(1) by (auto simp: cs)
  next
    case (OpSet k b m)
    then show ?thesis using coherent_Set [of K G c st k m F b] Cons.prems sep by (auto simp: cs)
  next
    case (OpDelete k)
    then show ?thesis using mono [OF coherent_Delete] Cons.prems(1) sep by (auto simp: cs)
  next
    case (OpStat k)
    then show ?thesis using mono Cons.prems(1) by (auto simp: cs)
  qed
  then obtain G' where "last_set G (x # ops) = last_set G' ops" "coherent ?K G' (run_op S F x cs)"
    by blast
  with Cons.IH [OF this(2) sep'] Cons.prems(3) show ?case by simp
qed simp

lemma hit_returns_last_set:
  assumes "0 \<le> n" "inv st" "reliable st" "separate (op_key ` set ops)"
    "list_all (op_ok ok_meta F) ops"
    "fst (LRUCache_Get S now k (fold (run_op S F) ops (NewLRUCache n, st))) = Inr (rc, m)"
  shows "\<exists>b. last_set Map.empty ops k = Some (b, m) \<and> rc = bytes_reader b"
proof -
  obtain c st' where f: "fold (run_op S F) ops (NewLRUCache n, st) = (c, st')"
    by (cases "fold (run_op S F) ops (NewLRUCache n, st)")
  have coh: "coherent (op_key ` set ops) (last_set Map.empty ops) (c, st')"
    using coherent_run [OF coherent_new [OF assms(1-3)], of "{}" ops F Map.empty] assms(4,5) f
    by simp
  from assms(6) f obtain e where e: "items c k = Some e" "\<not> After now (ExpiresAt (vals c e))"
    by (auto simp: LRUCache_Get_def Let_def split: option.splits if_splits)
  show ?thesis using coherent_hit [OF coh e] assms(6) f by auto
qed

text \<open>On a reliable backend the recency list evolves as a pure list does.\<close>

lemma coherent_run_op:
  assumes coh: "coherent K G cs" and sep: "separate (insert (op_key x) K)" and ok: "op_ok ok_meta F x"
  shows "\<exists>G'. coherent (insert (op_key x) K) G' (run_op S F x cs)"
proof -
  have "separate (K \<union> op_key ` set [x])" using sep by simp
  from coherent_run [OF coh this, of F] ok show ?thesis by auto
qed

lemma run_op_refines:
  assumes coh: "coherent K G cs" and sep: "separate (insert (op_key x) K)" and ok: "op_ok ok_meta F x"
  shows "cache_view (fst (run_op S F x cs)) =
    lru_spec_op (nat (maxItems (fst cs))) x (cache_view (fst cs))"
proof -
  obtain c st where cs: "cs = (c, st)" by (cases cs)
  have inv: "lru_inv c" and wf: "lru_wf c" using coh by (simp_all add: cs coherent_def lru_inv_def)
  show ?thesis
  proof (cases x)
    case (OpGet now k)
    obtain r c' st' where g: "LRUCache_Get S now k (c, st) = (r, c', st')"
      by (cases "LRUCache_Get S now k (c, st)")
    show ?thesis
    proof (cases "items c k")
      case None
      with spec_lookup_view [OF wf, of k] OpGet cs show ?thesis
        by (simp add: LRUCache_Get_def)
    next
      case (Some e)
      show ?thesis
      proof (cases "After now (ExpiresAt (vals c e))")
        case True
        with Get_refines_spec [OF inv g] Some OpGet cs g show ?thesis
          by (simp add: spec_Get_def spec_lookup_view [OF wf])
      next
        case False
        from coherent_hit [OF coh [unfolded cs] Some False]
        have "c' = c\<lparr>lru := MoveToFront e (lru c)\<rparr>" using g by auto
        with False Some OpGet cs g MoveToFront_view(1) [OF wf Some] show ?thesis
          by (simp add: spec_lookup_view [OF wf])
      qed
    qed
  next
    case (OpSet k b m)
    obtain e c' st' where r: "LRUCache_Set S F k (bytes_reader b) m (c, st) = (e, c', st')"
      by (cases "LRUCache_Set S F k (bytes_reader b) m (c, st)")
    have "fst (stWrite S k (bytes_reader b) (Some (metaToStorageMeta F m)) st) = None"
      using coh ok OpSet by (intro write_complete) (auto simp: coherent_def cs)
    with Set_refines_spec [OF inv _ r] ok OpSet cs r show ?thesis by (simp add: spec_Set_def)
  next
    case (OpDelete k)
    obtain e c' st' where r: "LRUCache_Delete S k (c, st) = (e, c', st')"
      by (cases "LRUCache_Delete S k (c, st)")
    with Delete_refines_spec [OF inv r] OpDelete cs show ?thesis by simp
  qed simp
qed

lemma run_refines:
  assumes "coherent K G cs" "separate (K \<union> op_key ` set ops)" "list_all (op_ok ok_meta F) ops"
  shows "cache_view (fst (fold (run_op S F) ops cs)) =
    fold (lru_spec_op (nat (maxItems (fst cs)))) ops (cache_view (fst cs))"
  using assms
proof (induction ops arbitrary: K G cs)
  case (Cons x ops)
  have sep: "separate (insert (op_key x) K)" and sep': "separate (insert (op_key x) K \<union> op_key ` set ops)"
    using Cons.prems(2) by (auto simp: separate_def)
  have ok: "op_ok ok_meta F x" and oks: "list_all (op_ok ok_meta F) ops" using Cons.prems(3) by simp_all
  obtain G' where "coherent (insert (op_key x) K) G' (run_op S F x cs)"
    using coherent_run_op [OF Cons.prems(1) sep ok] by blast
  from Cons.IH [OF this sep' oks] have
    "cache_view (fst (fold (run_op S F) (x # ops) cs)) =
      fold (lru_spec_op (nat (maxItems (fst (run_op S F x cs))))) ops (cache_view (fst (run_op S F x cs)))"
    by simp
  moreover have "maxItems (fst (run_op S F x cs)) = maxItems (fst cs)"
    using Cons.prems(1) ok by (intro run_op_maxItems [where ok = ok_meta]) (simp_all add: coherent_def)
  ultimately show ?case using run_op_refines [OF Cons.prems(1) sep ok] by simp
qed simp

end

context total_storage
begin

text \<open>Over such a backend every history, from any state, is one in which a hit returns the last \<open>Set\<close>.\<close>

lemma total_hit_returns_last_set:
  assumes "0 \<le> n" "inv st" "separate (op_key ` set ops)"
    "\<And>k b m. OpSet k b m \<in> set ops \<Longrightarrow> mKey m = k"
    "fst (LRUCache_Get S now k (fold (run_op S F) ops (NewLRUCache n, st))) = Inr (rc, m)"
  shows "\<exists>b. last_set Map.empty ops k = Some (b, m) \<and> rc = bytes_reader b"
proof (rule hit_returns_last_set [OF assms(1,2) all_reliable assms(3) _ assms(5)])
  have "op_ok ok_meta F x" if "x \<in> set ops" for x
    using that assms(4) all_meta by (cases x rule: cache_op.exhaust) auto
  then show "list_all (op_ok ok_meta F) ops" by (simp add: list_all_iff)
qed

end

text \<open>The cache of the integration tests.\<close>

lemma mem_hit_returns_last_set:
  assumes "0 \<le> n" "\<And>k b m. OpSet k b m \<in> set ops \<Longrightarrow> mKey m = k"
    "fst (LRUCache_Get (MemStorage_ops now0) now k
       (fold (run_op (MemStorage_ops now0) F) ops (NewLRUCache n, NewMemStorage))) = Inr (rc, m)"
  shows "\<exists>b. last_set Map.empty ops k = Some (b, m) \<and> rc = bytes_reader b"
  by (rule mem.total_hit_returns_last_set [OF assms(1) mem_inv_new _ assms(2,3)])
     (simp_all add: mem.separate_def)

end
