(* ===== verification/CacheInterface.thy ===== *)
theory CacheInterface
  imports LRU
begin

text \<open>
  The interface \<open>Cache\<close> of \<open>cache/cache.go\<close>, over which \<open>cache/singleflight.go\<close> is written: the four
  methods as a record over the state \<open>'c\<close> of an implementation, its contract as a locale, and the
  interpretation by \<open>LRUCache\<close> over any storage, reliable or not.

  The contract speaks of the index: \<open>entry c k\<close> is the metadata the cache has for \<open>k\<close>. A cache may
  drop other entries at any time (eviction), but it never invents one.
\<close>

record 'c Cache =
  cGet :: "time \<Rightarrow> string \<Rightarrow> 'c \<Rightarrow> (cache_err + reader \<times> Meta) \<times> 'c"
  cSet :: "string \<Rightarrow> reader \<Rightarrow> Meta \<Rightarrow> 'c \<Rightarrow> cache_err option \<times> 'c"
  cDelete :: "string \<Rightarrow> 'c \<Rightarrow> storage_err option \<times> 'c"
  cStat :: "string \<Rightarrow> 'c \<Rightarrow> cache_err + Meta"

definition LRUCache_ops :: "'s storage_ops \<Rightarrow> fmt \<Rightarrow> (LRUCache \<times> 's) Cache" where
  "LRUCache_ops S F = \<lparr>cGet = LRUCache_Get S, cSet = LRUCache_Set S F, cDelete = LRUCache_Delete S,
     cStat = (\<lambda>key cs. LRUCache_Stat key (fst cs))\<rparr>"

lemma LRUCache_ops_sel [simp]:
  "cGet (LRUCache_ops S F) = LRUCache_Get S"
  "cSet (LRUCache_ops S F) = LRUCache_Set S F"
  "cDelete (LRUCache_ops S F) = LRUCache_Delete S"
  "cStat (LRUCache_ops S F) key cs = LRUCache_Stat key (fst cs)"
  by (simp_all add: LRUCache_ops_def)


section \<open>The contract\<close>

text \<open>Nothing but the entry of \<open>k\<close> may differ, except that entries may be gone.\<close>

definition only_key :: "string \<Rightarrow> (string \<rightharpoonup> Meta) \<Rightarrow> (string \<rightharpoonup> Meta) \<Rightarrow> bool" where
  "only_key k f g \<longleftrightarrow> (\<forall>k'. k' \<noteq> k \<longrightarrow> g k' = f k' \<or> g k' = None)"

lemma only_key_refl [simp, intro]: "only_key k f f"
  by (simp add: only_key_def)

lemma only_key_trans: "only_key k f g \<Longrightarrow> only_key k g h \<Longrightarrow> only_key k f h"
  unfolding only_key_def by metis

locale cache_contract =
  fixes H :: "'c Cache"
    and cinv :: "'c \<Rightarrow> bool"
    and room :: "'c \<Rightarrow> bool"
    and entry :: "'c \<Rightarrow> string \<Rightarrow> Meta option"
  assumes get_ok: "cinv c \<Longrightarrow> cGet H now k c = (r, c') \<Longrightarrow>
      cinv c' \<and> room c' = room c \<and> only_key k (entry c) (entry c')"
    and get_hit: "cinv c \<Longrightarrow> cGet H now k c = (Inr (rc, m), c') \<Longrightarrow>
      entry c k = Some m \<and> entry c' k = Some m \<and> mKey m = k \<and> now \<le> ExpiresAt m"
    and get_failed: "cinv c \<Longrightarrow> cGet H now k c = (Inl e, c') \<Longrightarrow> entry c' k = None"
    and get_absent: "cinv c \<Longrightarrow> entry c k = None \<Longrightarrow> cGet H now k c = (Inl (CacheMiss k), c)"
    and set_ok: "cinv c \<Longrightarrow> mKey m = k \<Longrightarrow> cSet H k rd m c = (eo, c') \<Longrightarrow>
      cinv c' \<and> room c' = room c \<and> only_key k (entry c) (entry c')"
    and set_stored: "cinv c \<Longrightarrow> mKey m = k \<Longrightarrow> cSet H k rd m c = (None, c') \<Longrightarrow>
      entry c' k = (if room c then Some m else None)"
    and set_failed: "cSet H k rd m c = (Some e, c') \<Longrightarrow> entry c' = entry c"
    and delete_ok: "cinv c \<Longrightarrow> cDelete H k c = (err, c') \<Longrightarrow>
      cinv c' \<and> room c' = room c \<and> entry c' = (entry c)(k := None)"
    and stat: "cinv c \<Longrightarrow> cStat H k c = (case entry c k of None \<Rightarrow> Inl (CacheNotFound k) | Some m \<Rightarrow> Inr m)"


section \<open>The LRU cache meets it\<close>

definition lru_entry :: "LRUCache \<times> 's \<Rightarrow> string \<Rightarrow> Meta option" where
  "lru_entry cs k = spec_lookup k (cache_view (fst cs))"

lemma spec_lookup_key: "spec_lookup k ms = Some m \<Longrightarrow> mKey m = k"
  by (auto simp: spec_lookup_def find_Some_iff)

lemma spec_lookup_remove [simp]:
  "spec_lookup k' (spec_remove k ms) = (if k' = k then None else spec_lookup k' ms)"
  by (induction ms) (auto simp: spec_lookup_def spec_remove_def)

lemma spec_lookup_Cons [simp]:
  "spec_lookup k (m # ms) = (if mKey m = k then Some m else spec_lookup k ms)"
  by (simp add: spec_lookup_def)

lemma spec_lookup_touch [simp]: "spec_lookup k' (spec_touch k ms) = spec_lookup k' ms"
  by (auto simp: spec_touch_def dest: spec_lookup_key split: option.split)

lemma spec_lookup_take: "spec_lookup k (take n ms) = spec_lookup k ms \<or> spec_lookup k (take n ms) = None"
  by (induction ms arbitrary: n) (auto simp: take_Cons' spec_lookup_def)

lemma spec_lookup_put:
  "k' \<noteq> mKey m \<Longrightarrow> spec_lookup k' (spec_put n m ms) = spec_lookup k' ms \<or> spec_lookup k' (spec_put n m ms) = None"
  using spec_lookup_take [of k' n "m # spec_remove (mKey m) ms"] by (simp add: spec_put_def)

lemma spec_lookup_put_same: "spec_lookup (mKey m) (spec_put n m ms) = (if 0 < n then Some m else None)"
  by (simp add: spec_put_def take_Cons') (simp add: spec_lookup_def)

lemma lru_get_spec:
  assumes "lru_inv (fst cs)" "LRUCache_Get S now k cs = (r, cs')"
  shows "lru_inv (fst cs') \<and> maxItems (fst cs') = maxItems (fst cs) \<and>
    (r, cache_view (fst cs')) = spec_Get now k (fst (stRead S k (snd cs))) (cache_view (fst cs))"
  using assms Get_refines_spec [of "fst cs" S now k "snd cs"] Get_maxItems [of S now k "fst cs" "snd cs"]
  by (cases cs'; cases cs) simp

interpretation lru: cache_contract "LRUCache_ops S F" "\<lambda>cs. lru_inv (fst cs)" "\<lambda>cs. 0 < maxItems (fst cs)" lru_entry
  for S :: "'s storage_ops" and F
proof
  fix cs cs' :: "LRUCache \<times> 's" and now k r rc m e rd
  show "lru_inv (fst cs') \<and> (0 < maxItems (fst cs')) = (0 < maxItems (fst cs)) \<and> only_key k (lru_entry cs) (lru_entry cs')"
    if "lru_inv (fst cs)" "cGet (LRUCache_ops S F) now k cs = (r, cs')"
    using lru_get_spec [OF that(1), of S now k r cs'] that(2)
    by (auto simp: only_key_def lru_entry_def spec_Get_def split: option.splits if_splits sum.splits)
  show "lru_entry cs k = Some m \<and> lru_entry cs' k = Some m \<and> mKey m = k \<and> now \<le> ExpiresAt m"
    if "lru_inv (fst cs)" "cGet (LRUCache_ops S F) now k cs = (Inr (rc, m), cs')"
    using lru_get_spec [OF that(1), of S now k "Inr (rc, m)" cs'] that(2)
    by (auto simp: lru_entry_def spec_Get_def After_def dest: spec_lookup_key split: option.splits if_splits sum.splits)
  show "lru_entry cs' k = None"
    if "lru_inv (fst cs)" "cGet (LRUCache_ops S F) now k cs = (Inl e, cs')"
    using lru_get_spec [OF that(1), of S now k "Inl e" cs'] that(2)
    by (auto simp: lru_entry_def spec_Get_def split: option.splits if_splits sum.splits)
  show "cGet (LRUCache_ops S F) now k cs = (Inl (CacheMiss k), cs)"
    if "lru_inv (fst cs)" "lru_entry cs k = None"
    using that by (cases cs) (simp add: lru_entry_def spec_lookup_view lru_inv_def LRUCache_Get_def)
  fix e'
  show "lru_inv (fst cs') \<and> (0 < maxItems (fst cs')) = (0 < maxItems (fst cs)) \<and> only_key k (lru_entry cs) (lru_entry cs')"
    if "lru_inv (fst cs)" "mKey m = k" "cSet (LRUCache_ops S F) k rd m cs = (e', cs')"
    using Set_refines_spec [OF that(1,2), of S F rd "snd cs" e' "fst cs'" "snd cs'"] that(2,3) spec_lookup_put [of _ m]
    by (auto simp: only_key_def lru_entry_def spec_Set_def split: option.splits)
  show "lru_entry cs' k = (if 0 < maxItems (fst cs) then Some m else None)"
    if "lru_inv (fst cs)" "mKey m = k" "cSet (LRUCache_ops S F) k rd m cs = (None, cs')"
    using Set_refines_spec [OF that(1,2), of S F rd "snd cs" None "fst cs'" "snd cs'"] that(2,3)
      spec_lookup_put_same [of m "nat (maxItems (fst cs))"]
    by (auto simp: lru_entry_def spec_Set_def split: option.splits)
  fix er
  show "lru_entry cs' = lru_entry cs" if "cSet (LRUCache_ops S F) k rd m cs = (Some er, cs')"
    using that by (cases cs) (auto simp: lru_entry_def LRUCache_Set_def split: prod.splits option.splits)
  fix err
  show "lru_inv (fst cs') \<and> (0 < maxItems (fst cs')) = (0 < maxItems (fst cs)) \<and> lru_entry cs' = (lru_entry cs)(k := None)"
    if "lru_inv (fst cs)" "cDelete (LRUCache_ops S F) k cs = (err, cs')"
    using Delete_refines_spec [OF that(1), of S k "snd cs" err "fst cs'" "snd cs'"] that(2)
      Delete_maxItems [of S k "fst cs" "snd cs"]
    by (auto simp: lru_entry_def)
  show "cStat (LRUCache_ops S F) k cs = (case lru_entry cs k of None \<Rightarrow> Inl (CacheNotFound k) | Some m \<Rightarrow> Inr m)"
    if "lru_inv (fst cs)"
    using that by (simp add: lru_entry_def spec_lookup_view lru_inv_def LRUCache_Stat_def split: option.split)
qed

text \<open>The same on the map of the structure.\<close>

lemma Get_absent: "items c key = None \<Longrightarrow> LRUCache_Get S now key (c, st) = (Inl (CacheMiss key), c, st)"
  by (simp add: LRUCache_Get_def)

lemma Get_failed_gone:
  assumes "lru_inv c" "LRUCache_Get S now key (c, st) = (Inl e, c', st')"
  shows "items c' key = None"
proof -
  have "lru_entry (c', st') key = None" "lru_inv c'"
    using lru.get_failed [of "(c, st)"] lru.get_ok [of "(c, st)"] assms by auto
  then show ?thesis by (simp add: lru_entry_def spec_lookup_view lru_inv_def)
qed

end
