(* ===== verification/Singleflight.thy ===== *)
theory Singleflight
  imports CacheInterface
begin

text \<open>
  The cache with stampede protection (\<open>cache/singleflight.go\<close>), written over the interface \<open>Cache\<close>.
  \<open>group.Do\<close> of \<open>golang.org/x/sync/singleflight\<close> is the parameter \<open>Do\<close>: it receives the key, the
  closure and the state the closure works on. \<open>runs_once\<close> is its documented behaviour for a caller
  that finds no call for its key in flight: it runs the closure once and returns its result.
  Callers that overlap are the subject of theory Stampede.

  The state is that of the cache \<open>H\<close>, and the state \<open>'w\<close> of whatever \<open>fetch\<close> uses. \<open>now1\<close> and \<open>now2\<close>
  are the clock readings of the two lookups. What a call does is proved from the contract of the
  interface; the last section adds what holds of it over the LRU cache.
\<close>

datatype 'e sf_err = SFRead string | SFFetch 'e

type_synonym ('c, 'w) sf_state = "'c \<times> 'w"
type_synonym ('e, 'w) fetch = "'w \<Rightarrow> ('e + reader \<times> Meta) \<times> 'w"
type_synonym ('e, 'c, 'w) group_do =
  "string \<Rightarrow> (('c, 'w) sf_state \<Rightarrow> ('e sf_err + bytes \<times> Meta) \<times> ('c, 'w) sf_state) \<Rightarrow>
   ('c, 'w) sf_state \<Rightarrow> ('e sf_err + bytes \<times> Meta) \<times> ('c, 'w) sf_state"

definition runs_once :: "('e, 'c, 'w) group_do \<Rightarrow> bool" where
  "runs_once Do \<longleftrightarrow> (\<forall>key f x. Do key f x = f x)"

lemma runs_onceD: "runs_once Do \<Longrightarrow> Do key f x = f x"
  unfolding runs_once_def by blast

text \<open>The closure passed to \<open>Do\<close>: look again, else fetch, buffer and store.\<close>

definition fetch_closure ::
  "'c Cache \<Rightarrow> time \<Rightarrow> string \<Rightarrow> ('e, 'w) fetch \<Rightarrow>
   ('c, 'w) sf_state \<Rightarrow> ('e sf_err + bytes \<times> Meta) \<times> ('c, 'w) sf_state" where
  "fetch_closure H now2 key fetch = (\<lambda>(cs, w).
     case cGet H now2 key cs of
       (Inr (rc, meta), cs1) \<Rightarrow>
         (case ReadAll rc of
            Inl e \<Rightarrow> (Inl (SFRead e), cs1, w)
          | Inr body \<Rightarrow> (Inr (body, meta), cs1, w))
     | (Inl _, cs1) \<Rightarrow>
         (case fetch w of
            (Inl e, w1) \<Rightarrow> (Inl (SFFetch e), cs1, w1)
          | (Inr (r, meta), w1) \<Rightarrow>
              (case ReadAll r of
                 Inl e \<Rightarrow> (Inl (SFRead e), cs1, w1)
               | Inr body \<Rightarrow>
                   (let (err, cs2) = cSet H key (bytes_reader body) meta cs1
                    in (Inr (body, meta), cs2, w1)))))"

definition GetOrFetch ::
  "'c Cache \<Rightarrow> ('e, 'c, 'w) group_do \<Rightarrow> time \<Rightarrow> time \<Rightarrow> string \<Rightarrow> ('e, 'w) fetch \<Rightarrow>
   ('c, 'w) sf_state \<Rightarrow> ('e sf_err + reader \<times> Meta) \<times> ('c, 'w) sf_state" where
  "GetOrFetch H Do now1 now2 key fetch = (\<lambda>(cs, w).
     case cGet H now1 key cs of
       (Inr (rc, meta), cs1) \<Rightarrow> (Inr (rc, meta), cs1, w)
     | (Inl _, cs1) \<Rightarrow>
         (case Do key (fetch_closure H now2 key fetch) (cs1, w) of
            (Inl err, x) \<Rightarrow> (Inl err, x)
          | (Inr (body, meta), x) \<Rightarrow> (Inr (bytes_reader body, meta), x)))"

definition SingleflightCache_Delete :: "'c Cache \<Rightarrow> string \<Rightarrow> 'c \<Rightarrow> storage_err option \<times> 'c" where
  "SingleflightCache_Delete H key cs = cDelete H key cs"

definition SingleflightCache_Stat :: "'c Cache \<Rightarrow> string \<Rightarrow> 'c \<Rightarrow> cache_err + Meta" where
  "SingleflightCache_Stat H key cs = cStat H key cs"

text \<open>What a fetch delivers once its body is read.\<close>

definition fetched :: "('e, 'w) fetch \<Rightarrow> 'w \<Rightarrow> (bytes \<times> Meta) option" where
  "fetched fetch w =
     (case fst (fetch w) of
        Inl _ \<Rightarrow> None
      | Inr (r, m) \<Rightarrow> (case ReadAll r of Inl _ \<Rightarrow> None | Inr b \<Rightarrow> Some (b, m)))"


section \<open>A call, over any cache that meets the contract\<close>

lemma GetOrFetch_found:
  "cGet H now1 key cs = (Inr (rc, meta), cs1) \<Longrightarrow>
   GetOrFetch H Do now1 now2 key fetch (cs, w) = (Inr (rc, meta), cs1, w)"
  by (simp add: GetOrFetch_def)

lemma GetOrFetch_miss:
  "cGet H now1 key cs = (Inl e, cs1) \<Longrightarrow> runs_once Do \<Longrightarrow>
   GetOrFetch H Do now1 now2 key fetch (cs, w) =
     (case fetch_closure H now2 key fetch (cs1, w) of
        (Inl err, x) \<Rightarrow> (Inl err, x)
      | (Inr (body, meta), x) \<Rightarrow> (Inr (bytes_reader body, meta), x))"
  by (simp add: GetOrFetch_def runs_onceD)

context cache_contract
begin

text \<open>A lookup that fails leaves the key out of the index, so the second look misses too.\<close>

lemma closure_absent:
  assumes "cinv c" "entry c key = None"
  shows "fetch_closure H now2 key fetch (c, w) =
     (case fetch w of
        (Inl e, w1) \<Rightarrow> (Inl (SFFetch e), c, w1)
      | (Inr (r, meta), w1) \<Rightarrow>
          (case ReadAll r of
             Inl e \<Rightarrow> (Inl (SFRead e), c, w1)
           | Inr body \<Rightarrow> (Inr (body, meta), snd (cSet H key (bytes_reader body) meta c), w1)))"
  by (simp add: fetch_closure_def get_absent [OF assms] split_beta split: sum.split prod.split)

text \<open>So a miss fetches exactly once, and stores what it fetched.\<close>

lemma miss_once:
  assumes "cinv c" "cGet H now1 key c = (Inl e, c1)" "runs_once Do"
  shows "GetOrFetch H Do now1 now2 key fetch (c, w) =
     (case fetch w of
        (Inl e, w1) \<Rightarrow> (Inl (SFFetch e), c1, w1)
      | (Inr (r, meta), w1) \<Rightarrow>
          (case ReadAll r of
             Inl e \<Rightarrow> (Inl (SFRead e), c1, w1)
           | Inr body \<Rightarrow> (Inr (bytes_reader body, meta), snd (cSet H key (bytes_reader body) meta c1), w1)))"
proof -
  have "cinv c1" "entry c1 key = None" using get_ok [OF assms(1,2)] get_failed [OF assms(1,2)] by simp_all
  then show ?thesis
    by (simp add: GetOrFetch_miss [OF assms(2,3)] closure_absent split: prod.split sum.split)
qed

text \<open>A call leads to one of four states.\<close>

lemma call_cases:
  assumes "cinv c" "runs_once Do" "GetOrFetch H Do now1 now2 key fetch (c, w) = (res, c', w')"
  obtains
    (hit) rc m where "cGet H now1 key c = (Inr (rc, m), c')" "res = Inr (rc, m)" "w' = w"
  | (failed) e e' where "cGet H now1 key c = (Inl e, c')" "fetch w = (Inl e', w')" "res = Inl (SFFetch e')"
  | (cut) e rd m e' where "cGet H now1 key c = (Inl e, c')" "fetch w = (Inr (rd, m), w')"
      "ReadAll rd = Inl e'" "res = Inl (SFRead e')"
  | (fetched) e c1 rd m b eo where "cGet H now1 key c = (Inl e, c1)" "fetch w = (Inr (rd, m), w')"
      "ReadAll rd = Inr b" "cSet H key (bytes_reader b) m c1 = (eo, c')" "res = Inr (bytes_reader b, m)"
proof (cases "cGet H now1 key c")
  case (Pair r c1)
  show ?thesis
  proof (cases r)
    case (Inr x)
    with Pair assms(3) that(1) show ?thesis by (cases x) (simp add: GetOrFetch_found)
  next
    case (Inl e)
    note g = Pair [unfolded Inl]
    from assms(3) g show ?thesis
      unfolding miss_once [OF assms(1) g assms(2)]
      by (auto split: prod.splits sum.splits intro: that(2-4)) (metis prod.collapse that(4))
  qed
qed

lemma call_ok:
  assumes "cinv c" "runs_once Do" "GetOrFetch H Do now1 now2 key fetch (c, w) = (res, c', w')"
    and meta: "\<And>rd m w1. fetch w = (Inr (rd, m), w1) \<Longrightarrow> mKey m = key"
  shows "cinv c' \<and> room c' = room c \<and> only_key key (entry c) (entry c')"
  using assms(1-3)
proof (cases rule: call_cases)
  case (fetched e c1 rd m b eo)
  from get_ok [OF assms(1) fetched(1)] set_ok [OF _ meta [OF fetched(2)] fetched(4)] show ?thesis
    by (auto intro: only_key_trans)
qed (use get_ok [OF assms(1)] in blast)+

text \<open>
  After a call that succeeded the cache has the key with the metadata that was returned, if it has
  room and its storage took the body; after a failed one it does not have the key.
\<close>

lemma call_entry:
  assumes "cinv c" "runs_once Do" "GetOrFetch H Do now1 now2 key fetch (c, w) = (res, c', w')"
    and meta: "\<And>rd m w1. fetch w = (Inr (rd, m), w1) \<Longrightarrow> mKey m = key"
  shows "(case res of Inl e \<Rightarrow> cStat H key c' = Inl (CacheNotFound key)
    | Inr (rc, m) \<Rightarrow> mKey m = key \<and> cStat H key c' \<in> {Inr m, Inl (CacheNotFound key)})"
  using assms(1-3)
proof (cases rule: call_cases)
  case (hit rc m)
  with get_hit [OF assms(1) hit(1)] get_ok [OF assms(1) hit(1)] show ?thesis by (simp add: stat)
next
  case (failed e e')
  with get_failed [OF assms(1) failed(1)] get_ok [OF assms(1) failed(1)] show ?thesis by (simp add: stat)
next
  case (cut e rd m e')
  with get_failed [OF assms(1) cut(1)] get_ok [OF assms(1) cut(1)] show ?thesis by (simp add: stat)
next
  case (fetched e c1 rd m b eo)
  have c1: "cinv c1" "entry c1 key = None"
    using get_ok [OF assms(1) fetched(1)] get_failed [OF assms(1) fetched(1)] by simp_all
  note k = meta [OF fetched(2)]
  have "entry c' key \<in> {Some m, None}"
  proof (cases eo)
    case None
    with set_stored [OF c1(1) k fetched(4) [unfolded None]] show ?thesis by simp
  next
    case (Some er)
    with set_failed [OF fetched(4) [unfolded Some]] c1(2) show ?thesis by simp
  qed
  with set_ok [OF c1(1) k fetched(4)] fetched(5) k show ?thesis by (auto simp: stat)
qed

text \<open>What is returned comes from the cache on a hit and from \<open>fetch\<close> on a miss.\<close>

lemma call_result:
  assumes "cinv c" "runs_once Do"
    and "fst (GetOrFetch H Do now1 now2 key fetch (c, w)) = Inr (rc, m)"
  shows "fst (cGet H now1 key c) = Inr (rc, m) \<or>
    (\<exists>e b. fst (cGet H now1 key c) = Inl e \<and> fetched fetch w = Some (b, m) \<and> rc = bytes_reader b)"
proof (cases "GetOrFetch H Do now1 now2 key fetch (c, w)")
  case (fields res c' w')
  from assms(1,2) fields show ?thesis
    by (cases rule: call_cases) (use assms(3) fields in \<open>auto simp: fetched_def\<close>)
qed

end


section \<open>Over the LRU cache\<close>

lemma GetOrFetch_hit:
  "LRUCache_Get S now1 key cs = (Inr (rc, meta), cs1) \<Longrightarrow>
   GetOrFetch (LRUCache_ops S F) Do now1 now2 key fetch (cs, w) = (Inr (rc, meta), cs1, w)"
  by (simp add: GetOrFetch_found)

lemma GetOrFetch_miss_once:
  assumes "lru_inv c" "LRUCache_Get S now1 key (c, st) = (Inl e, c1, st1)" "runs_once Do"
  shows "GetOrFetch (LRUCache_ops S F) Do now1 now2 key fetch ((c, st), w) =
     (case fetch w of
        (Inl e, w1) \<Rightarrow> (Inl (SFFetch e), (c1, st1), w1)
      | (Inr (r, meta), w1) \<Rightarrow>
          (case ReadAll r of
             Inl e \<Rightarrow> (Inl (SFRead e), (c1, st1), w1)
           | Inr body \<Rightarrow> (Inr (bytes_reader body, meta),
               snd (LRUCache_Set S F key (bytes_reader body) meta (c1, st1)), w1)))"
  using lru.miss_once [where c = "(c, st)" and S = S and F = F, unfolded LRUCache_ops_sel fst_conv, OF assms] .

lemma GetOrFetch_inv:
  assumes "lru_inv c" "runs_once Do"
    and "\<And>r m w1. fetch w = (Inr (r, m), w1) \<Longrightarrow> mKey m = key"
  shows "lru_inv (fst (fst (snd (GetOrFetch (LRUCache_ops S F) Do now1 now2 key fetch ((c, st), w)))))"
proof (cases "GetOrFetch (LRUCache_ops S F) Do now1 now2 key fetch ((c, st), w)")
  case (fields res c' w')
  from lru.call_ok [OF _ assms(2) fields assms(3)] assms(1) fields show ?thesis by simp
qed

text \<open>The effect on the cache, as a history of calls for the one key.\<close>

definition gof_history ::
  "'s storage_ops \<Rightarrow> time \<Rightarrow> string \<Rightarrow> ('e, 'w) fetch \<Rightarrow> (LRUCache \<times> 's) \<times> 'w \<Rightarrow> cache_op list" where
  "gof_history S now1 key fetch x =
     (case fst (LRUCache_Get S now1 key (fst x)) of
        Inr _ \<Rightarrow> [OpGet now1 key]
      | Inl _ \<Rightarrow>
          (case fetched fetch (snd x) of
             None \<Rightarrow> [OpGet now1 key]
           | Some (b, m) \<Rightarrow> [OpGet now1 key, OpSet key b m]))"

lemma GetOrFetch_history:
  assumes "lru_inv c" "runs_once Do"
  shows "fst (snd (GetOrFetch (LRUCache_ops S F) Do now1 now2 key fetch ((c, st), w))) =
    fold (run_op S F) (gof_history S now1 key fetch ((c, st), w)) (c, st)"
proof -
  obtain r c1 st1 where g: "LRUCache_Get S now1 key (c, st) = (r, c1, st1)"
    by (cases "LRUCache_Get S now1 key (c, st)")
  show ?thesis
  proof (cases r)
    case (Inr x)
    with g show ?thesis by (cases x) (simp add: GetOrFetch_hit gof_history_def)
  next
    case (Inl e)
    then show ?thesis
      unfolding GetOrFetch_miss_once [OF assms(1) g [unfolded Inl] assms(2)]
      by (simp add: gof_history_def g fetched_def split: prod.split sum.split)
  qed
qed

lemma gof_history_keys: "op \<in> set (gof_history S now1 key fetch x) \<Longrightarrow> op_key op = key"
  by (auto simp: gof_history_def split: sum.splits option.splits)

text \<open>What is returned comes from the storage on a hit and from \<open>fetch\<close> on a miss.\<close>

lemma GetOrFetch_result:
  assumes "lru_inv c" "runs_once Do"
    and "fst (GetOrFetch (LRUCache_ops S F) Do now1 now2 key fetch ((c, st), w)) = Inr (rc, m)"
  shows "fst (LRUCache_Get S now1 key (c, st)) = Inr (rc, m) \<or>
    (\<exists>e b. fst (LRUCache_Get S now1 key (c, st)) = Inl e \<and> fetched fetch w = Some (b, m) \<and>
       rc = bytes_reader b)"
  using lru.call_result [OF _ assms(2,3)] assms(1) by simp

end
