(* ===== verification/Flush.thy ===== *)
theory Flush
  imports Storage
begin

text \<open>
  Cache invalidation rules (\<open>flush/store.go\<close>). The rules of a domain are a list, newest last;
  the map from domains to rules is iterated, so it is an association list. The storage is
  shared with the cache and is threaded next to the store. \<open>encoding/json\<close> on rule lists is
  the record \<open>J\<close>; a round trip through it is a hypothesis where it is needed.

  Every operation is a sequential step; \<open>AddRule\<close> and \<open>Cleanup\<close> of the code release the lock
  before they persist, and what interleaved persists can lose is the subject of theory
  FlushRace.
\<close>

record Rule =
  rID :: string
  rDomain :: string
  rPrefix :: string
  rCreatedAt :: time

record Store =
  rules :: "Rule list gomap"

record rules_codec =
  marshalRules :: "Rule list \<Rightarrow> bytes option"
  unmarshalRules :: "bytes \<Rightarrow> Rule list option"

datatype flush_err = FReadRules string | FDecodeRules | FEncodeRules | FPersist storage_err

definition persistKey :: string where
  "persistKey = ''__flush_rules__''"

definition New :: Store where
  "New = \<lparr>rules = []\<rparr>"

definition rules_of :: "Store \<Rightarrow> string \<Rightarrow> Rule list" where
  "rules_of st d = (case map_of (rules st) d of None \<Rightarrow> [] | Some rs \<Rightarrow> rs)"

text \<open>\<open>st.rules[d] = append(st.rules[d], r)\<close>\<close>

definition append_rule :: "string \<Rightarrow> Rule \<Rightarrow> Store \<Rightarrow> Store" where
  "append_rule d r st = st\<lparr>rules := AList.update d (rules_of st d @ [r]) (rules st)\<rparr>"

fun load_rules :: "Rule list \<Rightarrow> Store \<Rightarrow> Store" where
  "load_rules [] st = st"
| "load_rules (r # rs) st = load_rules rs (append_rule (rDomain r) r st)"

definition Store_Load ::
  "'s storage_ops \<Rightarrow> rules_codec \<Rightarrow> Store \<times> 's \<Rightarrow> flush_err option \<times> Store \<times> 's" where
  "Store_Load S J = (\<lambda>(st, s).
     case stRead S persistKey s of
       (Inl e, s1) \<Rightarrow> (None, st, s1)
     | (Inr (rc, m), s1) \<Rightarrow>
         (case ReadAll rc of
            Inl e \<Rightarrow> (Some (FReadRules e), st, s1)
          | Inr data \<Rightarrow>
              (case unmarshalRules J data of
                 None \<Rightarrow> (Some FDecodeRules, st, s1)
               | Some all \<Rightarrow> (None, load_rules all st, s1))))"

definition allRulesLocked :: "Store \<Rightarrow> Rule list" where
  "allRulesLocked st = concat (map snd (rules st))"

definition rules_metadata :: Metadata where
  "rules_metadata = empty_Metadata\<lparr>ContentType := ''application/json''\<rparr>"

definition persist ::
  "'s storage_ops \<Rightarrow> rules_codec \<Rightarrow> Rule list \<Rightarrow> 's \<Rightarrow> flush_err option \<times> 's" where
  "persist S J rs s =
     (case marshalRules J rs of
        None \<Rightarrow> (Some FEncodeRules, s)
      | Some data \<Rightarrow>
          (case stWrite S persistKey (bytes_reader data) (Some rules_metadata) s of
             (Some e, s1) \<Rightarrow> (Some (FPersist e), s1)
           | (None, s1) \<Rightarrow> (None, s1)))"

text \<open>\<open>now1\<close> and \<open>now2\<close> are the two clock readings; the identifier is the first, in decimal.\<close>

definition new_rule :: "time \<Rightarrow> time \<Rightarrow> string \<Rightarrow> string \<Rightarrow> Rule" where
  "new_rule now1 now2 domain prfx =
     \<lparr>rID = show_int (wrap64 now1), rDomain = domain, rPrefix = prfx, rCreatedAt = now2\<rparr>"

definition Store_AddRule ::
  "'s storage_ops \<Rightarrow> rules_codec \<Rightarrow> time \<Rightarrow> time \<Rightarrow> string \<Rightarrow> string \<Rightarrow> Store \<times> 's \<Rightarrow>
   flush_err option \<times> Store \<times> 's" where
  "Store_AddRule S J now1 now2 domain prfx = (\<lambda>(st, s).
     (let r = new_rule now1 now2 domain prfx;
          st1 = append_rule domain r st;
          all = allRulesLocked st1;
          (e, s1) = persist S J all s
      in (e, st1, s1)))"

fun match_rules :: "string \<Rightarrow> Rule option \<Rightarrow> Rule list \<Rightarrow> Rule option" where
  "match_rules path latest [] = latest"
| "match_rules path latest (r # rs) =
     match_rules path
       (if HasPrefix path (rPrefix r) then
          (case latest of
             None \<Rightarrow> Some r
           | Some l \<Rightarrow> if After (rCreatedAt r) (rCreatedAt l) then Some r else latest)
        else latest) rs"

definition Store_Match :: "string \<Rightarrow> string \<Rightarrow> Store \<Rightarrow> Rule option" where
  "Store_Match domain path st = match_rules path None (rules_of st domain)"

fun cleanup_rules :: "time \<Rightarrow> Rule list gomap \<Rightarrow> Rule list gomap" where
  "cleanup_rules cutoff [] = []"
| "cleanup_rules cutoff ((d, rs) # m) =
     (let kept = filter (\<lambda>r. After (rCreatedAt r) cutoff) rs
      in if kept = [] then cleanup_rules cutoff m else (d, kept) # cleanup_rules cutoff m)"

definition Store_Cleanup ::
  "'s storage_ops \<Rightarrow> rules_codec \<Rightarrow> time \<Rightarrow> duration \<Rightarrow> Store \<times> 's \<Rightarrow>
   flush_err option \<times> Store \<times> 's" where
  "Store_Cleanup S J now maxAge = (\<lambda>(st, s).
     (let cutoff = Add now (wrap64 (- maxAge));
          st1 = st\<lparr>rules := cleanup_rules cutoff (rules st)\<rparr>;
          all = allRulesLocked st1;
          (e, s1) = persist S J all s
      in (e, st1, s1)))"

definition Store_RuleCount :: "string \<Rightarrow> Store \<Rightarrow> nat" where
  "Store_RuleCount domain st = length (rules_of st domain)"


section \<open>Invariant\<close>

text \<open>Distinct domains, no empty list, and every rule filed under its own domain.\<close>

definition store_inv :: "Store \<Rightarrow> bool" where
  "store_inv st \<longleftrightarrow> distinct (map fst (rules st)) \<and>
     (\<forall>(d, rs) \<in> set (rules st). \<forall>r \<in> set rs. rDomain r = d)"

lemma store_inv_New [wf_intros]: "store_inv New"
  by (simp add: store_inv_def New_def)

lemma rules_of_New [simp]: "rules_of New d = []"
  by (simp add: rules_of_def New_def)

lemma rules_of_append [simp]:
  "rules_of (append_rule d r st) d' = (if d' = d then rules_of st d @ [r] else rules_of st d')"
  by (simp add: append_rule_def rules_of_def)

lemma store_inv_rules_of: "store_inv st \<Longrightarrow> r \<in> set (rules_of st d) \<Longrightarrow> rDomain r = d"
  by (auto simp: store_inv_def rules_of_def split: option.splits dest!: map_of_SomeD)

lemma store_inv_iff:
  assumes "distinct (map fst (rules st))"
  shows "store_inv st \<longleftrightarrow> (\<forall>d. \<forall>r \<in> set (rules_of st d). rDomain r = d)"
proof
  assume all: "\<forall>d. \<forall>r \<in> set (rules_of st d). rDomain r = d"
  have "rDomain r = d" if "(d, rs) \<in> set (rules st)" "r \<in> set rs" for d rs r
  proof -
    have "rules_of st d = rs" using that(1) assms by (simp add: rules_of_def)
    with all that(2) show ?thesis by blast
  qed
  with assms show "store_inv st" by (auto simp: store_inv_def)
qed (use store_inv_rules_of in blast)

lemma store_inv_append [wf_intros]:
  assumes "store_inv st" "rDomain r = d" shows "store_inv (append_rule d r st)"
proof -
  have "distinct (map fst (rules (append_rule d r st)))"
    using assms(1) by (simp add: append_rule_def store_inv_def)
  then show ?thesis using assms store_inv_rules_of [OF assms(1)] by (simp add: store_inv_iff)
qed

lemma store_inv_load [wf_intros]: "store_inv st \<Longrightarrow> store_inv (load_rules rs st)"
  by (induction rs arbitrary: st) (auto intro: store_inv_append)

lemma rules_of_load:
  "rules_of (load_rules rs st) d = rules_of st d @ filter (\<lambda>r. rDomain r = d) rs"
  by (induction rs arbitrary: st) auto


section \<open>Match\<close>

lemma match_rules_Some:
  assumes "match_rules path (Some l) rs = r"
  shows "\<exists>x. r = Some x \<and> (x = l \<or> x \<in> set rs \<and> HasPrefix path (rPrefix x)) \<and>
    rCreatedAt l \<le> rCreatedAt x \<and>
    (\<forall>y \<in> set rs. HasPrefix path (rPrefix y) \<longrightarrow> rCreatedAt y \<le> rCreatedAt x)"
  using assms
proof (induction rs arbitrary: l)
  case (Cons a rs)
  let ?l = "if HasPrefix path (rPrefix a) \<and> After (rCreatedAt a) (rCreatedAt l) then a else l"
  have "match_rules path (Some ?l) rs = r" using Cons.prems by (auto split: if_splits)
  from Cons.IH [OF this] show ?case by (auto simp: After_def split: if_splits)
qed simp

text \<open>\<open>Match\<close> returns a covering rule of the greatest creation time, or none if none covers.\<close>

lemma match_rules_spec:
  "case match_rules path None rs of
     None \<Rightarrow> \<forall>y \<in> set rs. \<not> HasPrefix path (rPrefix y)
   | Some x \<Rightarrow> x \<in> set rs \<and> HasPrefix path (rPrefix x) \<and>
       (\<forall>y \<in> set rs. HasPrefix path (rPrefix y) \<longrightarrow> rCreatedAt y \<le> rCreatedAt x)"
proof (induction rs)
  case (Cons a rs)
  then show ?case
    using match_rules_Some [where path = path and l = a and rs = rs, OF refl]
    by (auto split: option.splits)
qed simp

definition flushed_after :: "Store \<Rightarrow> string \<Rightarrow> string \<Rightarrow> time \<Rightarrow> bool" where
  "flushed_after st domain path t \<longleftrightarrow>
     (\<exists>r \<in> set (rules_of st domain). HasPrefix path (rPrefix r) \<and> t < rCreatedAt r)"

text \<open>Looking only at the rule \<open>Match\<close> returns is enough to decide whether any rule is newer.\<close>

lemma Match_decides:
  "(case Store_Match domain path st of None \<Rightarrow> False | Some r \<Rightarrow> After (rCreatedAt r) t) \<longleftrightarrow>
   flushed_after st domain path t"
  using match_rules_spec [where path = path and rs = "rules_of st domain"]
  by (fastforce simp: Store_Match_def flushed_after_def After_def split: option.splits)


section \<open>Persistence\<close>

lemma filter_domain_concat:
  assumes "distinct (map fst m)" "\<forall>(d', rs) \<in> set m. \<forall>r \<in> set rs. rDomain r = d'"
  shows "filter (\<lambda>r. rDomain r = d) (concat (map snd m)) =
    (case map_of m d of None \<Rightarrow> [] | Some rs \<Rightarrow> rs)"
  using assms
proof (induction m)
  case (Cons p m)
  obtain d' rs where p: "p = (d', rs)" by (cases p)
  have IH: "filter (\<lambda>r. rDomain r = d) (concat (map snd m)) =
      (case map_of m d of None \<Rightarrow> [] | Some rs \<Rightarrow> rs)"
    using Cons by simp
  show ?case
  proof (cases "d' = d")
    case True
    then have "map_of m d = None" using Cons.prems(1) p by (simp add: map_of_eq_None_iff)
    moreover have "filter (\<lambda>r. rDomain r = d) rs = rs"
      using Cons.prems(2) p True by (auto intro: filter_True)
    ultimately show ?thesis using IH p True by simp
  next
    case False
    then have "filter (\<lambda>r. rDomain r = d) rs = []"
      using Cons.prems(2) p by (auto simp: filter_empty_conv)
    with IH p False show ?thesis by simp
  qed
qed simp

lemma reload_rules:
  "store_inv st \<Longrightarrow> rules_of (load_rules (allRulesLocked st) New) d = rules_of st d"
  by (simp add: rules_of_load allRulesLocked_def store_inv_def filter_domain_concat)
     (simp add: rules_of_def)

lemma map_of_cleanup:
  "distinct (map fst m) \<Longrightarrow>
   (case map_of (cleanup_rules cutoff m) d of None \<Rightarrow> [] | Some rs \<Rightarrow> rs) =
   filter (\<lambda>r. After (rCreatedAt r) cutoff) (case map_of m d of None \<Rightarrow> [] | Some rs \<Rightarrow> rs)"
proof (induction cutoff m rule: cleanup_rules.induct)
  case (2 cutoff d' rs m)
  have "map_of (cleanup_rules cutoff m) d' = None"
    if "d' \<notin> fst ` set m" using that
    by (induction cutoff m rule: cleanup_rules.induct) (auto simp: Let_def)
  with 2 show ?case by (auto simp: Let_def)
qed simp

lemma keys_cleanup: "set (map fst (cleanup_rules cutoff m)) \<subseteq> set (map fst m)"
proof (induction cutoff m rule: cleanup_rules.induct)
  case (2 cutoff d rs m)
  then show ?case by (cases "filter (\<lambda>r. After (rCreatedAt r) cutoff) rs = []") auto
qed simp

lemma distinct_cleanup: "distinct (map fst m) \<Longrightarrow> distinct (map fst (cleanup_rules cutoff m))"
proof (induction cutoff m rule: cleanup_rules.induct)
  case (2 cutoff d rs m)
  then show ?case using keys_cleanup [of cutoff m] by (auto simp: Let_def)
qed simp

lemma rules_of_cleanup:
  "store_inv st \<Longrightarrow> rules_of (st\<lparr>rules := cleanup_rules cutoff (rules st)\<rparr>) d =
     filter (\<lambda>r. After (rCreatedAt r) cutoff) (rules_of st d)"
  using map_of_cleanup [of "rules st" cutoff d] by (simp add: store_inv_def rules_of_def)

lemma store_inv_cleanup [wf_intros]:
  assumes "store_inv st" shows "store_inv (st\<lparr>rules := cleanup_rules cutoff (rules st)\<rparr>)"
proof -
  have "distinct (map fst (cleanup_rules cutoff (rules st)))"
    using assms by (simp add: store_inv_def distinct_cleanup)
  then show ?thesis
    using store_inv_rules_of [OF assms] by (simp add: store_inv_iff rules_of_cleanup [OF assms])
qed


section \<open>Properties\<close>

text \<open>
  The single rule \<open>Match\<close> returns decides for an entry written at \<open>t\<close> whether any rule of the
  domain that covers the path is newer than the entry.
\<close>

lemma Match_complete:
  "(case Store_Match domain path st of None \<Rightarrow> False | Some r \<Rightarrow> After (rCreatedAt r) t) \<longleftrightarrow>
   (\<exists>r \<in> set (rules_of st domain). HasPrefix path (rPrefix r) \<and> t < rCreatedAt r)"
  using Match_decides by (simp add: flushed_after_def)

text \<open>
  A rule flushes, from its creation on, exactly the older entries of its own domain whose path
  has its prefix, and leaves the effect of the other rules as it was.
\<close>

lemma AddRule_flushes:
  "flushed_after (fst (snd (Store_AddRule S J now1 now2 d p (st, s)))) d' path t \<longleftrightarrow>
   flushed_after st d' path t \<or> d' = d \<and> HasPrefix path p \<and> t < now2"
  by (auto simp: Store_AddRule_def Let_def flushed_after_def new_rule_def split: prod.split)

text \<open>
  Cleaning up keeps the invariant and, for every entry at least as young as the cutoff, the
  decision whether it is flushed.
\<close>

lemma Cleanup_sound:
  assumes "store_inv st" "int64 (- maxAge)" "now - maxAge \<le> t"
  shows "store_inv (fst (snd (Store_Cleanup S J now maxAge (st, s)))) \<and>
    (flushed_after (fst (snd (Store_Cleanup S J now maxAge (st, s)))) d path t \<longleftrightarrow> flushed_after st d path t)"
proof -
  let ?cutoff = "Add now (wrap64 (- maxAge))"
  have cut: "?cutoff \<le> t" using assms(2,3) by (simp add: Add_def wrap64_id)
  have st': "fst (snd (Store_Cleanup S J now maxAge (st, s))) = st\<lparr>rules := cleanup_rules ?cutoff (rules st)\<rparr>"
    by (simp add: Store_Cleanup_def Let_def split: prod.split)
  have "flushed_after (st\<lparr>rules := cleanup_rules ?cutoff (rules st)\<rparr>) d path t \<longleftrightarrow> flushed_after st d path t"
    unfolding flushed_after_def rules_of_cleanup [OF assms(1)] using cut by (auto simp: After_def)
  with store_inv_cleanup [OF assms(1), of ?cutoff] show ?thesis by (simp add: st')
qed

text \<open>After a cleanup exactly the rules created after the cutoff are left, in their order.\<close>

lemma Cleanup_exact:
  assumes "store_inv st"
  shows "rules_of (fst (snd (Store_Cleanup S J now maxAge (st, s)))) d =
    filter (\<lambda>r. now + wrap64 (- maxAge) < rCreatedAt r) (rules_of st d)"
  using rules_of_cleanup [OF assms]
  by (simp add: Store_Cleanup_def Let_def Add_def After_def split: prod.split)

end
