(* ===== verification/Pipeline.thy ===== *)
theory Pipeline
  imports Httplib Config
begin

text \<open>
  Package pipeline (\<open>pipeline.go\<close>) and what it shares with the rest of the service: the
  process-wide \<open>world\<close> that requests read and change besides the cache (the clock, the metrics
  of \<open>observe/metrics.go\<close>, the rate limiter's per-domain state), the per-request
  \<open>PipelineContext\<close>, the plugin interface with its contract, and the chain itself.

  \<open>world\<close> is polymorphic in the rate limiter's state \<open>'l\<close>. Every \<open>time.Now()\<close> takes the next
  reading of \<open>wclock\<close>, readings that only feed a latency excepted. A metric update appends an
  event, and so does the one log line per request of \<open>RequestLogger\<close>, without method and latency.
  For a histogram the event is the observation, whose value, a latency, is left out, as are the
  other log lines.
\<close>

section \<open>The world of a request\<close>

datatype event =
    CacheHits string                    \<comment> \<open>\<open>CacheHitsTotal\<close> by domain\<close>
  | CacheMisses string                  \<comment> \<open>\<open>CacheMissesTotal\<close> by domain\<close>
  | OriginPulls string string string    \<comment> \<open>\<open>OriginPullsTotal\<close> by domain, origin, status\<close>
  | PluginTriggered string string string \<comment> \<open>\<open>PluginTriggeredTotal\<close> by domain, plugin, result\<close>
  | FlushRules string nat               \<comment> \<open>\<open>FlushRulesTotal\<close> of a domain set to a value\<close>
  | Requests string string              \<comment> \<open>\<open>RequestsTotal\<close> by host and status\<close>
  | ObservePull string                  \<comment> \<open>\<open>OriginPullDuration\<close> by domain\<close>
  | ObserveRequest string string        \<comment> \<open>\<open>RequestDuration\<close> by domain and \<open>cache_hit\<close>\<close>
  | RequestLogged string string int int string \<comment> \<open>domain, path, status, bytes, client address\<close>

record 'l world =
  wclock :: "nat \<Rightarrow> time"
  wticks :: nat
  wevents :: "event list"
  wlimits :: 'l

definition time_Now :: "'l world \<Rightarrow> time \<times> 'l world" where
  "time_Now wd = (wclock wd (wticks wd), wd\<lparr>wticks := Suc (wticks wd)\<rparr>)"

definition emits :: "event list \<Rightarrow> 'l world \<Rightarrow> 'l world" where
  "emits es wd = wd\<lparr>wevents := wevents wd @ es\<rparr>"

abbreviation emit :: "event \<Rightarrow> 'l world \<Rightarrow> 'l world" where
  "emit e \<equiv> emits [e]"

lemma emits_sel [simp]:
  "wclock (emits es wd) = wclock wd" "wticks (emits es wd) = wticks wd"
  "wevents (emits es wd) = wevents wd @ es" "wlimits (emits es wd) = wlimits wd"
  by (simp_all add: emits_def)


section \<open>Plugins\<close>

record PipelineContext =
  RewrittenPath :: string
  SetResponseHeaders :: header
  DeleteResponseHeaders :: "string list"

text \<open>The \<open>Execute\<close> method of a plugin: whether to go on, and everything it may mutate.\<close>

type_synonym 'l plugin =
  "PipelineContext \<Rightarrow> any_val gomap \<Rightarrow> string \<Rightarrow> ResponseWriter \<Rightarrow> Request \<Rightarrow> 'l world \<Rightarrow>
   bool \<times> PipelineContext \<times> ResponseWriter \<times> Request \<times> 'l world"

type_synonym 'l registry = "string \<rightharpoonup> 'l plugin"

definition RegisterPlugin :: "string \<Rightarrow> 'l plugin \<Rightarrow> 'l registry \<Rightarrow> 'l registry" where
  "RegisterPlugin typeName p reg = reg(typeName \<mapsto> p)"

fun run_plugins ::
  "'l registry \<Rightarrow> PluginConfig list \<Rightarrow> string \<Rightarrow>
   PipelineContext \<times> ResponseWriter \<times> Request \<times> 'l world \<Rightarrow>
   bool \<times> PipelineContext \<times> ResponseWriter \<times> Request \<times> 'l world" where
  "run_plugins reg [] domain x = (True, x)"
| "run_plugins reg (pcfg # cfgs) domain (pCtx, w, r, wd) =
     (case reg (pcType pcfg) of
        None \<Rightarrow> run_plugins reg cfgs domain (pCtx, w, r, wd)
      | Some pl \<Rightarrow>
          (case pl pCtx (pcConfig pcfg) domain w r wd of
             (ok, y) \<Rightarrow> if ok then run_plugins reg cfgs domain y else (False, y)))"

definition Pipeline_Execute ::
  "'l registry \<Rightarrow> PluginConfig list \<Rightarrow> string \<Rightarrow> ResponseWriter \<Rightarrow> Request \<Rightarrow> 'l world \<Rightarrow>
   bool \<times> PipelineContext \<times> ResponseWriter \<times> Request \<times> 'l world" where
  "Pipeline_Execute reg cfgs domain w r wd =
     (let pCtx = \<lparr>RewrittenPath = URLPath r, SetResponseHeaders = [], DeleteResponseHeaders = []\<rparr>
      in run_plugins reg cfgs domain (pCtx, w, r, wd))"

text \<open>\<open>for k, vs := range h { for _, v := range vs { w.Header().Set(k, v) } }\<close>\<close>

fun set_values :: "string \<Rightarrow> string list \<Rightarrow> ResponseWriter \<Rightarrow> ResponseWriter" where
  "set_values k [] w = w"
| "set_values k (v # vs) w = set_values k vs (set_wHeader k v w)"

fun set_all :: "header \<Rightarrow> ResponseWriter \<Rightarrow> ResponseWriter" where
  "set_all [] w = w"
| "set_all ((k, vs) # h) w = set_all h (set_values k vs w)"

fun del_all :: "string list \<Rightarrow> ResponseWriter \<Rightarrow> ResponseWriter" where
  "del_all [] w = w"
| "del_all (k # ks) w = del_all ks (w\<lparr>wHeader := Header_Del (wHeader w) k\<rparr>)"

definition ApplyResponseMutations :: "ResponseWriter \<Rightarrow> PipelineContext \<Rightarrow> ResponseWriter" where
  "ApplyResponseMutations w pCtx =
     del_all (DeleteResponseHeaders pCtx) (set_all (SetResponseHeaders pCtx) w)"


lemma bytes_ok_set_values [simp]: "bytes_ok (set_values k vs w) = bytes_ok w"
  by (induction k vs w rule: set_values.induct) simp_all

lemma bytes_ok_set_all [simp]: "bytes_ok (set_all h w) = bytes_ok w"
  by (induction h w rule: set_all.induct) simp_all

lemma bytes_ok_del_all [simp]: "bytes_ok (del_all ks w) = bytes_ok w"
  by (induction ks w rule: del_all.induct) simp_all


section \<open>The contract of a plugin\<close>

text \<open>The parts of a request that only the client decides.\<close>

definition same_target :: "Request \<Rightarrow> Request \<Rightarrow> bool" where
  "same_target r r' \<longleftrightarrow> Host r' = Host r \<and> URLPath r' = URLPath r \<and> RawQuery r' = RawQuery r \<and>
     RemoteAddr r' = RemoteAddr r"

lemma same_target_refl [simp]: "same_target r r"
  by (simp add: same_target_def)

lemma same_target_trans: "same_target r r' \<Longrightarrow> same_target r' r'' \<Longrightarrow> same_target r r''"
  by (simp add: same_target_def)

text \<open>
  The comment on the interface: a plugin that short-circuits writes a response. The other
  laws are what the handler relies on: a plugin that passes leaves the response alone, and no
  plugin changes the target of the request or turns the clock.
\<close>

locale plugin_contract =
  fixes pl :: "'l plugin"
  assumes short_circuit: "pl c cfg d w r wd = (False, c', w', r', wd') \<Longrightarrow> wStatus w' \<noteq> None"
    and pass: "pl c cfg d w r wd = (True, c', w', r', wd') \<Longrightarrow> w' = w"
    and target: "pl c cfg d w r wd = (ok, c', w', r', wd') \<Longrightarrow> same_target r r'"
    and clock: "pl c cfg d w r wd = (ok, c', w', r', wd') \<Longrightarrow>
        wclock wd' = wclock wd \<and> wticks wd \<le> wticks wd'"
    and metrics: "pl c cfg d w r wd = (ok, c', w', r', wd') \<Longrightarrow>
        \<exists>p res. wevents wd' = wevents wd @ [PluginTriggered d p res]"

locale registry_contract =
  fixes reg :: "'l registry"
  assumes registered: "reg t = Some pl \<Longrightarrow> plugin_contract pl"
begin

lemma run_pass:
  "run_plugins reg cfgs d (c, w, r, wd) = (True, c', w', r', wd') \<Longrightarrow> w' = w"
proof (induction cfgs arbitrary: c w r wd)
  case (Cons p cfgs)
  show ?case
  proof (cases "reg (pcType p)")
    case None
    with Cons show ?thesis by simp
  next
    case (Some pl)
    obtain ok c1 w1 r1 wd1 where e: "pl c (pcConfig p) d w r wd = (ok, c1, w1, r1, wd1)"
      by (cases "pl c (pcConfig p) d w r wd") auto
    with Some Cons.prems have ok: "ok"
      and rest: "run_plugins reg cfgs d (c1, w1, r1, wd1) = (True, c', w', r', wd')"
      by (auto split: if_splits)
    from e ok have "pl c (pcConfig p) d w r wd = (True, c1, w1, r1, wd1)" by simp
    from plugin_contract.pass [OF registered [OF Some] this] have "w1 = w" .
    with Cons.IH [OF rest] show ?thesis by simp
  qed
qed simp

lemma run_short_circuit:
  "run_plugins reg cfgs d (c, w, r, wd) = (False, c', w', r', wd') \<Longrightarrow> wStatus w' \<noteq> None"
proof (induction cfgs arbitrary: c w r wd)
  case (Cons p cfgs)
  show ?case
  proof (cases "reg (pcType p)")
    case None
    with Cons show ?thesis by simp
  next
    case (Some pl)
    obtain ok c1 w1 r1 wd1 where e: "pl c (pcConfig p) d w r wd = (ok, c1, w1, r1, wd1)"
      by (cases "pl c (pcConfig p) d w r wd") auto
    show ?thesis
    proof (cases ok)
      case True
      with Some e Cons.prems show ?thesis using Cons.IH by simp
    next
      case False
      with Some e Cons.prems have "w' = w1" by simp
      moreover from e False have "pl c (pcConfig p) d w r wd = (False, c1, w1, r1, wd1)" by simp
      ultimately show ?thesis
        using plugin_contract.short_circuit [OF registered [OF Some]] by simp
    qed
  qed
qed simp

text \<open>Target, clock and metrics along the whole chain, however it ends.\<close>

lemma run_frame:
  "run_plugins reg cfgs d (c, w, r, wd) = (ok, c', w', r', wd') \<Longrightarrow>
   same_target r r' \<and> wclock wd' = wclock wd \<and> wticks wd \<le> wticks wd' \<and>
   (\<exists>es. wevents wd' = wevents wd @ es \<and> (\<forall>e \<in> set es. \<exists>p res. e = PluginTriggered d p res))"
proof (induction cfgs arbitrary: c w r wd)
  case (Cons p cfgs)
  show ?case
  proof (cases "reg (pcType p)")
    case None
    with Cons show ?thesis by simp
  next
    case (Some pl)
    obtain ok1 c1 w1 r1 wd1 where e: "pl c (pcConfig p) d w r wd = (ok1, c1, w1, r1, wd1)"
      by (cases "pl c (pcConfig p) d w r wd") auto
    note con = registered [OF Some]
    have one: "same_target r r1 \<and> wclock wd1 = wclock wd \<and> wticks wd \<le> wticks wd1"
      using plugin_contract.target [OF con e] plugin_contract.clock [OF con e] by blast
    obtain q res where ev: "wevents wd1 = wevents wd @ [PluginTriggered d q res]"
      using plugin_contract.metrics [OF con e] by blast
    show ?thesis
    proof (cases ok1)
      case False
      with Some e Cons.prems have "r' = r1" "wd' = wd1" by simp_all
      with one ev show ?thesis by auto
    next
      case True
      with Some e Cons.prems have "run_plugins reg cfgs d (c1, w1, r1, wd1) = (ok, c', w', r', wd')"
        by simp
      from Cons.IH [OF this] one ev show ?thesis
        by (auto intro: same_target_trans)
    qed
  qed
qed simp

end


section \<open>Response header mutations\<close>

lemma set_values_frame [simp]:
  "wStatus (set_values k vs w) = wStatus w" "wBody (set_values k vs w) = wBody w"
  "wLogged (set_values k vs w) = wLogged w"
  by (induction vs arbitrary: w) (simp_all add: set_wHeader_def)

lemma set_all_frame [simp]:
  "wStatus (set_all h w) = wStatus w" "wBody (set_all h w) = wBody w" "wLogged (set_all h w) = wLogged w"
  by (induction h arbitrary: w) auto

lemma del_all_frame [simp]:
  "wStatus (del_all ks w) = wStatus w" "wBody (del_all ks w) = wBody w" "wLogged (del_all ks w) = wLogged w"
  by (induction ks arbitrary: w) auto

lemma map_of_set_values:
  "map_of (wHeader (set_values k vs w)) k' =
     (if k' = CanonicalKey k \<and> vs \<noteq> [] then Some [last vs] else map_of (wHeader w) k')"
  by (induction vs arbitrary: w) (auto simp: set_wHeader_def)

lemma map_of_set_all_other:
  "\<forall>kv \<in> set h. CanonicalKey (fst kv) \<noteq> k' \<Longrightarrow>
   map_of (wHeader (set_all h w)) k' = map_of (wHeader w) k'"
  by (induction h arbitrary: w) (auto simp: map_of_set_values)

text \<open>
  A header map whose keys are canonical and distinct, as \<open>net/http\<close> builds them: copying it
  with \<open>Set\<close> keeps the last value of each key, whatever the iteration order.
\<close>

definition canonical_header :: "header \<Rightarrow> bool" where
  "canonical_header h \<longleftrightarrow> distinct (map fst h) \<and> (\<forall>kv \<in> set h. CanonicalKey (fst kv) = fst kv)"

lemma map_of_set_all:
  "canonical_header h \<Longrightarrow>
   map_of (wHeader (set_all h w)) k =
     (case map_of h k of Some (v # vs) \<Rightarrow> Some [last (v # vs)] | _ \<Rightarrow> map_of (wHeader w) k)"
proof (induction h arbitrary: w)
  case (Cons kv h)
  obtain k1 vs where kv: "kv = (k1, vs)" by (cases kv)
  from Cons.prems have can: "canonical_header h" and k1: "CanonicalKey k1 = k1" and
    notin: "map_of h k1 = None"
    by (auto simp: canonical_header_def kv map_of_eq_None_iff)
  show ?case
    using Cons.IH [OF can, of "set_values k1 vs w"] notin
    by (auto simp: kv map_of_set_values k1 split: option.splits list.splits)
qed simp

lemma map_of_del_all:
  "map_of (wHeader (del_all ks w)) k' =
     (if k' \<in> CanonicalKey ` set ks then None else map_of (wHeader w) k')"
  by (induction ks arbitrary: w) auto


end
