(* ===== verification/RateLimit.thy ===== *)
theory RateLimit
  imports Pipeline
begin

text \<open>
  Package ratelimit (\<open>ratelimit.go\<close>): the sliding-window limiter, the per-domain and per-IP
  state of the plugin, its \<open>Execute\<close>, the configuration helpers it shares in style with the
  other plugins, and one tick of the cleanup loop. The token bucket is
  \<open>golang.org/x/time/rate\<close>, whose constructor and \<open>Allow\<close> are the parameter \<open>tb_ops\<close>:
  \<open>Allow()\<close> is documented as \<open>AllowN(time.Now(), 1)\<close>, hence its time argument.
\<close>

section \<open>The sliding window\<close>

record slidingWindow =
  swRate :: float64
  swWindow :: duration
  swTimestamps :: "time list"

definition newSlidingWindow :: "float64 \<Rightarrow> slidingWindow" where
  "newSlidingWindow rps = \<lparr>swRate = rps, swWindow = Second, swTimestamps = []\<rparr>"

text \<open>The loop that keeps the timestamps inside the window.\<close>

fun keep_after :: "time \<Rightarrow> time list \<Rightarrow> time list" where
  "keep_after cutoff [] = []"
| "keep_after cutoff (t # ts) =
     (if After t cutoff then t # keep_after cutoff ts else keep_after cutoff ts)"

definition sw_Allow :: "slidingWindow \<Rightarrow> time \<Rightarrow> bool \<times> slidingWindow" where
  "sw_Allow sw now =
     (let cutoff = Add now (- swWindow sw);
          kept = keep_after cutoff (swTimestamps sw);
          sw1 = sw\<lparr>swTimestamps := kept\<rparr>
      in if swRate sw \<le> float64_of_int (int (length kept)) then (False, sw1)
         else (True, sw1\<lparr>swTimestamps := kept @ [now]\<rparr>))"


section \<open>Configuration helpers\<close>

definition stringVal :: "any_val gomap \<Rightarrow> string \<Rightarrow> string \<Rightarrow> string" where
  "stringVal cfg key def =
     (case map_of cfg key of Some (AString v) \<Rightarrow> if v \<noteq> [] then v else def | _ \<Rightarrow> def)"

definition floatVal :: "any_val gomap \<Rightarrow> string \<Rightarrow> float64 \<Rightarrow> float64" where
  "floatVal cfg key def =
     (case map_of cfg key of
        None \<Rightarrow> def
      | Some (AFloat n) \<Rightarrow> n
      | Some (AInt n) \<Rightarrow> float64_of_int n
      | Some (AInt64 n) \<Rightarrow> float64_of_int n
      | Some _ \<Rightarrow> def)"

definition intVal :: "any_val gomap \<Rightarrow> string \<Rightarrow> int \<Rightarrow> int" where
  "intVal cfg key def =
     (case map_of cfg key of
        None \<Rightarrow> def
      | Some (AInt n) \<Rightarrow> n
      | Some (AFloat n) \<Rightarrow> int_of_float64 n
      | Some (AInt64 n) \<Rightarrow> n
      | Some _ \<Rightarrow> def)"


section \<open>The plugin\<close>

datatype 'tb limiter = SlidingWindow slidingWindow | TokenBucket 'tb

record 'tb tb_ops =
  tbNew :: "float64 \<Rightarrow> int \<Rightarrow> 'tb"
  tbAllow :: "'tb \<Rightarrow> time \<Rightarrow> bool \<times> 'tb"

record 'tb perDomainState =
  psMode :: string
  psAlgorithm :: string
  psRate :: float64
  psBurst :: int
  psLimiters :: "'tb limiter gomap"
  psLastSeen :: "time gomap"
  psCleanup :: bool                   \<comment> \<open>\<open>cleanupOnce\<close> done: the cleanup goroutine runs\<close>

type_synonym 'tb limits = "string \<rightharpoonup> 'tb perDomainState"

definition limiterKey :: "'tb perDomainState \<Rightarrow> Request \<Rightarrow> string" where
  "limiterKey s r =
     (if psMode s = ''ip'' then
        (case SplitHostPort (RemoteAddr r) of None \<Rightarrow> RemoteAddr r | Some (ip, _) \<Rightarrow> ip)
      else ''domain'')"

definition newLimiter :: "'tb tb_ops \<Rightarrow> 'tb perDomainState \<Rightarrow> 'tb limiter" where
  "newLimiter T s =
     (if psAlgorithm s = ''sliding_window'' then SlidingWindow (newSlidingWindow (psRate s))
      else TokenBucket (tbNew T (psRate s) (psBurst s)))"

text \<open>\<open>l.Allow()\<close>: both implementations read the clock once.\<close>

fun Allow :: "'tb tb_ops \<Rightarrow> 'tb limiter \<Rightarrow> time \<Rightarrow> bool \<times> 'tb limiter" where
  "Allow T (SlidingWindow sw) now = (case sw_Allow sw now of (ok, sw') \<Rightarrow> (ok, SlidingWindow sw'))"
| "Allow T (TokenBucket tb) now = (case tbAllow T tb now of (ok, tb') \<Rightarrow> (ok, TokenBucket tb'))"

definition rl_state ::
  "any_val gomap \<Rightarrow> string \<Rightarrow> 'tb limits \<Rightarrow> 'tb perDomainState" where
  "rl_state cfg domain doms =
     (let rps = floatVal cfg ''rate'' (Fin 100)
      in case doms domain of
           Some s \<Rightarrow> s
         | None \<Rightarrow> \<lparr>psMode = stringVal cfg ''mode'' ''domain'',
                    psAlgorithm = stringVal cfg ''algorithm'' ''token_bucket'',
                    psRate = rps,
                    psBurst = intVal cfg ''burst'' (int_of_float64 rps),
                    psLimiters = [], psLastSeen = [], psCleanup = False\<rparr>)"

text \<open>The critical section of \<open>Execute\<close>: find or make the limiter, note its use, ask it.\<close>

definition rl_decide ::
  "'tb tb_ops \<Rightarrow> string \<Rightarrow> time \<Rightarrow> time \<Rightarrow> 'tb perDomainState \<Rightarrow> bool \<times> 'tb perDomainState" where
  "rl_decide T key seen now s =
     (let l = (case map_of (psLimiters s) key of Some l \<Rightarrow> l | None \<Rightarrow> newLimiter T s);
          (allowed, l') = Allow T l now
      in (allowed, s\<lparr>psLimiters := AList.update key l' (psLimiters s),
                     psLastSeen := AList.update key seen (psLastSeen s)\<rparr>))"

definition RateLimit_Execute :: "'tb tb_ops \<Rightarrow> 'tb limits plugin" where
  "RateLimit_Execute T pCtx cfg domain w r wd =
     (let mode = stringVal cfg ''mode'' ''domain'';
          s0 = rl_state cfg domain (wlimits wd);
          s1 = (if mode = ''ip'' then s0\<lparr>psCleanup := True\<rparr> else s0);
          (seen, wd1) = time_Now wd;
          (now, wd2) = time_Now wd1;
          (allowed, s2) = rl_decide T (limiterKey s1 r) seen now s1;
          wd3 = wd2\<lparr>wlimits := (wlimits wd)(domain \<mapsto> s2)\<rparr>
      in if allowed then (True, pCtx, w, r, emit (PluginTriggered domain ''rate_limit'' ''pass'') wd3)
         else (False, pCtx, http_Error ''Too Many Requests'' 429 w, r,
               emit (PluginTriggered domain ''rate_limit'' ''reject'') wd3))"

text \<open>One tick of \<open>cleanup\<close>: the limiters idle for more than five minutes go.\<close>

fun cleanup_scan ::
  "time \<Rightarrow> (string \<times> time) list \<Rightarrow> 'tb perDomainState \<Rightarrow> 'tb perDomainState" where
  "cleanup_scan cutoff [] s = s"
| "cleanup_scan cutoff ((k, t) # kts) s =
     cleanup_scan cutoff kts
       (if Before t cutoff then
          s\<lparr>psLimiters := AList.delete k (psLimiters s), psLastSeen := AList.delete k (psLastSeen s)\<rparr>
        else s)"

definition cleanup_tick :: "time \<Rightarrow> 'tb perDomainState \<Rightarrow> 'tb perDomainState" where
  "cleanup_tick now s = cleanup_scan (Add now (- (5 * Minute))) (psLastSeen s) s"


section \<open>Correctness of the sliding window\<close>

lemma keep_after_filter: "keep_after cutoff ts = filter (\<lambda>t. cutoff < t) ts"
  by (induction ts) (auto simp: After_def)

lemma sw_Allow_frame [simp]:
  "swRate (snd (sw_Allow sw now)) = swRate sw" "swWindow (snd (sw_Allow sw now)) = swWindow sw"
  by (simp_all add: sw_Allow_def Let_def)

text \<open>The calls of a limiter at the times \<open>ts\<close>, and the times it admitted.\<close>

fun sw_run :: "slidingWindow \<Rightarrow> time list \<Rightarrow> bool list" where
  "sw_run sw [] = []"
| "sw_run sw (t # ts) = fst (sw_Allow sw t) # sw_run (snd (sw_Allow sw t)) ts"

text \<open>
  The specification keeps the whole history \<open>h\<close> of admitted times and counts those of the
  last second; it never forgets a timestamp.
\<close>

definition recent :: "time \<Rightarrow> time list \<Rightarrow> time list" where
  "recent now h = filter (\<lambda>t. now - Second < t) h"

definition spec_admits :: "float64 \<Rightarrow> time list \<Rightarrow> time \<Rightarrow> bool" where
  "spec_admits rate h now \<longleftrightarrow> \<not> rate \<le> float64_of_int (int (length (recent now h)))"

fun spec_run :: "float64 \<Rightarrow> time list \<Rightarrow> time list \<Rightarrow> bool list" where
  "spec_run rate h [] = []"
| "spec_run rate h (t # ts) =
     spec_admits rate h t # spec_run rate (if spec_admits rate h t then h @ [t] else h) ts"

fun spec_history :: "float64 \<Rightarrow> time list \<Rightarrow> time list \<Rightarrow> time list" where
  "spec_history rate h [] = h"
| "spec_history rate h (t # ts) =
     spec_history rate (if spec_admits rate h t then h @ [t] else h) ts"

text \<open>\<open>sw\<close> stands for the history \<open>h\<close> for all calls from \<open>now\<close> on.\<close>

definition sw_abs :: "time \<Rightarrow> slidingWindow \<Rightarrow> time list \<Rightarrow> bool" where
  "sw_abs now sw h \<longleftrightarrow> swWindow sw = Second \<and> recent now (swTimestamps sw) = recent now h"

lemma recent_later: "t \<le> now \<Longrightarrow> recent now (recent t h) = recent now h"
  by (auto simp: recent_def intro: filter_cong)

lemma sw_abs_later: "sw_abs t sw h \<Longrightarrow> t \<le> now \<Longrightarrow> sw_abs now sw h"
  unfolding sw_abs_def by (metis recent_later)

lemma sw_abs_new: "sw_abs now (newSlidingWindow rate) []"
  by (simp add: sw_abs_def newSlidingWindow_def recent_def)

lemma sw_Allow_abs:
  assumes "sw_abs now sw h"
  shows "fst (sw_Allow sw now) = spec_admits (swRate sw) h now"
    and "sw_abs now (snd (sw_Allow sw now)) (if spec_admits (swRate sw) h now then h @ [now] else h)"
proof -
  have win: "swWindow sw = Second" using assms by (simp add: sw_abs_def)
  have kept: "keep_after (Add now (- Second)) (swTimestamps sw) = recent now h"
    using assms by (simp add: sw_abs_def recent_def keep_after_filter Add_def)
  have idem: "recent now (recent now h) = recent now h"
    by (simp add: recent_def)
  have app: "recent now (xs @ [now]) = recent now xs @ [now]" for xs
    by (simp add: recent_def Second_def)
  show "fst (sw_Allow sw now) = spec_admits (swRate sw) h now"
    by (simp add: sw_Allow_def win kept spec_admits_def Let_def)
  show "sw_abs now (snd (sw_Allow sw now)) (if spec_admits (swRate sw) h now then h @ [now] else h)"
    by (simp add: sw_Allow_def win kept spec_admits_def Let_def sw_abs_def idem app)
qed

lemma sw_run_spec:
  assumes "sorted ts" "sw_abs now sw h" "\<forall>t \<in> set ts. now \<le> t"
  shows "sw_run sw ts = spec_run (swRate sw) h ts"
  using assms
proof (induction ts arbitrary: now sw h)
  case (Cons t ts)
  then have abs: "sw_abs t sw h" by (auto intro: sw_abs_later)
  have "sw_run (snd (sw_Allow sw t)) ts =
      spec_run (swRate sw) (if spec_admits (swRate sw) h t then h @ [t] else h) ts"
    using Cons.IH [OF _ sw_Allow_abs(2) [OF abs]] Cons.prems(1) by simp
  with sw_Allow_abs(1) [OF abs] show ?case by simp
qed simp

text \<open>No second, wherever it starts, admits more than the rate, rounded up.\<close>

definition rate_bound :: "rat \<Rightarrow> time list \<Rightarrow> bool" where
  "rate_bound q h \<longleftrightarrow>
     (\<forall>u. int (length (filter (\<lambda>t. u - Second < t \<and> t \<le> u) h)) \<le> max 0 \<lceil>q\<rceil>)"

lemma rate_bound_Nil: "rate_bound q []"
  by (simp add: rate_bound_def)

lemma spec_admits_count:
  assumes "spec_admits (Fin q) h t" "q \<le> 2 ^ 52"
  shows "int (length (recent t h)) < max 0 \<lceil>q\<rceil> \<or> 2 ^ 53 \<le> length (recent t h)"
proof (cases "length (recent t h) < 2 ^ 53")
  case True
  with assms have "of_nat (length (recent t h)) < q"
    by (simp add: spec_admits_def float64_of_nat)
  then have "int (length (recent t h)) < \<lceil>q\<rceil>"
    by (simp add: less_ceiling_iff)
  then show ?thesis by (simp add: less_max_iff_disj)
qed simp

lemma rate_bound_step:
  assumes h: "rate_bound q h" and adm: "spec_admits (Fin q) h t" and q: "q \<le> 2 ^ 52"
    and old: "\<forall>x \<in> set h. x \<le> t"
  shows "rate_bound q (h @ [t])"
proof -
  have eq: "recent t h = filter (\<lambda>x. t - Second < x \<and> x \<le> t) h"
    using old by (auto simp: recent_def intro: filter_cong)
  have "int (length (recent t h)) \<le> max 0 \<lceil>q\<rceil>"
    using h by (simp add: rate_bound_def eq)
  also have "max 0 \<lceil>q\<rceil> \<le> 2 ^ 52"
    using q by (intro max.boundedI) (simp_all add: ceiling_le_iff)
  finally have "int (length (recent t h)) \<le> 2 ^ 52" .
  then have small: "length (recent t h) < 2 ^ 53" by simp
  have lt: "int (length (recent t h)) < max 0 \<lceil>q\<rceil>"
    using spec_admits_count [OF adm q] small by simp
  show ?thesis
    unfolding rate_bound_def
  proof
    fix u
    show "int (length (filter (\<lambda>x. u - Second < x \<and> x \<le> u) (h @ [t]))) \<le> max 0 \<lceil>q\<rceil>"
    proof (cases "u - Second < t \<and> t \<le> u")
      case True
      then have "filter (\<lambda>x. u - Second < x \<and> x \<le> u) h =
          filter (\<lambda>x. u - Second < x \<and> x \<le> u) (recent t h)"
        by (auto simp: recent_def intro: filter_cong)
      also have "length \<dots> \<le> length (recent t h)" by (rule length_filter_le)
      finally show ?thesis using lt True by simp
    next
      case False
      then have "filter (\<lambda>x. u - Second < x \<and> x \<le> u) [t] = []" by auto
      with h show ?thesis unfolding rate_bound_def filter_append by simp
    qed
  qed
qed

lemma spec_history_bound:
  assumes "sorted ts" "rate_bound q h" "q \<le> 2 ^ 52" "\<forall>x \<in> set h. \<forall>t \<in> set ts. x \<le> t"
  shows "rate_bound q (spec_history (Fin q) h ts)"
  using assms
proof (induction ts arbitrary: h)
  case (Cons t ts)
  show ?case
  proof (cases "spec_admits (Fin q) h t")
    case True
    have "rate_bound q (h @ [t])"
      using rate_bound_step [OF Cons.prems(2) True Cons.prems(3)] Cons.prems(4) by simp
    then show ?thesis using Cons True by auto
  next
    case False
    then show ?thesis using Cons by simp
  qed
qed simp

text \<open>The times the limiter admitted, read off its answers.\<close>

definition admitted :: "time list \<Rightarrow> bool list \<Rightarrow> time list" where
  "admitted ts oks = map fst (filter snd (zip ts oks))"

lemma admitted_spec_run: "h @ admitted ts (spec_run rate h ts) = spec_history rate h ts"
proof (induction ts arbitrary: h)
  case (Cons t ts)
  show ?case using Cons [of "h @ [t]"] Cons [of h] by (simp add: admitted_def)
qed (simp add: admitted_def)

text \<open>A limiter that has been idle for a window decides as a new one.\<close>

lemma sw_Allow_idle:
  assumes "\<forall>t \<in> set (swTimestamps sw). t \<le> now - swWindow sw"
  shows "sw_Allow sw now = sw_Allow (sw\<lparr>swTimestamps := []\<rparr>) now"
proof -
  have "keep_after (Add now (- swWindow sw)) (swTimestamps sw) = []"
    using assms by (auto simp: keep_after_filter Add_def filter_empty_conv not_less)
  then show ?thesis by (simp add: sw_Allow_def Let_def)
qed


section \<open>Cleanup of idle limiters\<close>

lemma cleanup_scan_limiters:
  "map_of (psLimiters (cleanup_scan cutoff kts s)) k =
     (if \<exists>t. (k, t) \<in> set kts \<and> t < cutoff then None else map_of (psLimiters s) k)"
  by (induction cutoff kts s rule: cleanup_scan.induct) (auto simp: Before_def)

lemma cleanup_scan_seen:
  "map_of (psLastSeen (cleanup_scan cutoff kts s)) k =
     (if \<exists>t. (k, t) \<in> set kts \<and> t < cutoff then None else map_of (psLastSeen s) k)"
  by (induction cutoff kts s rule: cleanup_scan.induct) (auto simp: Before_def)

lemma cleanup_scan_frame [simp]:
  "psMode (cleanup_scan cutoff kts s) = psMode s"
  "psAlgorithm (cleanup_scan cutoff kts s) = psAlgorithm s"
  "psRate (cleanup_scan cutoff kts s) = psRate s"
  "psBurst (cleanup_scan cutoff kts s) = psBurst s"
  "psCleanup (cleanup_scan cutoff kts s) = psCleanup s"
  by (induction cutoff kts s rule: cleanup_scan.induct) auto

lemma cleanup_scan_distinct:
  "distinct (map fst (psLastSeen s)) \<Longrightarrow>
   distinct (map fst (psLastSeen (cleanup_scan cutoff kts s)))"
  by (induction cutoff kts s rule: cleanup_scan.induct) auto

text \<open>
  The invariant of a domain's state: every limiter has a last use and conversely, and a
  sliding-window limiter has the window and rate of the domain.
\<close>

definition ps_inv :: "'tb perDomainState \<Rightarrow> bool" where
  "ps_inv s \<longleftrightarrow> distinct (map fst (psLastSeen s)) \<and>
     (\<forall>k. map_of (psLimiters s) k = None \<longleftrightarrow> map_of (psLastSeen s) k = None) \<and>
     (\<forall>k sw. map_of (psLimiters s) k = Some (SlidingWindow sw) \<longrightarrow>
        swRate sw = psRate s \<and> swWindow sw = Second \<and> psAlgorithm s = ''sliding_window'')"

lemma ps_inv_cleanup: "ps_inv s \<Longrightarrow> ps_inv (cleanup_tick now s)"
  by (auto simp: ps_inv_def cleanup_tick_def cleanup_scan_limiters cleanup_scan_seen
      cleanup_scan_distinct simp del: map_of_eq_Some_iff)

lemma cleanup_tick_limiters:
  assumes "ps_inv s"
  shows "map_of (psLimiters (cleanup_tick now s)) k =
    (case map_of (psLastSeen s) k of
       Some t \<Rightarrow> if t < now - 5 * Minute then None else map_of (psLimiters s) k
     | None \<Rightarrow> None)"
proof -
  have "(\<exists>t. (k, t) \<in> set (psLastSeen s) \<and> t < c) \<longleftrightarrow>
      (\<exists>t. map_of (psLastSeen s) k = Some t \<and> t < c)" for c
    using assms by (auto simp: ps_inv_def)
  then show ?thesis
    using assms
    by (auto simp: cleanup_tick_def cleanup_scan_limiters Add_def ps_inv_def
        simp del: map_of_eq_Some_iff split: option.splits)
qed


section \<open>The plugin keeps its contract\<close>

lemma RateLimit_cases:
  obtains (pass) wd' where
      "RateLimit_Execute T c cfg d w r wd = (True, c, w, r, wd')"
      "wclock wd' = wclock wd" "wticks wd \<le> wticks wd'"
      "wevents wd' = wevents wd @ [PluginTriggered d ''rate_limit'' ''pass'']"
    | (reject) wd' where
      "RateLimit_Execute T c cfg d w r wd = (False, c, http_Error ''Too Many Requests'' 429 w, r, wd')"
      "wclock wd' = wclock wd" "wticks wd \<le> wticks wd'"
      "wevents wd' = wevents wd @ [PluginTriggered d ''rate_limit'' ''reject'']"
proof -
  obtain a s2 where dec: "rl_decide T
      (limiterKey (if stringVal cfg ''mode'' ''domain'' = ''ip''
         then (rl_state cfg d (wlimits wd))\<lparr>psCleanup := True\<rparr> else rl_state cfg d (wlimits wd)) r)
      (wclock wd (wticks wd)) (wclock wd (Suc (wticks wd)))
      (if stringVal cfg ''mode'' ''domain'' = ''ip''
         then (rl_state cfg d (wlimits wd))\<lparr>psCleanup := True\<rparr> else rl_state cfg d (wlimits wd)) = (a, s2)"
    by fastforce
  show ?thesis
    using that by (cases a) (simp_all add: RateLimit_Execute_def Let_def time_Now_def dec)
qed

interpretation ratelimit: plugin_contract "RateLimit_Execute T" for T
proof (unfold_locales, goal_cases)
  case (1 c cfg d w r wd c' w' r' wd')
  then show ?case by (cases rule: RateLimit_cases [of T c cfg d w r wd]) auto
next
  case (2 c cfg d w r wd c' w' r' wd')
  then show ?case by (cases rule: RateLimit_cases [of T c cfg d w r wd]) auto
next
  case (3 c cfg d w r wd ok c' w' r' wd')
  then show ?case by (cases rule: RateLimit_cases [of T c cfg d w r wd]) auto
next
  case (4 c cfg d w r wd ok c' w' r' wd')
  then show ?case by (cases rule: RateLimit_cases [of T c cfg d w r wd]) auto
next
  case (5 c cfg d w r wd ok c' w' r' wd')
  then show ?case by (cases rule: RateLimit_cases [of T c cfg d w r wd]) auto
qed

text \<open>Domains, and within a domain keys, do not see each other.\<close>

lemma RateLimit_limits:
  assumes "RateLimit_Execute T c cfg d w r wd = (ok, c', w', r', wd')"
  defines "s1 \<equiv> (rl_state cfg d (wlimits wd))
      \<lparr>psCleanup := (stringVal cfg ''mode'' ''domain'' = ''ip'' \<or> psCleanup (rl_state cfg d (wlimits wd)))\<rparr>"
  shows "wlimits wd' = (wlimits wd)(d \<mapsto> snd (rl_decide T (limiterKey s1 r)
           (wclock wd (wticks wd)) (wclock wd (Suc (wticks wd))) s1))"
    and "ok = fst (rl_decide T (limiterKey s1 r)
           (wclock wd (wticks wd)) (wclock wd (Suc (wticks wd))) s1)"
proof -
  have s1: "(if stringVal cfg ''mode'' ''domain'' = ''ip'' then (rl_state cfg d (wlimits wd))\<lparr>psCleanup := True\<rparr>
      else rl_state cfg d (wlimits wd)) = s1"
    by (simp add: s1_def)
  obtain a s2 where dec: "rl_decide T (limiterKey s1 r)
      (wclock wd (wticks wd)) (wclock wd (Suc (wticks wd))) s1 = (a, s2)" by fastforce
  show "wlimits wd' = (wlimits wd)(d \<mapsto> snd (rl_decide T (limiterKey s1 r)
           (wclock wd (wticks wd)) (wclock wd (Suc (wticks wd))) s1))"
    using assms(1) unfolding RateLimit_Execute_def Let_def s1 time_Now_def
    by (auto simp: dec split: if_splits)
  show "ok = fst (rl_decide T (limiterKey s1 r)
           (wclock wd (wticks wd)) (wclock wd (Suc (wticks wd))) s1)"
    using assms(1) unfolding RateLimit_Execute_def Let_def s1 time_Now_def
    by (auto simp: dec split: if_splits)
qed

lemma RateLimit_other_domain:
  assumes "RateLimit_Execute T c cfg d w r wd = (ok, c', w', r', wd')" "d' \<noteq> d"
  shows "wlimits wd' d' = wlimits wd d'"
  using RateLimit_limits(1) [OF assms(1)] assms(2) by simp

lemma rl_decide_other:
  "k \<noteq> key \<Longrightarrow> map_of (psLimiters (snd (rl_decide T key seen now s))) k = map_of (psLimiters s) k"
  by (simp add: rl_decide_def Let_def split: prod.splits)

lemma limiterKey_psCleanup [simp]: "limiterKey (s\<lparr>psCleanup := b\<rparr>) r = limiterKey s r"
  by (simp add: limiterKey_def)

lemma RateLimit_other_key:
  assumes "RateLimit_Execute T c cfg d w r wd = (ok, c', w', r', wd')"
    and "wlimits wd d = Some s" "k \<noteq> limiterKey s r"
  obtains s' where "wlimits wd' d = Some s'" "map_of (psLimiters s') k = map_of (psLimiters s) k"
  using RateLimit_limits(1) [OF assms(1)] assms(2,3) that
  by (simp add: rl_state_def Let_def rl_decide_other)

lemma Allow_swRate:
  "Allow T l now = (ok, SlidingWindow sw) \<Longrightarrow>
   \<exists>sw0. l = SlidingWindow sw0 \<and> swRate sw = swRate sw0 \<and> swWindow sw = swWindow sw0"
proof (cases l)
  case (SlidingWindow sw0)
  moreover assume "Allow T l now = (ok, SlidingWindow sw)"
  ultimately have "sw = snd (sw_Allow sw0 now)" by (auto split: prod.splits)
  with SlidingWindow show ?thesis by auto
qed (auto split: prod.splits)

text \<open>The invariant of the whole table.\<close>

definition limits_inv :: "'tb limits \<Rightarrow> bool" where
  "limits_inv doms \<longleftrightarrow> (\<forall>d s. doms d = Some s \<longrightarrow> ps_inv s)"

lemma rl_state_inv: "limits_inv doms \<Longrightarrow> ps_inv (rl_state cfg d doms)"
  by (auto simp: limits_inv_def rl_state_def ps_inv_def Let_def split: option.splits)

lemma ps_inv_Allow:
  assumes inv: "ps_inv s"
    and l: "l = (case map_of (psLimiters s) key of Some l \<Rightarrow> l | None \<Rightarrow> newLimiter T s)"
    and "Allow T l now = (ok, l')"
  shows "ps_inv (s\<lparr>psLimiters := AList.update key l' (psLimiters s),
                   psLastSeen := AList.update key seen (psLastSeen s)\<rparr>)"
proof -
  have "swRate sw = psRate s \<and> swWindow sw = Second \<and> psAlgorithm s = ''sliding_window''"
    if "l = SlidingWindow sw" for sw
  proof (cases "map_of (psLimiters s) key")
    case None
    with l that show ?thesis
      by (auto simp: newLimiter_def newSlidingWindow_def split: if_splits)
  next
    case (Some l0)
    with l that inv show ?thesis unfolding ps_inv_def by auto
  qed
  with Allow_swRate assms(3)
  have "swRate sw = psRate s \<and> swWindow sw = Second \<and> psAlgorithm s = ''sliding_window''"
    if "l' = SlidingWindow sw" for sw
    using that by metis
  with inv show ?thesis
    unfolding ps_inv_def by (auto simp del: map_of_eq_Some_iff)
qed

lemma ps_inv_psCleanup [simp]: "ps_inv (s\<lparr>psCleanup := b\<rparr>) = ps_inv s"
  by (simp add: ps_inv_def)

lemma rl_decide_inv: "ps_inv s \<Longrightarrow> ps_inv (snd (rl_decide T key seen now s))"
  using ps_inv_Allow by (fastforce simp: rl_decide_def Let_def split: prod.splits)

lemma RateLimit_inv:
  assumes "RateLimit_Execute T c cfg d w r wd = (ok, c', w', r', wd')"
    and "limits_inv (wlimits wd)"
  shows "limits_inv (wlimits wd')"
  using RateLimit_limits(1) [OF assms(1)] assms(2)
  by (auto simp: limits_inv_def intro!: rl_decide_inv rl_state_inv [OF assms(2)])


section \<open>Properties\<close>

text \<open>
  The sliding window, which forgets old timestamps at every call, answers as the reference that
  remembers every admitted call and counts those of the last second.
\<close>

lemma sliding_window_equivalent:
  assumes "sorted ts"
  shows "sw_run (newSlidingWindow rate) ts = spec_run rate [] ts"
proof -
  have "\<forall>t \<in> set ts. (case ts of [] \<Rightarrow> 0 | t # _ \<Rightarrow> t) \<le> t"
    using assms by (cases ts) auto
  from sw_run_spec [OF assms sw_abs_new this] show ?thesis by (simp add: newSlidingWindow_def)
qed

text \<open>
  One call of the plugin for a domain leaves the limiters of every other domain alone and,
  within the domain, those of every other client key.
\<close>

lemma RateLimit_isolation:
  assumes "RateLimit_Execute T c cfg d w r wd = (ok, c', w', r', wd')" "wlimits wd d = Some s"
  shows "(\<forall>d'. d' \<noteq> d \<longrightarrow> wlimits wd' d' = wlimits wd d') \<and>
    (\<forall>k. k \<noteq> limiterKey s r \<longrightarrow>
       map_option (\<lambda>s'. map_of (psLimiters s') k) (wlimits wd' d) = Some (map_of (psLimiters s) k))"
proof (intro conjI allI impI)
  fix d' assume "d' \<noteq> d"
  then show "wlimits wd' d' = wlimits wd d'" by (rule RateLimit_other_domain [OF assms(1)])
next
  fix k assume "k \<noteq> limiterKey s r"
  then show "map_option (\<lambda>s'. map_of (psLimiters s') k) (wlimits wd' d) = Some (map_of (psLimiters s) k)"
    by (rule RateLimit_other_key [OF assms]) simp
qed

definition ex_tb :: "unit tb_ops" where
  "ex_tb = \<lparr>tbNew = (\<lambda>_ _. ()), tbAllow = (\<lambda>_ _. (True, ()))\<rparr>"

definition ex_limit_cfg :: "any_val gomap" where
  "ex_limit_cfg = [(''mode'', AString ''ip''), (''algorithm'', AString ''sliding_window''), (''rate'', AInt 1)]"

text \<open>
  A cleanup tick drops exactly the limiters idle for more than five minutes, keeps the
  invariant, and keeps every other limiter as it was.
\<close>

lemma cleanup_tick_correct:
  assumes "ps_inv s"
  shows "ps_inv (cleanup_tick now s) \<and>
    map_of (psLimiters (cleanup_tick now s)) k =
      (case map_of (psLastSeen s) k of
         Some t \<Rightarrow> if t < now - 5 * Minute then None else map_of (psLimiters s) k
       | None \<Rightarrow> None)"
  using ps_inv_cleanup [OF assms] cleanup_tick_limiters [OF assms] by simp

end
