(* ===== verification/HeaderPlugin.thy ===== *)
theory HeaderPlugin
  imports Pipeline
begin

text \<open>
  Package header (\<open>header.go\<close>): the plugin that sets, adds and deletes request headers at
  once and stages response headers in the \<open>PipelineContext\<close>. \<open>parseOps\<close> returns its error as
  \<open>Inl\<close>; \<open>Execute\<close> ignores it and goes on with the nil slice.
\<close>

section \<open>Operations\<close>

record headerOp =
  hoOp :: string
  hoKey :: string
  hoValue :: string

datatype parse_err = ExpectedMap nat | UnknownOp nat string | KeyRequired nat

text \<open>\<open>v, _ := m[k].(string)\<close>\<close>

definition map_string :: "any_val gomap \<Rightarrow> string \<Rightarrow> string" where
  "map_string m k = (case map_of m k of Some (AString v) \<Rightarrow> v | _ \<Rightarrow> [])"

text \<open>\<open>v, _ := m[k].([]any)\<close>\<close>

definition map_slice :: "any_val gomap \<Rightarrow> string \<Rightarrow> any_val list" where
  "map_slice m k = (case map_of m k of Some (AList xs) \<Rightarrow> xs | _ \<Rightarrow> [])"

definition parse_op :: "nat \<Rightarrow> any_val \<Rightarrow> parse_err + headerOp" where
  "parse_op i item =
     (case item of
        AMap m \<Rightarrow>
          (let op = ToLower (map_string m ''op'');
               key = map_string m ''key'';
               value = map_string m ''value''
           in if op \<noteq> ''set'' \<and> op \<noteq> ''add'' \<and> op \<noteq> ''del'' then Inl (UnknownOp i op)
              else if key = [] then Inl (KeyRequired i)
              else Inr \<lparr>hoOp = op, hoKey = key, hoValue = value\<rparr>)
      | _ \<Rightarrow> Inl (ExpectedMap i))"

fun parse_items :: "nat \<Rightarrow> any_val list \<Rightarrow> headerOp list \<Rightarrow> parse_err + headerOp list" where
  "parse_items i [] ops = Inr ops"
| "parse_items i (item # raw) ops =
     (case parse_op i item of
        Inl e \<Rightarrow> Inl e
      | Inr op \<Rightarrow> parse_items (Suc i) raw (ops @ [op]))"

definition parseOps :: "any_val gomap \<Rightarrow> string \<Rightarrow> parse_err + headerOp list" where
  "parseOps cfg sec = parse_items 0 (map_slice cfg sec) []"

text \<open>\<open>ops, _ := parseOps(...)\<close>\<close>

definition ops_of :: "parse_err + headerOp list \<Rightarrow> headerOp list" where
  "ops_of res = (case res of Inl _ \<Rightarrow> [] | Inr ops \<Rightarrow> ops)"

definition applyOp :: "header \<Rightarrow> headerOp \<Rightarrow> header" where
  "applyOp h op =
     (if hoOp op = ''set'' then Header_Set h (hoKey op) (hoValue op)
      else if hoOp op = ''add'' then Header_Add h (hoKey op) (hoValue op)
      else if hoOp op = ''del'' then Header_Del h (hoKey op)
      else h)"

definition stageOp :: "PipelineContext \<Rightarrow> headerOp \<Rightarrow> PipelineContext" where
  "stageOp pCtx op =
     (if hoOp op = ''set'' \<or> hoOp op = ''add'' then
        pCtx\<lparr>SetResponseHeaders := Header_Set (SetResponseHeaders pCtx) (hoKey op) (hoValue op)\<rparr>
      else if hoOp op = ''del'' then
        pCtx\<lparr>DeleteResponseHeaders := DeleteResponseHeaders pCtx @ [hoKey op]\<rparr>
      else pCtx)"

definition Header_Execute :: "'l plugin" where
  "Header_Execute pCtx cfg domain w r wd =
     (let requestOps = ops_of (parseOps cfg ''request'');
          responseOps = ops_of (parseOps cfg ''response'');
          r' = r\<lparr>ReqHeader := foldl applyOp (ReqHeader r) requestOps\<rparr>;
          pCtx' = foldl stageOp pCtx responseOps
      in (True, pCtx', w, r', emit (PluginTriggered domain ''header'' ''pass'') wd))"

interpretation header: plugin_contract Header_Execute
  by unfold_locales (auto simp: Header_Execute_def Let_def same_target_def)


section \<open>Parsing\<close>

definition op_valid :: "headerOp \<Rightarrow> bool" where
  "op_valid op \<longleftrightarrow> hoOp op \<in> {''set'', ''add'', ''del''} \<and> hoKey op \<noteq> []"

lemma parse_op_valid: "parse_op i item = Inr op \<Longrightarrow> op_valid op"
  by (auto simp: parse_op_def op_valid_def Let_def split: any_val.splits if_splits)

lemma parse_items_Inr:
  "parse_items i raw ops = Inr ops' \<longleftrightarrow>
   (\<exists>new. ops' = ops @ new \<and> list_all2 (\<lambda>item op. \<exists>j. parse_op j item = Inr op) raw new)"
proof (induction i raw ops rule: parse_items.induct)
  case (2 i item raw ops)
  have idx: "(\<exists>j. parse_op j item = Inr op) \<longleftrightarrow> parse_op i item = Inr op" for op
    by (auto simp: parse_op_def Let_def split: any_val.splits if_splits)
  show ?case
  proof (cases "parse_op i item")
    case (Inl e)
    then show ?thesis by (auto simp: list_all2_Cons1 idx)
  next
    case (Inr op)
    with 2 show ?thesis by (auto simp: list_all2_Cons1 idx)
  qed
qed auto

lemma list_all2_right: "list_all2 P xs ys \<Longrightarrow> y \<in> set ys \<Longrightarrow> \<exists>x. P x y"
  by (induction xs ys rule: list_all2_induct) auto

lemma parseOps_Inr:
  "parseOps cfg sec = Inr ops \<longleftrightarrow>
   list_all2 (\<lambda>item op. \<exists>j. parse_op j item = Inr op) (map_slice cfg sec) ops"
  by (simp add: parseOps_def parse_items_Inr)

lemma parseOps_valid: "op \<in> set (ops_of (parseOps cfg sec)) \<Longrightarrow> op_valid op"
proof (cases "parseOps cfg sec")
  case (Inr ops)
  moreover assume "op \<in> set (ops_of (parseOps cfg sec))"
  ultimately have "op \<in> set ops" by (simp add: ops_of_def)
  from list_all2_right [OF Inr [unfolded parseOps_Inr] this] show ?thesis
    using parse_op_valid by blast
qed (simp add: ops_of_def)


section \<open>What a list of operations does to the values of a key\<close>

fun spec_op :: "string list \<Rightarrow> string \<Rightarrow> string \<Rightarrow> string list" where
  "spec_op vs op v = (if op = ''set'' then [v] else if op = ''add'' then vs @ [v]
     else if op = ''del'' then [] else vs)"

fun spec_ops :: "headerOp list \<Rightarrow> string \<Rightarrow> string list \<Rightarrow> string list" where
  "spec_ops [] k vs = vs"
| "spec_ops (op # ops) k vs = spec_ops ops k
     (if CanonicalKey (hoKey op) = CanonicalKey k then spec_op vs (hoOp op) (hoValue op) else vs)"

lemma Header_Values_applyOp:
  "Header_Values (applyOp h op) k =
     (if CanonicalKey (hoKey op) = CanonicalKey k
      then spec_op (Header_Values h k) (hoOp op) (hoValue op) else Header_Values h k)"
proof -
  have "CanonicalKey (hoKey op) = CanonicalKey k \<Longrightarrow>
      Header_Values h (hoKey op) = Header_Values h k"
    by (simp add: Header_Values_def)
  then show ?thesis
    by (cases "CanonicalKey (hoKey op) = CanonicalKey k")
       (simp_all add: applyOp_def Header_Values_simps)
qed

lemma Header_Values_applyOps:
  "Header_Values (foldl applyOp h ops) k = spec_ops ops k (Header_Values h k)"
  by (induction ops arbitrary: h) (simp_all add: Header_Values_applyOp)

text \<open>What the staged mutations do to the response: the last set or add, unless deleted.\<close>

fun staged_value :: "headerOp list \<Rightarrow> string \<Rightarrow> string option" where
  "staged_value [] k = None"
| "staged_value (op # ops) k =
     (case staged_value ops k of
        Some v \<Rightarrow> Some v
      | None \<Rightarrow> if hoOp op \<noteq> ''del'' \<and> CanonicalKey (hoKey op) = k then Some (hoValue op) else None)"

lemma map_of_stageOps:
  "\<forall>op \<in> set ops. op_valid op \<Longrightarrow>
   map_of (SetResponseHeaders (foldl stageOp c ops)) k =
     (case staged_value ops k of Some v \<Rightarrow> Some [v] | None \<Rightarrow> map_of (SetResponseHeaders c) k)"
proof (induction ops arbitrary: c)
  case (Cons op ops)
  show ?case
    using Cons.IH [of "stageOp c op"] Cons.prems
    by (auto simp: stageOp_def op_valid_def split: option.splits)
qed simp

lemma stageOps_deleted:
  "\<forall>op \<in> set ops. op_valid op \<Longrightarrow>
   DeleteResponseHeaders (foldl stageOp c ops) =
     DeleteResponseHeaders c @ map hoKey (filter (\<lambda>op. hoOp op = ''del'') ops)"
  by (induction ops arbitrary: c) (auto simp: stageOp_def op_valid_def)

lemma stageOps_path [simp]: "RewrittenPath (foldl stageOp c ops) = RewrittenPath c"
  by (induction ops arbitrary: c) (auto simp: stageOp_def)

lemma canonical_header_Set: "canonical_header h \<Longrightarrow> canonical_header (Header_Set h k v)"
proof -
  assume h: "canonical_header h"
  have alt: "canonical_header h' \<longleftrightarrow> distinct (map fst h') \<and> (\<forall>k \<in> fst ` set h'. CanonicalKey k = k)"
    for h' by (simp add: canonical_header_def)
  from h show ?thesis unfolding alt by (simp add: Header_Set_def AList.dom_update)
qed


section \<open>Properties\<close>

text \<open>
  C36: after the plugin, the values of every request header are those the configured operations
  produce in order: \<open>set\<close> replaces, \<open>add\<close> appends, \<open>del\<close> removes.
\<close>

theorem Header_Execute_request:
  "Header_Values (ReqHeader (fst (snd (snd (snd (Header_Execute c cfg d w r wd)))))) k =
     spec_ops (ops_of (parseOps cfg ''request'')) k (Header_Values (ReqHeader r) k)"
  by (simp add: Header_Execute_def Let_def Header_Values_applyOps)

lemma canonical_stageOp:
  "canonical_header (SetResponseHeaders c) \<Longrightarrow> canonical_header (SetResponseHeaders (stageOp c op))"
  by (simp add: stageOp_def canonical_header_Set)

lemma canonical_stageOps:
  "canonical_header (SetResponseHeaders c) \<Longrightarrow> canonical_header (SetResponseHeaders (foldl stageOp c ops))"
  by (induction ops arbitrary: c) (simp_all add: canonical_stageOp)

text \<open>
  C37: what a fresh context staged by the plugin does to the response: a deleted header is gone
  wherever the \<open>del\<close> stands in the list, else the last \<open>set\<close> or \<open>add\<close> of the header is its only
  value, else the header is as before.
\<close>

theorem Header_Execute_response:
  assumes "SetResponseHeaders c = []" "DeleteResponseHeaders c = []"
  shows "map_of (wHeader (ApplyResponseMutations w0 (fst (snd (Header_Execute c cfg d w r wd))))) k =
    (let ops = ops_of (parseOps cfg ''response'')
     in if \<exists>op \<in> set ops. hoOp op = ''del'' \<and> CanonicalKey (hoKey op) = k then None
        else (case staged_value ops k of Some v \<Rightarrow> Some [v] | None \<Rightarrow> map_of (wHeader w0) k))"
proof -
  let ?ops = "ops_of (parseOps cfg ''response'')"
  have valid: "\<forall>op \<in> set ?ops. op_valid op" using parseOps_valid by blast
  have "canonical_header (SetResponseHeaders (foldl stageOp c ?ops))"
    by (rule canonical_stageOps) (simp add: assms(1) canonical_header_def)
  then show ?thesis
    by (auto simp: Header_Execute_def Let_def ApplyResponseMutations_def map_of_del_all map_of_set_all
        map_of_stageOps [OF valid] stageOps_deleted [OF valid] assms split: option.split)
qed

definition ex_ctx :: PipelineContext where
  "ex_ctx = \<lparr>RewrittenPath = ''/'', SetResponseHeaders = [], DeleteResponseHeaders = []\<rparr>"

definition ex_header_cfg :: "any_val gomap" where
  "ex_header_cfg = [(''response'',
     AList [AMap [(''op'', AString ''SET''), (''key'', AString ''x-a''), (''value'', AString ''1'')],
            AMap [(''op'', AString ''add''), (''key'', AString ''X-A''), (''value'', AString ''2'')]])]"

theorem Header_Execute_response_witness:
  "map_of (wHeader (ApplyResponseMutations new_writer
     (fst (snd (Header_Execute ex_ctx ex_header_cfg [] new_writer
        \<lparr>Host = [], URLPath = [], RawQuery = [], ReqHeader = [], RemoteAddr = []\<rparr>
        \<lparr>wclock = (\<lambda>_. 0), wticks = 0, wevents = [], wlimits = ()\<rparr>))))) ''X-A'' = Some [''2'']"
proof -
  have ops: "ops_of (parseOps ex_header_cfg ''response'') =
      [\<lparr>hoOp = ''set'', hoKey = ''x-a'', hoValue = ''1''\<rparr>, \<lparr>hoOp = ''add'', hoKey = ''X-A'', hoValue = ''2''\<rparr>]"
    by code_simp
  have can: "CanonicalKey ''X-A'' = ''X-A''" by code_simp
  show ?thesis
    by (subst Header_Execute_response) (simp_all add: ex_ctx_def ops can Let_def)
qed

end
