(* ===== verification/Rewrite.thy ===== *)
theory Rewrite
  imports HeaderPlugin
begin

text \<open>
  Package rewrite (\<open>rewrite.go\<close>): the rules of the configuration in order, the first whose
  pattern matches rewrites the path. The \<open>regexp\<close> package is the parameter \<open>regexp_ops\<close>.
\<close>

record 're regexp_ops =
  reCompile :: "string \<Rightarrow> 're option"
  reMatchString :: "'re \<Rightarrow> string \<Rightarrow> bool"
  reReplaceAllString :: "'re \<Rightarrow> string \<Rightarrow> string \<Rightarrow> string"

text \<open>The loop over the rules: the path of the first match, \<open>None\<close> when no rule matches.\<close>

fun rewrite_rules :: "'re regexp_ops \<Rightarrow> any_val list \<Rightarrow> string \<Rightarrow> string option" where
  "rewrite_rules X [] path = None"
| "rewrite_rules X (raw # rawRules) path =
     (case raw of
        AMap m \<Rightarrow>
          (let match = map_string m ''match''; replace = map_string m ''replace''
           in if match = [] then rewrite_rules X rawRules path
              else case reCompile X match of
                None \<Rightarrow> rewrite_rules X rawRules path
              | Some re \<Rightarrow>
                  if reMatchString X re path then Some (reReplaceAllString X re path replace)
                  else rewrite_rules X rawRules path)
      | _ \<Rightarrow> rewrite_rules X rawRules path)"

definition Rewrite_Execute :: "'re regexp_ops \<Rightarrow> 'l plugin" where
  "Rewrite_Execute X pCtx cfg domain w r wd =
     (case rewrite_rules X (map_slice cfg ''rules'') (RewrittenPath pCtx) of
        Some p \<Rightarrow> (True, pCtx\<lparr>RewrittenPath := p\<rparr>, w, r,
                   emit (PluginTriggered domain ''url_rewrite'' ''rewritten'') wd)
      | None \<Rightarrow> (True, pCtx, w, r, emit (PluginTriggered domain ''url_rewrite'' ''pass'') wd))"

interpretation rewrite: plugin_contract "Rewrite_Execute X" for X
  by unfold_locales (auto simp: Rewrite_Execute_def split: option.splits)

text \<open>A rule applies to a path when it is a map with a pattern that compiles and matches.\<close>

definition rule_result :: "'re regexp_ops \<Rightarrow> any_val \<Rightarrow> string \<Rightarrow> string option" where
  "rule_result X raw path =
     (case raw of
        AMap m \<Rightarrow>
          if map_string m ''match'' = [] then None
          else (case reCompile X (map_string m ''match'') of
            None \<Rightarrow> None
          | Some re \<Rightarrow>
              if reMatchString X re path
              then Some (reReplaceAllString X re path (map_string m ''replace'')) else None)
      | _ \<Rightarrow> None)"

lemma rewrite_rules_Cons:
  "rewrite_rules X (raw # rules) path =
     (case rule_result X raw path of Some p \<Rightarrow> Some p | None \<Rightarrow> rewrite_rules X rules path)"
  by (auto simp: rule_result_def Let_def split: any_val.splits option.splits)

lemma rewrite_rules_first:
  "\<forall>x \<in> set pre. rule_result X x path = None \<Longrightarrow> rule_result X raw path = Some p \<Longrightarrow>
   rewrite_rules X (pre @ raw # post) path = Some p"
  by (induction pre) (simp_all add: rewrite_rules_Cons del: rewrite_rules.simps(2))

lemma rewrite_rules_SomeD:
  "rewrite_rules X rules path = Some p \<Longrightarrow>
   \<exists>pre raw post. rules = pre @ raw # post \<and> rule_result X raw path = Some p \<and>
      (\<forall>x \<in> set pre. rule_result X x path = None)"
proof (induction rules)
  case (Cons raw rules)
  show ?case
  proof (cases "rule_result X raw path")
    case None
    with Cons.prems have "rewrite_rules X rules path = Some p"
      by (simp add: rewrite_rules_Cons del: rewrite_rules.simps(2))
    from Cons.IH [OF this] obtain pre raw' post where "rules = pre @ raw' # post"
      "rule_result X raw' path = Some p" "\<forall>x \<in> set pre. rule_result X x path = None" by blast
    with None show ?thesis by (intro exI [of _ "raw # pre"] exI [of _ raw'] exI [of _ post]) simp
  next
    case (Some q)
    with Cons.prems have "rule_result X raw path = Some p"
      by (simp add: rewrite_rules_Cons del: rewrite_rules.simps(2))
    then show ?thesis by (intro exI [of _ "[]"] exI [of _ raw] exI [of _ rules]) simp
  qed
qed simp

lemma rewrite_rules_None:
  "rewrite_rules X rules path = None \<longleftrightarrow> (\<forall>x \<in> set rules. rule_result X x path = None)"
  by (induction rules)
     (auto simp: rewrite_rules_Cons simp del: rewrite_rules.simps(2) split: option.splits)


section \<open>Properties\<close>

text \<open>
  The first rule that is a map with a compiling, matching pattern decides the path; rules
  that are malformed, do not compile or do not match are skipped; with no such rule the path
  stays, and the request goes on in either case.
\<close>

lemma Rewrite_first_match:
  "fst (Rewrite_Execute X c cfg d w r wd) \<and>
   RewrittenPath (fst (snd (Rewrite_Execute X c cfg d w r wd))) =
     (case find (\<lambda>raw. rule_result X raw (RewrittenPath c) \<noteq> None) (map_slice cfg ''rules'') of
        None \<Rightarrow> RewrittenPath c
      | Some raw \<Rightarrow> the (rule_result X raw (RewrittenPath c)))"
proof -
  have rules: "rewrite_rules X rules path =
      (case find (\<lambda>raw. rule_result X raw path \<noteq> None) rules of
         None \<Rightarrow> None | Some raw \<Rightarrow> rule_result X raw path)" for rules path
    by (induction rules) (auto simp: rewrite_rules_Cons simp del: rewrite_rules.simps(2) split: option.split)
  show ?thesis
  proof (cases "find (\<lambda>raw. rule_result X raw (RewrittenPath c) \<noteq> None) (map_slice cfg ''rules'')")
    case None
    then show ?thesis by (simp add: Rewrite_Execute_def rules)
  next
    case (Some raw)
    then obtain p where "rule_result X raw (RewrittenPath c) = Some p" by (auto simp: find_Some_iff)
    with Some show ?thesis by (simp add: Rewrite_Execute_def rules)
  qed
qed

end
