(* ===== verification/Plugins.thy ===== *)
theory Plugins
  imports RateLimit Rewrite
begin

text \<open>
  The plugins that \<open>domain/router.go\<close> links in by blank imports, in this order, each of whose
  \<open>init\<close> registers it under its type name. The registry meets the contract the pipeline relies on.
\<close>

definition init_header :: "'l registry \<Rightarrow> 'l registry" where
  "init_header reg = RegisterPlugin ''header'' Header_Execute reg"

definition init_ratelimit :: "'tb tb_ops \<Rightarrow> 'tb limits registry \<Rightarrow> 'tb limits registry" where
  "init_ratelimit T reg = RegisterPlugin ''rate_limit'' (RateLimit_Execute T) reg"

definition init_rewrite :: "'re regexp_ops \<Rightarrow> 'l registry \<Rightarrow> 'l registry" where
  "init_rewrite X reg = RegisterPlugin ''url_rewrite'' (Rewrite_Execute X) reg"

definition plugin_registry :: "'re regexp_ops \<Rightarrow> 'tb tb_ops \<Rightarrow> 'tb limits registry" where
  "plugin_registry X T = init_rewrite X (init_ratelimit T (init_header Map.empty))"

lemmas plugin_registry_defs =
  plugin_registry_def init_header_def init_ratelimit_def init_rewrite_def RegisterPlugin_def

text \<open>The three type names differ, so the order of the imports does not matter.\<close>

lemma init_order:
  "init_header (init_ratelimit T reg) = init_ratelimit T (init_header reg)"
  "init_rewrite X (init_ratelimit T reg') = init_ratelimit T (init_rewrite X reg')"
  "init_rewrite X (init_header reg'') = init_header (init_rewrite X reg'')"
  by (auto simp: plugin_registry_defs fun_upd_twist)

lemma plugin_registry_simps [simp]:
  "plugin_registry X T ''header'' = Some Header_Execute"
  "plugin_registry X T ''rate_limit'' = Some (RateLimit_Execute T)"
  "plugin_registry X T ''url_rewrite'' = Some (Rewrite_Execute X)"
  by (simp_all add: plugin_registry_defs)

lemma plugin_registry_cases:
  "plugin_registry X T t = Some pl \<Longrightarrow>
   pl = Header_Execute \<or> pl = RateLimit_Execute T \<or> pl = Rewrite_Execute X"
  by (auto simp: plugin_registry_defs split: if_splits)

lemma plugin_registry_contract: "plugin_registry X T t = Some pl \<Longrightarrow> plugin_contract pl"
  by (drule plugin_registry_cases)
     (elim disjE; hypsubst;
      rule header.plugin_contract_axioms ratelimit.plugin_contract_axioms
        rewrite.plugin_contract_axioms)

interpretation plugins: registry_contract "plugin_registry X T" for X T
  by (rule registry_contract.intro) (rule plugin_registry_contract)

text \<open>The rate limiter's invariant through the whole chain.\<close>

lemma run_plugins_limits_inv:
  "run_plugins (plugin_registry X T) cfgs d (c, w, r, wd) = (ok, c', w', r', wd') \<Longrightarrow>
   limits_inv (wlimits wd) \<Longrightarrow> limits_inv (wlimits wd')"
proof (induction cfgs arbitrary: c w r wd)
  case (Cons p cfgs)
  show ?case
  proof (cases "plugin_registry X T (pcType p)")
    case None
    with Cons show ?thesis by simp
  next
    case (Some pl)
    obtain ok1 c1 w1 r1 wd1 where e: "pl c (pcConfig p) d w r wd = (ok1, c1, w1, r1, wd1)"
      by (cases "pl c (pcConfig p) d w r wd") auto
    have "pl = Header_Execute \<or> pl = RateLimit_Execute T \<or> pl = Rewrite_Execute X"
      by (rule plugin_registry_cases [OF Some])
    then have inv: "limits_inv (wlimits wd1)"
      using e RateLimit_inv Cons.prems(2)
      by (auto simp: Header_Execute_def Rewrite_Execute_def Let_def split: option.splits)
    show ?thesis
    proof (cases ok1)
      case True
      with Some e Cons.prems(1) Cons.IH [OF _ inv] show ?thesis by simp
    next
      case False
      with Some e Cons.prems(1) inv show ?thesis by simp
    qed
  qed
qed simp

text \<open>Only the rate limiter short-circuits, with a 429 on the untouched writer.\<close>

lemma run_plugins_reject:
  "run_plugins (plugin_registry X T) cfgs d (c, w, r, wd) = (False, c', w', r', wd') \<Longrightarrow>
   w' = http_Error ''Too Many Requests'' 429 w"
proof (induction cfgs arbitrary: c w r wd)
  case (Cons p cfgs)
  show ?case
  proof (cases "plugin_registry X T (pcType p)")
    case None
    with Cons show ?thesis by simp
  next
    case (Some pl)
    obtain ok1 c1 w1 r1 wd1 where e: "pl c (pcConfig p) d w r wd = (ok1, c1, w1, r1, wd1)"
      by (cases "pl c (pcConfig p) d w r wd") auto
    show ?thesis
    proof (cases ok1)
      case True
      with e have "pl c (pcConfig p) d w r wd = (True, c1, w1, r1, wd1)" by simp
      then have "w1 = w" by (rule plugin_contract.pass [OF plugin_registry_contract [OF Some]])
      with Some e True Cons show ?thesis by simp
    next
      case False
      then have "pl = RateLimit_Execute T"
        using e plugin_registry_cases [OF Some]
        by (auto simp: Header_Execute_def Rewrite_Execute_def Let_def split: option.splits)
      with e False have "w1 = http_Error ''Too Many Requests'' 429 w"
        by (cases rule: RateLimit_cases [of T c "pcConfig p" d w r wd]) simp_all
      with Some e False Cons.prems show ?thesis by simp
    qed
  qed
qed simp

end
