(* ===== verification/Origin.thy ===== *)
theory Origin
  imports Httplib "HOL-Library.Word" "HOL-Library.Signed_Division"
begin

text \<open>
  Package origin (\<open>puller.go\<close>): round-robin choice of an origin, retries, and the request that
  is sent. The HTTP client and the network behind it are the record \<open>net_ops\<close> over their own
  state \<open>'o\<close>: whether a URL is accepted by \<open>http.NewRequestWithContext\<close>, and one exchange,
  which may fail (connection, timeout) or return a response whose body may still fail.

  The shared counter is a 64-bit word. Its conversion to \<open>int\<close> and Go's truncated \<open>%\<close> are
  written out, so the index can be negative; indexing then panics.
\<close>

text \<open>How a Go call ends.\<close>

datatype ('e, 'a) outcome = Panicked | Failed 'e | Returned 'a

record OutRequest =
  oURL :: string
  oHeader :: header
  oTimeout :: duration      \<comment> \<open>of this attempt\<close>
  oBudget :: duration       \<comment> \<open>of the context all attempts share\<close>

record 'o net_ops =
  netValidURL :: "string \<Rightarrow> bool"
  netDo :: "OutRequest \<Rightarrow> 'o \<Rightarrow> (string + Response) \<times> 'o"

datatype attempt_err = BuildRequest | ClientDo string | UpstreamStatus int
datatype pull_err = NoOrigins | AllFailed "(string \<times> attempt_err) option"

record 'o Puller =
  pCounter :: "64 word"
  pNet :: 'o

definition hopByHop :: "string \<Rightarrow> bool" where
  "hopByHop k \<longleftrightarrow> k \<in> set [''Connection'', ''Keep-Alive'', ''Proxy-Authenticate'',
     ''Proxy-Authorization'', ''Te'', ''Trailers'', ''Transfer-Encoding'', ''Upgrade'', ''Host'']"

fun add_values :: "header \<Rightarrow> string \<Rightarrow> string list \<Rightarrow> header" where
  "add_values dst k [] = dst"
| "add_values dst k (v # vs) = add_values (Header_Add dst k v) k vs"

fun copyHeaders :: "header \<Rightarrow> header \<Rightarrow> header" where
  "copyHeaders dst [] = dst"
| "copyHeaders dst ((k, vs) # src) =
     (if hopByHop k then copyHeaders dst src else copyHeaders (add_values dst k vs) src)"

definition Puller_do ::
  "'o net_ops \<Rightarrow> duration \<Rightarrow> string \<Rightarrow> string \<Rightarrow> header \<Rightarrow> duration \<Rightarrow> 'o \<Rightarrow>
   (attempt_err + Response) \<times> 'o" where
  "Puller_do N budget originBase path header timeout o1 =
     (let target = originBase @ path
      in if \<not> netValidURL N target then (Inl BuildRequest, o1)
         else (let outReq = \<lparr>oURL = target, oHeader = copyHeaders [] header,
                             oTimeout = timeout, oBudget = budget\<rparr>
               in case netDo N outReq o1 of
                    (Inl e, o2) \<Rightarrow> (Inl (ClientDo e), o2)
                  | (Inr resp, o2) \<Rightarrow>
                      if 500 \<le> StatusCode resp then (Inl (UpstreamStatus (StatusCode resp)), o2)
                      else (Inr resp, o2)))"

text \<open>
  The retry loop. The first argument after the origins is the number of iterations left,
  \<open>retry + 1\<close> at the start and none when \<open>retry\<close> is negative.
\<close>

fun pull_attempts ::
  "'o net_ops \<Rightarrow> duration \<Rightarrow> string list \<Rightarrow> duration \<Rightarrow> string \<Rightarrow> header \<Rightarrow> int \<Rightarrow>
   nat \<Rightarrow> int \<Rightarrow> (string \<times> attempt_err) option \<Rightarrow> 'o \<Rightarrow> (pull_err, Response) outcome \<times> 'o" where
  "pull_attempts N budget origins timeout path header start 0 attempt lastErr o1 =
     (Failed (AllFailed lastErr), o1)"
| "pull_attempts N budget origins timeout path header start (Suc m) attempt lastErr o1 =
     (let idx = (start + attempt) smod int (length origins)
      in if idx < 0 \<or> int (length origins) \<le> idx then (Panicked, o1)
         else (case Puller_do N budget (origins ! nat idx) path header timeout o1 of
                 (Inr resp, o2) \<Rightarrow> (Returned resp, o2)
               | (Inl e, o2) \<Rightarrow>
                   pull_attempts N budget origins timeout path header start m (attempt + 1)
                     (Some (origins ! nat idx, e)) o2))"

definition Puller_Pull ::
  "'o net_ops \<Rightarrow> duration \<Rightarrow> string list \<Rightarrow> duration \<Rightarrow> int \<Rightarrow> string \<Rightarrow> header \<Rightarrow> 'o Puller \<Rightarrow>
   (pull_err, Response) outcome \<times> 'o Puller" where
  "Puller_Pull N budget origins timeout retry path header p =
     (if origins = [] then (Failed NoOrigins, p)
      else let c = pCounter p + 1;
               n = int (length origins);
               start = sint (c - 1) smod n;
               (r, o1) = pull_attempts N budget origins timeout path header start
                           (nat (retry + 1)) 0 None (pNet p)
           in (r, \<lparr>pCounter = c, pNet = o1\<rparr>))"

definition New_Puller :: "'o \<Rightarrow> 'o Puller" where
  "New_Puller o1 = \<lparr>pCounter = 0, pNet = o1\<rparr>"


section \<open>Forwarded headers\<close>

lemma Header_Values_add_values:
  "Header_Values (add_values dst k vs) k' =
     (if CanonicalKey k' = CanonicalKey k then Header_Values dst k' @ vs else Header_Values dst k')"
proof (induction dst k vs rule: add_values.induct)
  case (2 dst k v vs)
  have "CanonicalKey k' = CanonicalKey k \<Longrightarrow> Header_Values dst k' = Header_Values dst k"
    by (simp add: Header_Values_def)
  with 2 show ?case by (auto simp: Header_Values_Add)
qed simp

lemma Header_Values_copyHeaders:
  assumes "distinct (map fst src)" "\<forall>k \<in> set (map fst src). CanonicalKey k = k"
    and "CanonicalKey k = k"
  shows "Header_Values (copyHeaders dst src) k =
    Header_Values dst k @ (if hopByHop k then [] else case map_of src k of None \<Rightarrow> [] | Some vs \<Rightarrow> vs)"
  using assms
proof (induction src arbitrary: dst)
  case (Cons kv src)
  obtain k1 vs where kv: "kv = (k1, vs)" by (cases kv)
  from Cons.prems have "map_of src k1 = None" by (simp add: kv map_of_eq_None_iff)
  with Cons show ?case by (auto simp: kv Header_Values_add_values)
qed simp


section \<open>The retry loop is a search along the rotated list of origins\<close>

fun first_success ::
  "(string \<Rightarrow> 'o \<Rightarrow> (attempt_err + Response) \<times> 'o) \<Rightarrow> string list \<Rightarrow>
   (string \<times> attempt_err) option \<Rightarrow> 'o \<Rightarrow> (pull_err, Response) outcome \<times> 'o" where
  "first_success f [] lastErr o1 = (Failed (AllFailed lastErr), o1)"
| "first_success f (x # xs) lastErr o1 =
     (case f x o1 of
        (Inr resp, o2) \<Rightarrow> (Returned resp, o2)
      | (Inl e, o2) \<Rightarrow> first_success f xs (Some (x, e)) o2)"

text \<open>The origins in the order they are tried.\<close>

definition rotation :: "string list \<Rightarrow> nat \<Rightarrow> nat \<Rightarrow> string list" where
  "rotation origins start m = map (\<lambda>i. origins ! ((start + i) mod length origins)) [0..<m]"

lemma rotation_Suc:
  "rotation origins start (Suc m) =
     origins ! (start mod length origins) # rotation origins (Suc start) m"
  by (simp add: rotation_def map_upt_Suc del: upt_Suc)

lemma pull_attempts_first_success:
  assumes "origins \<noteq> []" "0 \<le> start + attempt"
  shows "pull_attempts N budget origins timeout path header start m attempt lastErr o1 =
    first_success (\<lambda>x. Puller_do N budget x path header timeout)
      (rotation origins (nat (start + attempt)) m) lastErr o1"
  using assms
proof (induction m arbitrary: attempt lastErr o1)
  case 0
  show ?case by (simp add: rotation_def)
next
  case (Suc m)
  define n where "n = int (length origins)"
  have n: "0 < n" using Suc.prems(1) by (simp add: n_def)
  have idx: "(start + attempt) smod n = (start + attempt) mod n"
    by (rule smod_mod_positive) (use Suc.prems(2) n in auto)
  have rng: "0 \<le> (start + attempt) mod n" "(start + attempt) mod n < n"
    using n by simp_all
  have "nat ((start + attempt) mod n) = nat (start + attempt) mod length origins"
    using Suc.prems(2) by (simp add: n_def nat_mod_distrib)
  moreover have "nat (start + (attempt + 1)) = Suc (nat (start + attempt))"
    using Suc.prems(2) by simp
  ultimately show ?case
    using Suc.IH [OF Suc.prems(1), of "attempt + 1"] Suc.prems(2) rng
    by (simp add: rotation_Suc idx n_def [symmetric] Let_def split: prod.split sum.split)
qed

text \<open>A counter below \<open>2 ^ 63\<close> never panics, and the call is a search along the rotation.\<close>

lemma Pull_first_success:
  assumes "origins \<noteq> []" "uint (pCounter p) < 2 ^ 63"
  shows "Puller_Pull N budget origins timeout retry path header p =
    (case first_success (\<lambda>x. Puller_do N budget x path header timeout)
        (rotation origins (unat (pCounter p)) (nat (retry + 1))) None (pNet p) of
       (r, o1) \<Rightarrow> (r, \<lparr>pCounter = pCounter p + 1, pNet = o1\<rparr>))"
proof -
  define n where "n = int (length origins)"
  have n: "0 < n" using assms(1) by (simp add: n_def)
  have s: "sint (pCounter p) = uint (pCounter p)"
    unfolding sint_uint by (rule signed_take_bit_int_eq_self)
      (use assms(2) order_trans [OF _ uint_ge_0 [of "pCounter p"]] in auto)
  have start: "sint (pCounter p) smod n = uint (pCounter p) mod n"
    unfolding s by (rule smod_mod_positive) (use n in auto)
  have "nat (uint (pCounter p) mod n) = unat (pCounter p) mod length origins"
    by (simp add: n_def nat_mod_distrib)
  then have rot: "rotation origins (nat (uint (pCounter p) mod n)) m = rotation origins (unat (pCounter p)) m" for m
    by (simp add: rotation_def mod_add_left_eq)
  have nonneg: "0 \<le> uint (pCounter p) mod n + 0" using n by simp
  show ?thesis
    using n by (simp add: Puller_Pull_def assms(1) Let_def start n_def [symmetric] rot
        pull_attempts_first_success [OF assms(1) nonneg])
qed

lemma first_success_Returned:
  "first_success f xs e o1 = (Returned r, o2) \<Longrightarrow>
   \<exists>x \<in> set xs. \<exists>o3. f x o3 = (Inr r, o2)"
  by (induction xs arbitrary: e o1) (auto split: prod.splits sum.splits)

lemma first_success_no_panic: "fst (first_success f xs e o1) \<noteq> Panicked"
  by (induction xs arbitrary: e o1) (auto split: prod.splits sum.splits)

text \<open>What comes back, whatever the counter: never a 5xx.\<close>

lemma Puller_do_status: "Puller_do N budget x path header timeout o1 = (Inr r, o2) \<Longrightarrow> StatusCode r < 500"
  by (auto simp: Puller_do_def Let_def split: if_splits prod.splits sum.splits)

lemma pull_attempts_status:
  "pull_attempts N budget origins timeout path header start m attempt lastErr o1 = (Returned r, o2) \<Longrightarrow>
   StatusCode r < 500"
  by (induction m arbitrary: attempt lastErr o1)
     (auto simp: Let_def split: if_splits prod.splits sum.splits dest: Puller_do_status)

lemma Pull_status:
  "Puller_Pull N budget origins timeout retry path header p = (Returned r, p') \<Longrightarrow> StatusCode r < 500"
  by (auto simp: Puller_Pull_def Let_def split: if_splits prod.splits dest: pull_attempts_status)

text \<open>With at least as many retries as other origins, every origin is in the rotation.\<close>

lemma rotation_complete:
  assumes "length origins \<le> m" "x \<in> set origins"
  shows "x \<in> set (rotation origins start m)"
proof -
  obtain j where j: "j < length origins" "x = origins ! j"
    using assms(2) by (auto simp: in_set_conv_nth)
  define n where "n = length origins"
  define i where "i = (j + n - start mod n) mod n"
  have n: "0 < n" using j(1) by (cases origins) (auto simp: n_def)
  then have lt: "start mod n < n" by simp
  have "(start + i) mod n = (start mod n + (j + n - start mod n)) mod n"
    by (simp add: i_def mod_simps)
  also have "\<dots> = (j + n) mod n" using lt by simp
  also have "\<dots> = j" using j by (simp add: n_def)
  finally have "(start + i) mod n = j" .
  moreover have "i < m" using assms(1) n by (simp add: i_def n_def order_less_le_trans [OF mod_less_divisor])
  ultimately show ?thesis using j by (auto simp: rotation_def n_def intro!: image_eqI [of _ _ i])
qed

lemma first_success_Failed:
  "first_success f xs e o1 = (Failed err, o2) \<Longrightarrow> x \<in> set xs \<Longrightarrow> \<exists>o3 a o4. f x o3 = (Inl a, o4)"
  by (induction xs arbitrary: e o1) (auto split: prod.splits sum.splits)


section \<open>Properties\<close>

text \<open>
  C27: round robin with retry. From a counter below \<open>2 ^ 63\<close>, \<open>Pull\<close> tries the origins from the
  counter's position on, cyclically, \<open>retry + 1\<close> of them, and returns the first response that
  is not an error or a 5xx; it moves the counter by one and does not panic.
\<close>

theorem Pull_round_robin:
  assumes "origins \<noteq> []" "uint (pCounter p) < 2 ^ 63"
  shows "Puller_Pull N budget origins timeout retry path header p =
      (case first_success (\<lambda>x. Puller_do N budget x path header timeout)
          (rotation origins (unat (pCounter p)) (nat (retry + 1))) None (pNet p) of
         (r, o1) \<Rightarrow> (r, \<lparr>pCounter = pCounter p + 1, pNet = o1\<rparr>)) \<and>
    fst (Puller_Pull N budget origins timeout retry path header p) \<noteq> Panicked"
  using first_success_no_panic by (simp add: Pull_first_success [OF assms] split_beta)

text \<open>An example network: origin \<open>a\<close> fails, \<open>b\<close> answers 503, \<open>c\<close> answers 404.\<close>

definition ex_response :: "int \<Rightarrow> bytes \<Rightarrow> Response" where
  "ex_response code b = \<lparr>StatusCode = code, RespHeader = [], RespBody = bytes_reader b\<rparr>"

definition ex_net :: "string list net_ops" where
  "ex_net = \<lparr>netValidURL = (\<lambda>_. True),
     netDo = (\<lambda>q log. (if hd (oURL q) = CHR ''a'' then Inl ''refused''
                       else if hd (oURL q) = CHR ''b'' then Inr (ex_response 503 [])
                       else Inr (ex_response 404 ''no''), log @ [oURL q]))\<rparr>"

theorem Pull_round_robin_witness:
  "Puller_Pull ex_net Second [''c'', ''a'', ''b''] Second 2 ''/x'' [] \<lparr>pCounter = 4, pNet = []\<rparr> =
     (Returned (ex_response 404 ''no''), \<lparr>pCounter = 5, pNet = [''a/x'', ''b/x'', ''c/x'']\<rparr>)"
proof -
  have "[''c'', ''a'', ''b''] \<noteq> []" "uint (pCounter \<lparr>pCounter = 4, pNet = [] :: string list\<rparr>) < 2 ^ 63"
    by simp_all
  note r = Pull_round_robin [OF this, of ex_net Second Second 2 "''/x''" "[]"]
  have rot: "rotation [''c'', ''a'', ''b''] 4 3 = [''a'', ''b'', ''c'']" by code_simp
  show ?thesis
    using conjunct1 [OF r]
    by (simp add: rot Puller_do_def ex_net_def ex_response_def Let_def)
qed

text \<open>
  The counter is converted to a signed integer, so from \<open>2 ^ 63\<close> on the start index is
  negative and \<open>Pull\<close> panics with an index out of range.
\<close>

lemma Pull_counter_panics:
  "fst (Puller_Pull N budget [x, y, z] timeout 0 path header \<lparr>pCounter = 2 ^ 63, pNet = o1\<rparr>) = Panicked"
proof -
  have s: "sint (2 ^ 63 :: 64 word) = - (2 ^ 63)" by code_simp
  show ?thesis by (simp add: Puller_Pull_def Let_def s)
qed

text \<open>
  With at least one retry per further origin, \<open>Pull\<close> gives up only after every configured
  origin has failed.
\<close>

lemma Pull_exhausts_origins:
  assumes "origins \<noteq> []" "uint (pCounter p) < 2 ^ 63" "int (length origins) \<le> retry + 1"
    and "fst (Puller_Pull N budget origins timeout retry path header p) = Failed e" "x \<in> set origins"
  shows "\<exists>o1 a o2. Puller_do N budget x path header timeout o1 = (Inl a, o2)"
proof -
  have "x \<in> set (rotation origins (unat (pCounter p)) (nat (retry + 1)))"
    by (rule rotation_complete [OF _ assms(5)]) (use assms(3) in linarith)
  moreover obtain o2 where "first_success (\<lambda>x. Puller_do N budget x path header timeout)
      (rotation origins (unat (pCounter p)) (nat (retry + 1))) None (pNet p) = (Failed e, o2)"
    using assms(4) by (auto simp: Pull_first_success [OF assms(1,2)] split: prod.splits)
  ultimately show ?thesis using first_success_Failed by fast
qed

text \<open>
  The fields RFC 2616 (13.5.1) lists as hop-by-hop, with the name of the field \<open>Trailer\<close> as its section
  14.40 has it and all as Go spells them; the table of the code is compared with this list. Fields
  that a client names in \<open>Connection\<close> are hop-by-hop too, but the code does not look at its value.
\<close>

definition rfc_hop_by_hop :: "string list" where
  "rfc_hop_by_hop = [''Connection'', ''Keep-Alive'', ''Proxy-Authenticate'', ''Proxy-Authorization'', ''Te'',
     ''Trailer'', ''Transfer-Encoding'', ''Upgrade'']"

text \<open>
  C38: of the fields that RFC 2616 lists as hop-by-hop the headers for an origin carry none but
  \<open>Trailer\<close>, which is forwarded like any other field because the table of the code says \<open>Trailers\<close>;
  \<open>Trailers\<close> and \<open>Host\<close> are dropped too, and every other field is carried with all its values in
  order, also one that the client names in \<open>Connection\<close>.
\<close>

theorem forwarded_headers:
  assumes "distinct (map fst src)" "\<forall>k \<in> set (map fst src). CanonicalKey k = k" "CanonicalKey k = k"
  shows "Header_Values (copyHeaders [] src) k =
    (if k \<in> set rfc_hop_by_hop \<and> k \<noteq> ''Trailer'' \<or> k = ''Trailers'' \<or> k = ''Host'' then []
     else Header_Values src k)"
proof -
  have "hopByHop k \<longleftrightarrow> k \<in> set rfc_hop_by_hop \<and> k \<noteq> ''Trailer'' \<or> k = ''Trailers'' \<or> k = ''Host''"
    by (auto simp: hopByHop_def rfc_hop_by_hop_def)
  then show ?thesis
    using Header_Values_copyHeaders [OF assms, of "[]"] assms(3) by (simp add: Header_Values_def)
qed

theorem forwarded_headers_witness:
  "Header_Values (copyHeaders [] [(''Te'', [''x'']), (''Trailer'', [''a'', ''b''])]) ''Te'' = [] \<and>
   Header_Values (copyHeaders [] [(''Te'', [''x'']), (''Trailer'', [''a'', ''b''])]) ''Trailer'' = [''a'', ''b'']"
proof -
  let ?src = "[(''Te'', [''x'']), (''Trailer'', [''a'', ''b''])]"
  have c: "CanonicalKey ''Trailer'' = ''Trailer''" "CanonicalKey ''Te'' = ''Te''" by code_simp+
  have "distinct (map fst ?src)" "\<forall>k \<in> set (map fst ?src). CanonicalKey k = k" by (simp_all add: c)
  from forwarded_headers [OF this c(1)] forwarded_headers [OF this c(2)] show ?thesis
    by (simp add: c Header_Values_def rfc_hop_by_hop_def)
qed

end
