(* ===== verification/DomainHandler.thy ===== *)
theory DomainHandler
  imports CacheKey TTL Singleflight Flush Plugins Origin
begin

text \<open>
  Package domain (\<open>router.go\<close>): the handler of the business server. \<open>deps\<close> holds what the
  handler is built from and never changes (the storage methods, codecs, \<open>singleflight\<close>, the
  HTTP client, the plugin registry, the key builder); \<open>node\<close> is the state that requests, admin
  calls and hot reloads change. The domain table is part of it, because \<open>Update\<close> replaces it.

  A handler returns its response writer, or panics: the origin puller's index can be negative,
  and \<open>singleflight\<close> re-raises a panic of its closure. Inside \<open>GetOrFetch\<close> that panic is the
  error \<open>FetchPanic\<close>, which leaves no trace in the cache either. A crash carries the writer as the
  panic leaves it to the middleware.
\<close>

section \<open>State\<close>

datatype served = Done ResponseWriter | Crashed ResponseWriter

datatype fetch_err = FetchPull pull_err | FetchBody string | FetchPanic

record ('s, 'o, 'l) deps =
  dStorage :: "'s storage_ops"
  dFmt :: fmt
  dRules :: rules_codec
  dSha1 :: "bytes \<Rightarrow> bytes"
  dParseTime :: "string \<Rightarrow> time option"
  dNet :: "'o net_ops"
  dRegistry :: "'l registry"
  dKeyBuilder :: KeyBuilder
  dDo :: "(fetch_err, LRUCache \<times> 's, 'o Puller \<times> 'l world) group_do"

text \<open>The cache of \<open>main\<close> behind \<open>singleflight\<close>: the LRU cache over the storage.\<close>

abbreviation dCache :: "('s, 'o, 'l) deps \<Rightarrow> (LRUCache \<times> 's) Cache" where
  "dCache D \<equiv> LRUCache_ops (dStorage D) (dFmt D)"

record ('s, 'o, 'l) node =
  nDomains :: "string \<rightharpoonup> DomainConfig"
  nCache :: LRUCache
  nStorage :: 's
  nFlush :: Store
  nPuller :: "'o Puller"
  nWorld :: "'l world"

definition NewHandler :: "LRUCache \<Rightarrow> 's \<Rightarrow> Store \<Rightarrow> 'o Puller \<Rightarrow> 'l world \<Rightarrow> ('s, 'o, 'l) node" where
  "NewHandler c st fs p wd =
     \<lparr>nDomains = Map.empty, nCache = c, nStorage = st, nFlush = fs, nPuller = p, nWorld = wd\<rparr>"

fun domain_table :: "DomainConfig list \<Rightarrow> (string \<rightharpoonup> DomainConfig) \<Rightarrow> (string \<rightharpoonup> DomainConfig)" where
  "domain_table [] m = m"
| "domain_table (d # ds) m = domain_table ds (m(Domain d \<mapsto> d))"

definition Update :: "DomainConfig list \<Rightarrow> ('s, 'o, 'l) node \<Rightarrow> ('s, 'o, 'l) node" where
  "Update domains n = n\<lparr>nDomains := domain_table domains Map.empty\<rparr>"

definition stripPort :: "string \<Rightarrow> string" where
  "stripPort host = (case last_index (CHR '':'') host of Some i \<Rightarrow> take i host | None \<Rightarrow> host)"


section \<open>The fetch closure\<close>

definition originPath :: "PipelineContext \<Rightarrow> Request \<Rightarrow> string" where
  "originPath pCtx r =
     RewrittenPath pCtx @ (if RawQuery r \<noteq> [] then ''?'' @ RawQuery r else [])"

definition pull_events :: "string \<Rightarrow> int \<Rightarrow> event list" where
  "pull_events domain code = [OriginPulls domain [] (show_int code), ObservePull domain]"

definition originFetch ::
  "('s, 'o, 'l) deps \<Rightarrow> DomainConfig \<Rightarrow> PipelineContext \<Rightarrow> Request \<Rightarrow> string \<Rightarrow>
   (fetch_err, 'o Puller \<times> 'l world) fetch" where
  "originFetch D cfg pCtx r key =
     (let path = originPath pCtx r;
          header = ReqHeader r;
          budget = wrap64 (OriginTimeout cfg * (OriginRetry cfg + 2))
      in (\<lambda>(p, wd).
           case Puller_Pull (dNet D) budget (Origins cfg) (OriginTimeout cfg) (OriginRetry cfg)
                  path header p of
             (Panicked, p1) \<Rightarrow> (Inl FetchPanic, p1, wd)
           | (Failed e, p1) \<Rightarrow> (Inl (FetchPull e), p1, wd)
           | (Returned resp, p1) \<Rightarrow>
               (case ReadAll (RespBody resp) of
                  Inl e \<Rightarrow> (Inl (FetchBody e), p1, wd)
                | Inr body \<Rightarrow>
                    (let (now1, wd1) = time_Now wd;
                         ttl = ParseTTL (dParseTime D) now1 (RespHeader resp) (DefaultTTL cfg);
                         (now2, wd2) = time_Now wd1;
                         meta = \<lparr>mKey = key, WrittenAt = now2, TTL = ttl,
                                 mSize = int (length body), mHeaders = Some (RespHeader resp)\<rparr>;
                         wd3 = emits (pull_events (Domain cfg) (StatusCode resp)) wd2
                     in (Inr (bytes_reader body, meta), p1, wd3)))))"


section \<open>ServeHTTP\<close>

text \<open>Step 3: a flush rule newer than the entry evicts it.\<close>

definition flush_check ::
  "('s, 'o, 'l) deps \<Rightarrow> string \<Rightarrow> string \<Rightarrow> string \<Rightarrow> ('s, 'o, 'l) node \<Rightarrow> ('s, 'o, 'l) node" where
  "flush_check D domain path key n =
     (case SingleflightCache_Stat (dCache D) key (nCache n, nStorage n) of
        Inl _ \<Rightarrow> n
      | Inr meta \<Rightarrow>
          (case Store_Match domain path (nFlush n) of
             None \<Rightarrow> n
           | Some rule \<Rightarrow>
               if After (rCreatedAt rule) (WrittenAt meta) then
                 (let (e, c, st) = SingleflightCache_Delete (dCache D) key (nCache n, nStorage n)
                  in n\<lparr>nCache := c, nStorage := st\<rparr>)
               else n))"

text \<open>Step 5: the response.\<close>

definition write_response ::
  "bool \<Rightarrow> PipelineContext \<Rightarrow> reader \<Rightarrow> Meta \<Rightarrow> ResponseWriter \<Rightarrow> ResponseWriter" where
  "write_response cacheHit pCtx rc meta w =
     (let w1 = ApplyResponseMutations w pCtx;
          w2 = (case mHeaders meta of None \<Rightarrow> w1 | Some h \<Rightarrow> set_all h w1);
          w3 = set_wHeader ''X-Cache'' (if cacheHit then ''hit'' else ''miss'') w2;
          w4 = WriteHeader 200 w3
      in Write (rd_data rc) w4)"

text \<open>What a served request counts.\<close>

definition served_events :: "bool \<Rightarrow> string \<Rightarrow> event list" where
  "served_events cacheHit domain =
     [if cacheHit then CacheHits domain else CacheMisses domain,
      ObserveRequest domain (if cacheHit then ''true'' else ''false'')]"

text \<open>Steps 3 to 5, once the pipeline has let the request through.\<close>

definition serve_cached ::
  "('s, 'o, 'l) deps \<Rightarrow> DomainConfig \<Rightarrow> PipelineContext \<Rightarrow> ResponseWriter \<Rightarrow> Request \<Rightarrow>
   ('s, 'o, 'l) node \<Rightarrow> served \<times> ('s, 'o, 'l) node" where
  "serve_cached D cfg pCtx w r n =
     (let key = Build (dSha1 D) (dKeyBuilder D) (Domain cfg) (RewrittenPath pCtx) r (KeyRules cfg);
          n1 = flush_check D (Domain cfg) (RewrittenPath pCtx) key n;
          cacheHit = (case SingleflightCache_Stat (dCache D) key (nCache n1, nStorage n1) of
                        Inl _ \<Rightarrow> False | Inr _ \<Rightarrow> True);
          (now1, wd1) = time_Now (nWorld n1);
          (now2, wd2) = time_Now wd1
      in case GetOrFetch (dCache D) (dDo D) now1 now2 key (originFetch D cfg pCtx r key)
                ((nCache n1, nStorage n1), nPuller n1, wd2) of
           (res, (c, st), p, wd3) \<Rightarrow>
             (let n2 = n1\<lparr>nCache := c, nStorage := st, nPuller := p, nWorld := wd3\<rparr>
              in case res of
                   Inl (SFFetch FetchPanic) \<Rightarrow> (Crashed w, n2)
                 | Inl _ \<Rightarrow> (Done (http_Error ''Bad Gateway'' 502 w), n2)
                 | Inr (rc, meta) \<Rightarrow>
                     (Done (write_response cacheHit pCtx rc meta w),
                      n2\<lparr>nWorld := emits (served_events cacheHit (Domain cfg)) wd3\<rparr>)))"

definition ServeHTTP ::
  "('s, 'o, 'l) deps \<Rightarrow> Request \<Rightarrow> ResponseWriter \<Rightarrow> ('s, 'o, 'l) node \<Rightarrow>
   served \<times> ('s, 'o, 'l) node" where
  "ServeHTTP D r w n =
     (case nDomains n (stripPort (Host r)) of
        None \<Rightarrow> (Done (http_NotFound w), n)
      | Some cfg \<Rightarrow>
          (case Pipeline_Execute (dRegistry D) (Plugins cfg) (Domain cfg) w r (nWorld n) of
             (ok, pCtx, w1, r1, wd1) \<Rightarrow>
               (let n1 = n\<lparr>nWorld := wd1\<rparr>
                in if ok then serve_cached D cfg pCtx w1 r1 n1 else (Done w1, n1))))"


section \<open>Lookup of the domain\<close>

lemma domain_table_append: "domain_table (ds @ [d]) m = (domain_table ds m)(Domain d \<mapsto> d)"
  by (induction ds arbitrary: m) auto

text \<open>The last entry of the configuration with the name wins.\<close>

lemma domain_table_find:
  "domain_table ds Map.empty h = find (\<lambda>d. Domain d = h) (rev ds)"
  by (induction ds rule: rev_induct) (auto simp: domain_table_append)

lemma domain_table_Domain: "domain_table ds Map.empty h = Some d \<Longrightarrow> Domain d = h"
  by (simp add: domain_table_find find_Some_iff) blast

lemma stripPort_port: "CHR '':'' \<notin> set p \<Longrightarrow> stripPort (h @ CHR '':'' # p) = h"
  by (simp add: stripPort_def last_index_append)

lemma stripPort_none: "CHR '':'' \<notin> set h \<Longrightarrow> stripPort h = h"
  by (simp add: stripPort_def last_index_None split: option.split)
     (metis last_index_None option.distinct(1))


section \<open>The flush check\<close>

definition entry_of :: "('s, 'o, 'l) node \<Rightarrow> string \<Rightarrow> Meta option" where
  "entry_of n key = map_option (vals (nCache n)) (items (nCache n) key)"

lemma Stat_entry:
  "SingleflightCache_Stat (dCache D) key (nCache n, nStorage n) =
     (case entry_of n key of None \<Rightarrow> Inl (CacheNotFound key) | Some m \<Rightarrow> Inr m)"
  by (simp add: SingleflightCache_Stat_def LRUCache_Stat_def entry_of_def split: option.split)

definition flush_hits :: "string \<Rightarrow> string \<Rightarrow> string \<Rightarrow> ('s, 'o, 'l) node \<Rightarrow> bool" where
  "flush_hits domain path key n \<longleftrightarrow>
     (case entry_of n key of None \<Rightarrow> False
      | Some m \<Rightarrow> flushed_after (nFlush n) domain path (WrittenAt m))"

lemma flush_check_eq:
  "flush_check D domain path key n =
     (if flush_hits domain path key n then
        (let cs = run_op (dStorage D) (dFmt D) (OpDelete key) (nCache n, nStorage n)
         in n\<lparr>nCache := fst cs, nStorage := snd cs\<rparr>)
      else n)"
proof (cases "entry_of n key")
  case None
  then show ?thesis by (simp add: flush_check_def Stat_entry flush_hits_def)
next
  case (Some m)
  have "flush_hits domain path key n \<longleftrightarrow>
      (case Store_Match domain path (nFlush n) of None \<Rightarrow> False
       | Some r \<Rightarrow> After (rCreatedAt r) (WrittenAt m))"
    unfolding flush_hits_def Match_decides by (simp add: Some)
  with Some show ?thesis
    by (auto simp: flush_check_def Stat_entry SingleflightCache_Delete_def Let_def
        split: option.splits prod.splits)
qed

lemma flush_check_frame [simp]:
  "nDomains (flush_check D domain path key n) = nDomains n"
  "nFlush (flush_check D domain path key n) = nFlush n"
  "nPuller (flush_check D domain path key n) = nPuller n"
  "nWorld (flush_check D domain path key n) = nWorld n"
  by (simp_all add: flush_check_eq Let_def)

definition flush_history :: "string \<Rightarrow> string \<Rightarrow> string \<Rightarrow> ('s, 'o, 'l) node \<Rightarrow> cache_op list" where
  "flush_history domain path key n = (if flush_hits domain path key n then [OpDelete key] else [])"

lemma flush_check_history:
  "(nCache (flush_check D domain path key n), nStorage (flush_check D domain path key n)) =
   fold (run_op (dStorage D) (dFmt D)) (flush_history domain path key n) (nCache n, nStorage n)"
  by (simp add: flush_check_eq flush_history_def Let_def)

lemma Delete_gone:
  assumes "lru_inv c" shows "items (fst (snd (LRUCache_Delete S k (c, st)))) k = None"
proof (cases "items c k")
  case None
  then show ?thesis by (simp add: LRUCache_Delete_def Let_def split_beta)
next
  case (Some e)
  moreover have "mKey (vals c e) = k"
    using assms Some lru_wf_items by (auto simp: lru_inv_def)
  ultimately show ?thesis by (simp add: LRUCache_Delete_def Let_def split_beta)
qed

text \<open>After the check, an entry that is still indexed is older than no rule covering it.\<close>

lemma flush_check_entry:
  assumes "lru_inv (nCache n)"
  shows "entry_of (flush_check D domain path key n) key =
    (if flush_hits domain path key n then None else entry_of n key)"
  using Delete_gone [OF assms, of "dStorage D" key "nStorage n"]
  by (simp add: flush_check_eq entry_of_def Let_def)

lemma flush_check_inv:
  assumes "lru_inv (nCache n)" shows "lru_inv (nCache (flush_check D domain path key n))"
proof (cases "LRUCache_Delete (dStorage D) key (nCache n, nStorage n)")
  case (fields e c st)
  with Delete_refines_spec [OF assms fields] assms show ?thesis
    by (simp add: flush_check_eq Let_def)
qed


section \<open>The fetch closure\<close>

lemma originFetch_Inr:
  assumes "originFetch D cfg pCtx r key (p, wd) = (Inr (rd, m), p1, wd1)"
  obtains resp body where
    "Puller_Pull (dNet D) (wrap64 (OriginTimeout cfg * (OriginRetry cfg + 2))) (Origins cfg)
       (OriginTimeout cfg) (OriginRetry cfg) (originPath pCtx r) (ReqHeader r) p = (Returned resp, p1)"
    "ReadAll (RespBody resp) = Inr body" "rd = bytes_reader body"
    "m = \<lparr>mKey = key, WrittenAt = wclock wd (Suc (wticks wd)),
          TTL = ParseTTL (dParseTime D) (wclock wd (wticks wd)) (RespHeader resp) (DefaultTTL cfg),
          mSize = int (length body), mHeaders = Some (RespHeader resp)\<rparr>"
    "wd1 = emits (pull_events (Domain cfg) (StatusCode resp))
             (wd\<lparr>wticks := Suc (Suc (wticks wd))\<rparr>)"
  using assms
  by (auto simp: originFetch_def Let_def time_Now_def split: prod.splits outcome.splits sum.splits)

lemma originFetch_fetched:
  "fetched (originFetch D cfg pCtx r key) (p, wd) =
     (case fst (originFetch D cfg pCtx r key (p, wd)) of
        Inl _ \<Rightarrow> None | Inr (rd, m) \<Rightarrow> Some (rd_data rd, m))"
proof (cases "originFetch D cfg pCtx r key (p, wd)")
  case (fields res p1 wd1)
  show ?thesis
  proof (cases res)
    case (Inr x)
    obtain rd m where x: "x = (rd, m)" by (cases x)
    with fields Inr have "originFetch D cfg pCtx r key (p, wd) = (Inr (rd, m), p1, wd1)" by simp
    then obtain body where "rd = bytes_reader body" by (rule originFetch_Inr)
    with fields Inr x show ?thesis by (simp add: fetched_def)
  qed (simp add: fetched_def fields)
qed

lemma originFetch_key:
  "originFetch D cfg pCtx r key w = (Inr (rd, m), w1) \<Longrightarrow> mKey m = key"
  by (cases w; cases w1) (auto elim!: originFetch_Inr)


section \<open>Steps 3 to 5\<close>

definition serve_key ::
  "('s, 'o, 'l) deps \<Rightarrow> DomainConfig \<Rightarrow> PipelineContext \<Rightarrow> Request \<Rightarrow> string" where
  "serve_key D cfg pCtx r =
     Build (dSha1 D) (dKeyBuilder D) (Domain cfg) (RewrittenPath pCtx) r (KeyRules cfg)"

text \<open>The node after the flush check, the world after the two lookups' clock readings, and the
  results of the first lookup and of the fetch.\<close>

definition checked ::
  "('s, 'o, 'l) deps \<Rightarrow> DomainConfig \<Rightarrow> PipelineContext \<Rightarrow> Request \<Rightarrow> ('s, 'o, 'l) node \<Rightarrow>
   ('s, 'o, 'l) node" where
  "checked D cfg pCtx r n = flush_check D (Domain cfg) (RewrittenPath pCtx) (serve_key D cfg pCtx r) n"

definition look_world :: "'l world \<Rightarrow> 'l world" where
  "look_world wd = wd\<lparr>wticks := Suc (Suc (wticks wd))\<rparr>"

definition look_time :: "('s, 'o, 'l) node \<Rightarrow> time" where
  "look_time n = wclock (nWorld n) (wticks (nWorld n))"

definition first_look ::
  "('s, 'o, 'l) deps \<Rightarrow> DomainConfig \<Rightarrow> PipelineContext \<Rightarrow> Request \<Rightarrow> ('s, 'o, 'l) node \<Rightarrow>
   (cache_err + reader \<times> Meta) \<times> LRUCache \<times> 's" where
  "first_look D cfg pCtx r n =
     LRUCache_Get (dStorage D) (look_time n) (serve_key D cfg pCtx r)
       (nCache (checked D cfg pCtx r n), nStorage (checked D cfg pCtx r n))"

definition fetch_look ::
  "('s, 'o, 'l) deps \<Rightarrow> DomainConfig \<Rightarrow> PipelineContext \<Rightarrow> Request \<Rightarrow> ('s, 'o, 'l) node \<Rightarrow>
   (fetch_err + reader \<times> Meta) \<times> 'o Puller \<times> 'l world" where
  "fetch_look D cfg pCtx r n =
     originFetch D cfg pCtx r (serve_key D cfg pCtx r) (nPuller n, look_world (nWorld n))"

definition indexed :: "('s, 'o, 'l) deps \<Rightarrow> DomainConfig \<Rightarrow> PipelineContext \<Rightarrow> Request \<Rightarrow>
   ('s, 'o, 'l) node \<Rightarrow> bool" where
  "indexed D cfg pCtx r n \<longleftrightarrow> entry_of (checked D cfg pCtx r n) (serve_key D cfg pCtx r) \<noteq> None"

lemma checked_frame [simp]:
  "nDomains (checked D cfg pCtx r n) = nDomains n"
  "nFlush (checked D cfg pCtx r n) = nFlush n"
  "nPuller (checked D cfg pCtx r n) = nPuller n"
  "nWorld (checked D cfg pCtx r n) = nWorld n"
  by (simp_all add: checked_def)

lemma checked_inv: "lru_inv (nCache n) \<Longrightarrow> lru_inv (nCache (checked D cfg pCtx r n))"
  by (simp add: checked_def flush_check_inv)

lemma serve_cached_look:
  "serve_cached D cfg pCtx w r n =
   (case GetOrFetch (dCache D) (dDo D) (look_time n)
           (wclock (nWorld n) (Suc (wticks (nWorld n)))) (serve_key D cfg pCtx r)
           (originFetch D cfg pCtx r (serve_key D cfg pCtx r))
           ((nCache (checked D cfg pCtx r n), nStorage (checked D cfg pCtx r n)),
             nPuller n, look_world (nWorld n)) of
      (res, (c, st), p, wd3) \<Rightarrow>
        (let n2 = (checked D cfg pCtx r n)\<lparr>nCache := c, nStorage := st, nPuller := p, nWorld := wd3\<rparr>
         in case res of
              Inl (SFFetch FetchPanic) \<Rightarrow> (Crashed w, n2)
            | Inl _ \<Rightarrow> (Done (http_Error ''Bad Gateway'' 502 w), n2)
            | Inr (rc, meta) \<Rightarrow>
                (Done (write_response (indexed D cfg pCtx r n) pCtx rc meta w),
                 n2\<lparr>nWorld := emits (served_events (indexed D cfg pCtx r n) (Domain cfg)) wd3\<rparr>)))"
proof -
  have hit: "(case SingleflightCache_Stat (dCache D) k (nCache m, nStorage m) of Inl _ \<Rightarrow> False | Inr _ \<Rightarrow> True) =
      (entry_of m k \<noteq> None)" for m :: "('a, 'b, 'c) node" and k
    by (simp add: Stat_entry split: option.split)
  show ?thesis
    unfolding serve_cached_def checked_def serve_key_def indexed_def look_time_def look_world_def
      Let_def time_Now_def hit prod.case flush_check_frame
    by simp
qed

text \<open>What the client gets, by the first lookup and the fetch.\<close>

lemma first_look_indexed:
  assumes "fst (first_look D cfg pCtx r n) = Inr x"
  shows "indexed D cfg pCtx r n"
  using assms
  by (auto simp: first_look_def indexed_def entry_of_def LRUCache_Get_def split: option.splits)

lemma serve_cached_hit:
  assumes "fst (first_look D cfg pCtx r n) = Inr (rc, meta)"
  shows "fst (serve_cached D cfg pCtx w r n) = Done (write_response True pCtx rc meta w)"
    and "nPuller (snd (serve_cached D cfg pCtx w r n)) = nPuller n"
    and "wevents (nWorld (snd (serve_cached D cfg pCtx w r n))) =
           wevents (nWorld n) @ served_events True (Domain cfg)"
proof -
  obtain c1 st1 where g: "first_look D cfg pCtx r n = (Inr (rc, meta), c1, st1)"
    using assms by (cases "first_look D cfg pCtx r n") auto
  note hit = GetOrFetch_hit [OF g [unfolded first_look_def]]
  show "fst (serve_cached D cfg pCtx w r n) = Done (write_response True pCtx rc meta w)"
    "nPuller (snd (serve_cached D cfg pCtx w r n)) = nPuller n"
    "wevents (nWorld (snd (serve_cached D cfg pCtx w r n))) =
       wevents (nWorld n) @ served_events True (Domain cfg)"
    unfolding serve_cached_look
    using first_look_indexed [OF assms] by (simp_all add: hit look_world_def)
qed

lemma serve_cached_miss:
  assumes inv: "lru_inv (nCache n)" and once: "runs_once (dDo D)"
    and miss: "fst (first_look D cfg pCtx r n) = Inl e"
  shows "fst (serve_cached D cfg pCtx w r n) =
    (case fst (fetch_look D cfg pCtx r n) of
       Inl FetchPanic \<Rightarrow> Crashed w
     | Inl _ \<Rightarrow> Done (http_Error ''Bad Gateway'' 502 w)
     | Inr (rc, meta) \<Rightarrow> Done (write_response (indexed D cfg pCtx r n) pCtx rc meta w))"
    and "nPuller (snd (serve_cached D cfg pCtx w r n)) = fst (snd (fetch_look D cfg pCtx r n))"
    and "nWorld (snd (serve_cached D cfg pCtx w r n)) =
      (case fst (fetch_look D cfg pCtx r n) of
         Inl _ \<Rightarrow> snd (snd (fetch_look D cfg pCtx r n))
       | Inr _ \<Rightarrow> emits (served_events (indexed D cfg pCtx r n) (Domain cfg))
                   (snd (snd (fetch_look D cfg pCtx r n))))"
proof -
  obtain c1 st1 where g: "first_look D cfg pCtx r n = (Inl e, c1, st1)"
    using miss by (cases "first_look D cfg pCtx r n") auto
  note miss_once = GetOrFetch_miss_once [OF checked_inv [OF inv] g [unfolded first_look_def] once]
  obtain res p1 wd1 where f: "fetch_look D cfg pCtx r n = (res, p1, wd1)"
    by (cases "fetch_look D cfg pCtx r n")
  note f' = f [unfolded fetch_look_def]
  have "fst (serve_cached D cfg pCtx w r n) =
    (case res of
       Inl FetchPanic \<Rightarrow> Crashed w
     | Inl _ \<Rightarrow> Done (http_Error ''Bad Gateway'' 502 w)
     | Inr (rc, meta) \<Rightarrow> Done (write_response (indexed D cfg pCtx r n) pCtx rc meta w)) \<and>
    nPuller (snd (serve_cached D cfg pCtx w r n)) = p1 \<and>
    nWorld (snd (serve_cached D cfg pCtx w r n)) =
      (case res of Inl _ \<Rightarrow> wd1
       | Inr _ \<Rightarrow> emits (served_events (indexed D cfg pCtx r n) (Domain cfg)) wd1)"
  proof (cases res)
    case (Inl err)
    then show ?thesis
      unfolding serve_cached_look miss_once by (cases err) (simp_all add: f')
  next
    case (Inr x)
    obtain rd m where x: "x = (rd, m)" by (cases x)
    obtain body where "rd = bytes_reader body"
      using f' Inr x by (auto elim!: originFetch_Inr)
    then show ?thesis
      unfolding serve_cached_look miss_once using f' Inr x by (simp split: prod.split)
  qed
  then show "fst (serve_cached D cfg pCtx w r n) =
    (case fst (fetch_look D cfg pCtx r n) of
       Inl FetchPanic \<Rightarrow> Crashed w
     | Inl _ \<Rightarrow> Done (http_Error ''Bad Gateway'' 502 w)
     | Inr (rc, meta) \<Rightarrow> Done (write_response (indexed D cfg pCtx r n) pCtx rc meta w))"
    "nPuller (snd (serve_cached D cfg pCtx w r n)) = fst (snd (fetch_look D cfg pCtx r n))"
    "nWorld (snd (serve_cached D cfg pCtx w r n)) =
      (case fst (fetch_look D cfg pCtx r n) of
         Inl _ \<Rightarrow> snd (snd (fetch_look D cfg pCtx r n))
       | Inr _ \<Rightarrow> emits (served_events (indexed D cfg pCtx r n) (Domain cfg))
                   (snd (snd (fetch_look D cfg pCtx r n))))"
    unfolding f fst_conv snd_conv by simp_all
qed

text \<open>No entry, an expired entry and a flushed entry are all misses.\<close>

lemma first_look_stale:
  assumes inv: "lru_inv (nCache n)"
    and stale: "flush_hits (Domain cfg) (RewrittenPath pCtx) (serve_key D cfg pCtx r) n \<or>
      (case entry_of n (serve_key D cfg pCtx r) of None \<Rightarrow> True
       | Some m \<Rightarrow> After (look_time n) (ExpiresAt m))"
  shows "\<exists>e. fst (first_look D cfg pCtx r n) = Inl e"
proof -
  let ?k = "serve_key D cfg pCtx r" and ?n = "checked D cfg pCtx r n"
  have "case entry_of ?n ?k of None \<Rightarrow> True | Some m \<Rightarrow> After (look_time n) (ExpiresAt m)"
    using stale
    by (cases "flush_hits (Domain cfg) (RewrittenPath pCtx) ?k n")
       (simp_all add: checked_def flush_check_entry [OF inv])
  then show ?thesis
    by (auto simp: first_look_def LRUCache_Get_def entry_of_def Let_def split: option.splits)
qed

lemma first_look_fresh:
  assumes inv: "lru_inv (nCache n)" and hit: "fst (first_look D cfg pCtx r n) = Inr x"
  obtains m where "\<not> flush_hits (Domain cfg) (RewrittenPath pCtx) (serve_key D cfg pCtx r) n"
    "entry_of n (serve_key D cfg pCtx r) = Some m" "\<not> After (look_time n) (ExpiresAt m)"
proof -
  have "\<not> (flush_hits (Domain cfg) (RewrittenPath pCtx) (serve_key D cfg pCtx r) n \<or>
      (case entry_of n (serve_key D cfg pCtx r) of None \<Rightarrow> True
       | Some m \<Rightarrow> After (look_time n) (ExpiresAt m)))"
    using first_look_stale [OF inv] hit by fastforce
  then show ?thesis using that by (auto split: option.splits)
qed

text \<open>The effect of a request on the cache, as a history of calls for its key.\<close>

definition serve_history ::
  "('s, 'o, 'l) deps \<Rightarrow> DomainConfig \<Rightarrow> PipelineContext \<Rightarrow> Request \<Rightarrow> ('s, 'o, 'l) node \<Rightarrow>
   cache_op list" where
  "serve_history D cfg pCtx r n =
     flush_history (Domain cfg) (RewrittenPath pCtx) (serve_key D cfg pCtx r) n @
     gof_history (dStorage D) (look_time n) (serve_key D cfg pCtx r)
       (originFetch D cfg pCtx r (serve_key D cfg pCtx r))
       ((nCache (checked D cfg pCtx r n), nStorage (checked D cfg pCtx r n)),
        nPuller n, look_world (nWorld n))"

lemma serve_cached_frame:
  "nDomains (snd (serve_cached D cfg pCtx w r n)) = nDomains n"
  "nFlush (snd (serve_cached D cfg pCtx w r n)) = nFlush n"
  unfolding serve_cached_look
  by (auto simp: Let_def split: prod.split sum.split sf_err.split fetch_err.split)

lemma serve_cached_cs:
  "(nCache (snd (serve_cached D cfg pCtx w r n)), nStorage (snd (serve_cached D cfg pCtx w r n))) =
   fst (snd (GetOrFetch (dCache D) (dDo D) (look_time n)
           (wclock (nWorld n) (Suc (wticks (nWorld n)))) (serve_key D cfg pCtx r)
           (originFetch D cfg pCtx r (serve_key D cfg pCtx r))
           ((nCache (checked D cfg pCtx r n), nStorage (checked D cfg pCtx r n)),
             nPuller n, look_world (nWorld n))))"
  unfolding serve_cached_look
  by (auto simp: Let_def split: prod.split sum.split sf_err.split fetch_err.split)

lemma serve_cached_history:
  assumes "lru_inv (nCache n)" "runs_once (dDo D)"
  shows "(nCache (snd (serve_cached D cfg pCtx w r n)), nStorage (snd (serve_cached D cfg pCtx w r n))) =
    fold (run_op (dStorage D) (dFmt D)) (serve_history D cfg pCtx r n) (nCache n, nStorage n)"
  unfolding serve_cached_cs GetOrFetch_history [OF checked_inv [OF assms(1)] assms(2), where F = "dFmt D"]
  by (simp add: serve_history_def checked_def flush_check_history)

lemma serve_history_keys: "op \<in> set (serve_history D cfg pCtx r n) \<Longrightarrow> op_key op = serve_key D cfg pCtx r"
  by (auto simp: serve_history_def flush_history_def dest: gof_history_keys split: if_splits)

lemma serve_history_Set:
  assumes "OpSet k b m \<in> set (serve_history D cfg pCtx r n)"
  shows "k = serve_key D cfg pCtx r" "mKey m = k"
    "\<exists>rd. fst (fetch_look D cfg pCtx r n) = Inr (rd, m) \<and> rd_data rd = b"
proof -
  let ?k = "serve_key D cfg pCtx r"
  have f: "fetched (originFetch D cfg pCtx r ?k) (nPuller n, look_world (nWorld n)) = Some (b, m)"
    and k: "k = ?k"
    using assms
    by (auto simp: serve_history_def flush_history_def gof_history_def
        split: if_splits sum.splits option.splits prod.splits)
  from f obtain rd where l: "fst (fetch_look D cfg pCtx r n) = Inr (rd, m)" and b: "rd_data rd = b"
    by (auto simp: originFetch_fetched fetch_look_def split: sum.splits)
  show "k = ?k" by (rule k)
  show "mKey m = k"
    using l originFetch_key unfolding k fetch_look_def
    by (cases "originFetch D cfg pCtx r ?k (nPuller n, look_world (nWorld n))") auto
  show "\<exists>rd. fst (fetch_look D cfg pCtx r n) = Inr (rd, m) \<and> rd_data rd = b" using l b by blast
qed

lemma serve_cached_inv:
  assumes "lru_inv (nCache n)" "runs_once (dDo D)"
  shows "lru_inv (nCache (snd (serve_cached D cfg pCtx w r n))) \<and>
    maxItems (nCache (snd (serve_cached D cfg pCtx w r n))) = maxItems (nCache n)"
proof -
  let ?cs = "fold (run_op (dStorage D) (dFmt D)) (serve_history D cfg pCtx r n) (nCache n, nStorage n)"
  have "lru_inv (fst ?cs) \<and> maxItems (fst ?cs) = maxItems (fst (nCache n, nStorage n))"
    by (rule fold_run_op_inv) (use assms(1) serve_history_Set(2) in auto)
  then show ?thesis by (simp flip: serve_cached_history [OF assms, of cfg pCtx w r])
qed


section \<open>The response\<close>

lemma X_Cache_canonical [simp]: "CanonicalKey ''X-Cache'' = ''X-Cache''"
  by code_simp

lemma write_response_fresh:
  assumes "wStatus w = None"
  shows "wStatus (write_response hit pCtx rc m w) = Some 200"
    "wBody (write_response hit pCtx rc m w) = wBody w @ rd_data rc"
    "wLogged (write_response hit pCtx rc m w) = 200"
  using assms
  by (auto simp: write_response_def Let_def ApplyResponseMutations_def set_wHeader_def split: option.split)

lemma bytes_ok_write_response [simp]: "bytes_ok (write_response hit pCtx rc m w) = bytes_ok w"
  by (simp add: write_response_def ApplyResponseMutations_def Let_def del: Write_sent split: option.split)

lemma write_response_header:
  assumes "wStatus w = None" "mHeaders m = Some h" "canonical_header h"
  shows "map_of (wSent (write_response hit pCtx rc m w)) k =
    (if k = ''X-Cache'' then Some [if hit then ''hit'' else ''miss'']
     else case map_of h k of Some (v # vs) \<Rightarrow> Some [last (v # vs)]
       | _ \<Rightarrow> map_of (wHeader (ApplyResponseMutations w pCtx)) k)"
proof -
  have "wStatus (ApplyResponseMutations w pCtx) = None"
    using assms(1) by (simp add: ApplyResponseMutations_def)
  then show ?thesis
    using assms(2)
    by (auto simp: write_response_def Let_def set_wHeader_def map_of_set_all [OF assms(3)]
        split: option.splits list.splits)
qed

lemma write_response_X_Cache:
  assumes "wStatus w = None"
  shows "map_of (wSent (write_response hit pCtx rc m w)) ''X-Cache'' = Some [if hit then ''hit'' else ''miss'']"
  using assms
  by (auto simp: write_response_def Let_def ApplyResponseMutations_def set_wHeader_def split: option.split)


section \<open>Content served from the cache\<close>

context storage_contract
begin

lemma coherent_fold:
  assumes "coherent K G cs" "separate (insert key K)" "\<forall>op \<in> set ops. op_key op = key"
    "list_all (op_ok ok_meta F) ops"
  shows "coherent (insert key K) (last_set G ops) (fold (run_op S F) ops cs)"
proof -
  have sub: "op_key ` set ops \<subseteq> {key}" using assms(3) by auto
  have "separate (K \<union> op_key ` set ops)"
    using assms(2) sub unfolding separate_def by blast
  from coherent_run [OF assms(1) this assms(4)]
  have "coherent (K \<union> op_key ` set ops) (last_set G ops) (fold (run_op S F) ops cs)" .
  with sub show ?thesis unfolding coherent_def by blast
qed

text \<open>A request keeps index and content in agreement.\<close>

lemma serve_coherent:
  assumes "dStorage D = S" "runs_once (dDo D)" "coherent K G (nCache n, nStorage n)"
    "separate (insert (serve_key D cfg pCtx r) K)"
    "\<And>rd m. fst (fetch_look D cfg pCtx r n) = Inr (rd, m) \<Longrightarrow> ok_meta (metaToStorageMeta (dFmt D) m)"
  shows "coherent (insert (serve_key D cfg pCtx r) K) (last_set G (serve_history D cfg pCtx r n))
    (nCache (snd (serve_cached D cfg pCtx w r n)), nStorage (snd (serve_cached D cfg pCtx w r n)))"
proof -
  have inv: "lru_inv (nCache n)" using assms(3) by (simp add: coherent_def)
  have ok: "list_all (op_ok ok_meta (dFmt D)) (serve_history D cfg pCtx r n)"
    unfolding list_all_iff
  proof
    fix x assume x: "x \<in> set (serve_history D cfg pCtx r n)"
    show "op_ok ok_meta (dFmt D) x"
    proof (cases x)
      case (OpSet k b m)
      with serve_history_Set [of k b m D cfg pCtx r n] x assms(5) show ?thesis by auto
    qed simp_all
  qed
  show ?thesis
    unfolding serve_cached_history [OF inv assms(2)] assms(1)
    by (rule coherent_fold [OF assms(3,4) _ ok]) (use serve_history_keys in blast)
qed

text \<open>A fresh entry that no rule flushes is served from the storage, without the origin.\<close>

lemma serve_fresh:
  assumes "dStorage D = S" "coherent K G (nCache n, nStorage n)"
    "entry_of n (serve_key D cfg pCtx r) = Some m"
    "\<not> flush_hits (Domain cfg) (RewrittenPath pCtx) (serve_key D cfg pCtx r) n"
    "\<not> After (look_time n) (ExpiresAt m)"
  obtains b where "G (serve_key D cfg pCtx r) = Some (b, m)"
    "fst (serve_cached D cfg pCtx w r n) = Done (write_response True pCtx (bytes_reader b) m w)"
    "nPuller (snd (serve_cached D cfg pCtx w r n)) = nPuller n"
    "entry_of (snd (serve_cached D cfg pCtx w r n)) (serve_key D cfg pCtx r) = Some m"
proof -
  let ?k = "serve_key D cfg pCtx r"
  have n: "checked D cfg pCtx r n = n" using assms(4) by (simp add: checked_def flush_check_eq)
  from assms(3) obtain e where e: "items (nCache n) ?k = Some e" "m = vals (nCache n) e"
    by (auto simp: entry_of_def)
  from coherent_hit [OF assms(2) e(1), of "look_time n"] assms(5) e(2)
  obtain b where b: "G ?k = Some (b, m)" "first_look D cfg pCtx r n =
      (Inr (bytes_reader b, m), (nCache n)\<lparr>lru := MoveToFront e (lru (nCache n))\<rparr>,
       snd (stRead S ?k (nStorage n)))"
    by (auto simp: first_look_def n assms(1))
  have "entry_of (snd (serve_cached D cfg pCtx w r n)) ?k = Some m"
    using e by (simp add: serve_cached_look n entry_of_def Let_def
        GetOrFetch_hit [OF b(2) [unfolded first_look_def n]])
  with that [OF b(1) serve_cached_hit(1,2)] b(2) show ?thesis by simp
qed

text \<open>A miss that fetches stores what it fetched, so the entry is there afterwards.\<close>

lemma Set_view:
  assumes "coherent K G (c, st)" "ok_meta (metaToStorageMeta F m)" "mKey m = k" "0 < maxItems c"
  shows "map_option (vals (fst (snd (LRUCache_Set S F k (bytes_reader b) m (c, st)))))
    (items (fst (snd (LRUCache_Set S F k (bytes_reader b) m (c, st)))) k) = Some m"
proof (cases "LRUCache_Set S F k (bytes_reader b) m (c, st)")
  case (fields e c' st')
  have inv: "lru_inv c" and st: "inv st" "reliable st" using assms(1) by (simp_all add: coherent_def)
  have "fst (stWrite S k (bytes_reader b) (Some (metaToStorageMeta F m)) st) = None"
    by (rule write_complete [OF st assms(2)]) simp
  with Set_refines_spec [OF inv assms(3) fields] have
    view: "cache_view c' = spec_put (nat (maxItems c)) m (cache_view c)" and wf: "lru_wf c'"
    by (auto simp: spec_Set_def lru_inv_def)
  have "spec_lookup k (cache_view c') = Some m"
    using assms(3,4) by (cases "nat (maxItems c)") (auto simp: view spec_put_def spec_lookup_def)
  then show ?thesis using fields by (simp add: spec_lookup_view [OF wf])
qed

lemma last_set_append: "last_set G (xs @ ys) = last_set (last_set G xs) ys"
  by (induction G xs rule: last_set.induct) (simp_all del: fun_upd_apply)

lemma fold_snoc: "fold f (xs @ [x]) s = f x (fold f xs s)"
  by simp

lemma serve_store:
  assumes D: "dStorage D = S" and once: "runs_once (dDo D)"
    and coh: "coherent K G (nCache n, nStorage n)"
    and sep: "separate (insert (serve_key D cfg pCtx r) K)"
    and miss: "fst (first_look D cfg pCtx r n) = Inl e"
    and got: "fst (fetch_look D cfg pCtx r n) = Inr (rd, m)"
    and ok: "ok_meta (metaToStorageMeta (dFmt D) m)" and cap: "0 < maxItems (nCache n)"
  shows "entry_of (snd (serve_cached D cfg pCtx w r n)) (serve_key D cfg pCtx r) = Some m"
    and "last_set G (serve_history D cfg pCtx r n) (serve_key D cfg pCtx r) = Some (rd_data rd, m)"
proof -
  let ?k = "serve_key D cfg pCtx r" and ?n = "checked D cfg pCtx r n"
  have inv: "lru_inv (nCache n)" using coh by (simp add: coherent_def)
  have key: "mKey m = ?k"
    using got originFetch_key by (cases "fetch_look D cfg pCtx r n") (auto simp: fetch_look_def)
  have f: "fetched (originFetch D cfg pCtx r ?k) (nPuller n, look_world (nWorld n)) = Some (rd_data rd, m)"
    using got by (simp add: originFetch_fetched fetch_look_def)
  let ?pre = "flush_history (Domain cfg) (RewrittenPath pCtx) ?k n @ [OpGet (look_time n) ?k]"
  have hist: "serve_history D cfg pCtx r n = ?pre @ [OpSet ?k (rd_data rd) m]"
    using miss f by (simp add: serve_history_def gof_history_def first_look_def D)
  show "last_set G (serve_history D cfg pCtx r n) ?k = Some (rd_data rd, m)"
    by (simp add: hist last_set_append)
  obtain c st where cs: "fold (run_op S (dFmt D)) ?pre (nCache n, nStorage n) = (c, st)"
    by (cases "fold (run_op S (dFmt D)) ?pre (nCache n, nStorage n)")
  have "coherent (insert ?k K) (last_set G ?pre) (c, st)"
    unfolding cs [symmetric]
    by (rule coherent_fold [OF coh sep]) (auto simp: flush_history_def split: if_splits)
  moreover have "maxItems c = maxItems (nCache n)"
  proof -
    have get: "maxItems (fst (snd (LRUCache_Get S t k x))) = maxItems (fst x)" for t k x
      by (cases x) (simp add: Get_maxItems)
    have del: "maxItems (fst (snd (LRUCache_Delete S k x))) = maxItems (fst x)" for k x
      by (cases x) (simp add: Delete_maxItems)
    have "maxItems (fst (fold (run_op S (dFmt D)) ?pre (nCache n, nStorage n))) = maxItems (nCache n)"
      by (simp add: flush_history_def get del)
    then show ?thesis by (simp only: cs fst_conv)
  qed
  ultimately have "map_option (vals (fst (snd (LRUCache_Set S (dFmt D) ?k (bytes_reader (rd_data rd)) m (c, st)))))
      (items (fst (snd (LRUCache_Set S (dFmt D) ?k (bytes_reader (rd_data rd)) m (c, st)))) ?k) = Some m"
    using ok key cap by (intro Set_view) auto
  moreover have "(nCache (snd (serve_cached D cfg pCtx w r n)), nStorage (snd (serve_cached D cfg pCtx w r n))) =
      snd (LRUCache_Set S (dFmt D) ?k (bytes_reader (rd_data rd)) m (c, st))"
    unfolding serve_cached_history [OF inv once] hist D
    by (subst fold_snoc) (simp only: cs run_op.simps)
  ultimately show "entry_of (snd (serve_cached D cfg pCtx w r n)) ?k = Some m"
    by (simp add: entry_of_def prod_eq_iff)
qed

text \<open>So a later request with the same key, in time and with no newer rule, is a hit with the same body.\<close>

lemma serve_again:
  assumes "dStorage D = S" "runs_once (dDo D)" "coherent K G (nCache n, nStorage n)"
    "separate (insert (serve_key D cfg pCtx r) K)"
    "fst (first_look D cfg pCtx r n) = Inl e" "fst (fetch_look D cfg pCtx r n) = Inr (rd, m)"
    "ok_meta (metaToStorageMeta (dFmt D) m)" "0 < maxItems (nCache n)"
    and n': "n' = snd (serve_cached D cfg pCtx w r n)"
    and n2: "nCache n2 = nCache n'" "nStorage n2 = nStorage n'" "nFlush n2 = nFlush n"
    and key: "serve_key D cfg2 pCtx2 q = serve_key D cfg pCtx r"
    and fresh: "look_time n2 \<le> ExpiresAt m"
    and keep: "\<not> flushed_after (nFlush n) (Domain cfg2) (RewrittenPath pCtx2) (WrittenAt m)"
  shows "fst (serve_cached D cfg2 pCtx2 w2 q n2) =
      Done (write_response True pCtx2 (bytes_reader (rd_data rd)) m w2) \<and>
    nPuller (snd (serve_cached D cfg2 pCtx2 w2 q n2)) = nPuller n2"
proof -
  let ?k = "serve_key D cfg pCtx r"
  note st = serve_store(1) [OF assms(1-8), where w = w, folded n'] serve_store(2) [OF assms(1-8)]
  have coh: "coherent (insert ?k K) (last_set G (serve_history D cfg pCtx r n)) (nCache n2, nStorage n2)"
    unfolding n2 n' using assms(6,7) by (intro serve_coherent [OF assms(1-4)]) auto
  have ent: "entry_of n2 (serve_key D cfg2 pCtx2 q) = Some m"
    using st(1) by (simp add: entry_of_def n2 key)
  have nf: "\<not> flush_hits (Domain cfg2) (RewrittenPath pCtx2) (serve_key D cfg2 pCtx2 q) n2"
    using keep ent by (simp add: flush_hits_def n2)
  show ?thesis
    by (rule serve_fresh [OF assms(1) coh ent nf, where w = w2])
       (use fresh st(2) key in \<open>auto simp: After_def\<close>)
qed

end


section \<open>The whole handler\<close>

text \<open>The invariant of the node that every request keeps.\<close>

definition node_inv :: "('s, 'o, 'tb limits) node \<Rightarrow> bool" where
  "node_inv n \<longleftrightarrow> lru_inv (nCache n) \<and> store_inv (nFlush n) \<and> limits_inv (wlimits (nWorld n)) \<and>
     (\<forall>h cfg. nDomains n h = Some cfg \<longrightarrow> Domain cfg = h)"

lemma time_Now_limits [simp]: "wlimits (look_world wd) = wlimits wd"
  by (simp add: look_world_def)

lemma originFetch_limits:
  "wlimits (snd (snd (originFetch D cfg pCtx r key (p, wd)))) = wlimits wd"
  by (auto simp: originFetch_def Let_def time_Now_def split: prod.split outcome.split sum.split)

lemma serve_cached_limits:
  assumes "lru_inv (nCache n)" "runs_once (dDo D)"
  shows "wlimits (nWorld (snd (serve_cached D cfg pCtx w r n))) = wlimits (nWorld n)"
proof -
  let ?f = "originFetch D cfg pCtx r (serve_key D cfg pCtx r)"
  have f: "wlimits (snd (snd (?f (nPuller n, look_world (nWorld n))))) = wlimits (nWorld n)"
    by (simp add: originFetch_limits)
  obtain res c1 st1 where g: "first_look D cfg pCtx r n = (res, c1, st1)"
    by (cases "first_look D cfg pCtx r n")
  have "wlimits (snd (snd (snd (GetOrFetch (dCache D) (dDo D) (look_time n)
      (wclock (nWorld n) (Suc (wticks (nWorld n)))) (serve_key D cfg pCtx r) ?f
      ((nCache (checked D cfg pCtx r n), nStorage (checked D cfg pCtx r n)),
        nPuller n, look_world (nWorld n)))))) = wlimits (nWorld n)"
  proof (cases res)
    case (Inr x)
    obtain rc m where x: "x = (rc, m)" by (cases x)
    show ?thesis by (simp add: GetOrFetch_hit [OF g [unfolded first_look_def Inr x]])
  next
    case (Inl e)
    show ?thesis
      unfolding GetOrFetch_miss_once [OF checked_inv [OF assms(1)] g [unfolded first_look_def Inl] assms(2)]
      using f by (cases "?f (nPuller n, look_world (nWorld n))") (auto split: sum.split prod.split)
  qed
  then show ?thesis
    unfolding serve_cached_look
    by (auto simp: Let_def split: prod.split sum.split sf_err.split fetch_err.split)
qed

lemma serve_cached_node_inv:
  "node_inv n \<Longrightarrow> runs_once (dDo D) \<Longrightarrow> node_inv (snd (serve_cached D cfg pCtx w r n))"
  by (simp add: node_inv_def serve_cached_inv serve_cached_limits serve_cached_frame)

lemma ServeHTTP_node_inv:
  assumes "node_inv n" "runs_once (dDo D)" "dRegistry D = plugin_registry X T"
  shows "node_inv (snd (ServeHTTP D r w n))"
proof (cases "nDomains n (stripPort (Host r))")
  case None
  with assms(1) show ?thesis by (simp add: ServeHTTP_def)
next
  case (Some cfg)
  obtain ok pCtx w1 r1 wd1 where p:
    "Pipeline_Execute (dRegistry D) (Plugins cfg) (Domain cfg) w r (nWorld n) = (ok, pCtx, w1, r1, wd1)"
    by (metis prod_cases5)
  then have "limits_inv (wlimits wd1)"
    using run_plugins_limits_inv assms(1,3) unfolding Pipeline_Execute_def Let_def node_inv_def by metis
  with assms(1) have "node_inv (n\<lparr>nWorld := wd1\<rparr>)" by (simp add: node_inv_def)
  with serve_cached_node_inv [OF this assms(2)] Some p show ?thesis
    by (simp add: ServeHTTP_def Let_def)
qed

lemma Update_node_inv: "node_inv n \<Longrightarrow> node_inv (Update ds n)"
  by (auto simp: node_inv_def Update_def dest: domain_table_Domain)

text \<open>The three ways through the handler, with the plugins of the repository.\<close>

lemma ServeHTTP_unknown:
  "nDomains n (stripPort (Host r)) = None \<Longrightarrow> ServeHTTP D r w n = (Done (http_NotFound w), n)"
  by (simp add: ServeHTTP_def)

lemma ServeHTTP_known:
  assumes known: "nDomains n (stripPort (Host r)) = Some cfg" and reg: "dRegistry D = plugin_registry X T"
  obtains (rejected) wd' where
      "ServeHTTP D r w n = (Done (http_Error ''Too Many Requests'' 429 w), n\<lparr>nWorld := wd'\<rparr>)"
      "wclock wd' = wclock (nWorld n)"
    | (passed) pCtx r' wd' where
      "ServeHTTP D r w n = serve_cached D cfg pCtx w r' (n\<lparr>nWorld := wd'\<rparr>)"
      "Pipeline_Execute (dRegistry D) (Plugins cfg) (Domain cfg) w r (nWorld n) = (True, pCtx, w, r', wd')"
      "same_target r r'" "wclock wd' = wclock (nWorld n)"
proof -
  obtain ok pCtx w1 r1 wd1 where p:
    "Pipeline_Execute (dRegistry D) (Plugins cfg) (Domain cfg) w r (nWorld n) = (ok, pCtx, w1, r1, wd1)"
    by (metis prod_cases5)
  note run = p [unfolded Pipeline_Execute_def Let_def reg]
  have target: "same_target r r1" and clock: "wclock wd1 = wclock (nWorld n)"
    using plugins.run_frame [OF run] by simp_all
  have eq: "ServeHTTP D r w n =
      (if ok then serve_cached D cfg pCtx w1 r1 (n\<lparr>nWorld := wd1\<rparr>) else (Done w1, n\<lparr>nWorld := wd1\<rparr>))"
    unfolding ServeHTTP_def known option.case p prod.case Let_def ..
  show ?thesis
  proof (cases ok)
    case True
    then have t: "ok = True" by simp
    have w1: "w1 = w" by (rule plugins.run_pass [OF run [unfolded t]])
    show ?thesis
      by (rule passed [OF _ _ target clock]) (use eq p True w1 in simp_all)
  next
    case False
    then have f: "ok = False" by simp
    have w1: "w1 = http_Error ''Too Many Requests'' 429 w"
      by (rule run_plugins_reject [OF run [unfolded f]])
    show ?thesis by (rule rejected [OF _ clock]) (use eq False w1 in simp)
  qed
qed

text \<open>The statuses an untouched writer can get, and that the wrapper logs the one sent.\<close>

definition sent_as_logged :: "int set \<Rightarrow> ResponseWriter \<Rightarrow> bool" where
  "sent_as_logged codes w \<longleftrightarrow> (\<exists>c \<in> codes. wStatus w = Some c \<and> wLogged w = c)"

lemma http_Error_fresh:
  "wStatus w = None \<Longrightarrow> wStatus (http_Error msg c w) = Some c \<and> wLogged (http_Error msg c w) = c"
  by (simp add: http_Error_def Let_def set_wHeader_def)

lemma serve_cached_status:
  assumes "wStatus w = None"
  shows "(\<exists>w'. fst (serve_cached D cfg pCtx w r n) = Done w' \<and> sent_as_logged {200, 502} w') \<or>
    fst (serve_cached D cfg pCtx w r n) = Crashed w"
  unfolding serve_cached_look
  using write_response_fresh [OF assms] http_Error_fresh [OF assms]
  by (auto simp: Let_def sent_as_logged_def split: prod.split sum.split sf_err.split fetch_err.split)

lemma ServeHTTP_status:
  assumes "wStatus w = None" "dRegistry D = plugin_registry X T"
  shows "(\<exists>w'. fst (ServeHTTP D r w n) = Done w' \<and> sent_as_logged {200, 404, 429, 502} w') \<or>
    fst (ServeHTTP D r w n) = Crashed w"
proof (cases "nDomains n (stripPort (Host r))")
  case None
  then show ?thesis using http_Error_fresh [OF assms(1)]
    by (auto simp: ServeHTTP_unknown http_NotFound_def sent_as_logged_def)
next
  case (Some cfg)
  from Some assms(2) show ?thesis
  proof (cases rule: ServeHTTP_known [where w = w])
    case (rejected wd')
    then show ?thesis using http_Error_fresh [OF assms(1)] by (auto simp: sent_as_logged_def)
  next
    case (passed pCtx r' wd')
    then show ?thesis
      using serve_cached_status [OF assms(1), of D cfg pCtx r' "n\<lparr>nWorld := wd'\<rparr>"]
      by (auto simp: sent_as_logged_def)
  qed
qed

text \<open>The bytes the wrapper counts are those the client gets.\<close>

lemma serve_cached_bytes:
  assumes "bytes_ok w" "fst (serve_cached D cfg pCtx w r n) = Done w'"
  shows "bytes_ok w'"
  using assms unfolding serve_cached_look
  by (auto simp: Let_def split: prod.splits sum.splits sf_err.splits fetch_err.splits)

lemma ServeHTTP_bytes:
  assumes "bytes_ok w" "dRegistry D = plugin_registry X T" "fst (ServeHTTP D r w n) = Done w'"
  shows "bytes_ok w'"
proof (cases "nDomains n (stripPort (Host r))")
  case None
  with assms show ?thesis by (auto simp: ServeHTTP_unknown http_NotFound_def)
next
  case (Some cfg)
  from Some assms(2) show ?thesis
  proof (cases rule: ServeHTTP_known [where w = w])
    case (passed pCtx r' wd')
    with assms serve_cached_bytes show ?thesis by metis
  qed (use assms in auto)
qed

end
