(* ===== verification/Admin.thy ===== *)
theory Admin
  imports DomainHandler
begin

text \<open>
  Package admin (\<open>handler.go\<close>): the management API over the state it shares with the domain
  handler. \<open>admin\<close> holds what \<open>New\<close> captures besides that state: the configuration loaded at
  startup. \<open>admin_codec\<close> are the functions the handlers call that are not in the repository or
  that only format: \<open>encoding/json\<close>, \<open>http.NewRequest\<close> on a URL, and error texts.
\<close>

section \<open>State\<close>

record statResponse =
  srHit :: bool
  srWrittenAt :: time
  srExpiresAt :: time
  srTTLRemaining :: int
  srSize :: int
  srFlushRuleMatch :: bool

text \<open>Go's zero \<open>time.Time\<close>, 1 January of year 1.\<close>

definition zero_time :: time where
  "zero_time = - 62135596800 * Second"

definition empty_statResponse :: statResponse where
  "empty_statResponse = \<lparr>srHit = False, srWrittenAt = zero_time, srExpiresAt = zero_time,
     srTTLRemaining = 0, srSize = 0, srFlushRuleMatch = False\<rparr>"

record admin_codec =
  decURL :: "bytes \<Rightarrow> string option"
  decPrefix :: "bytes \<Rightarrow> (string \<times> string) option"
  decDomain :: "bytes \<Rightarrow> string option"
  parseURL :: "string \<Rightarrow> Request option"
  showErr :: "flush_err \<Rightarrow> string"
  encStat :: "statResponse \<Rightarrow> bytes"

record admin =
  aCodec :: admin_codec
  aGlobalCfg :: Config

definition New_admin :: "admin_codec \<Rightarrow> Config \<Rightarrow> admin" where
  "New_admin AC cfg = \<lparr>aCodec = AC, aGlobalCfg = cfg\<rparr>"

text \<open>\<open>url.Hostname()\<close>: the host without a numeric port and without brackets.\<close>

definition valid_port :: "string \<Rightarrow> bool" where
  "valid_port s \<longleftrightarrow> s = [] \<or> (hd s = CHR '':'' \<and> list_all is_digit (tl s))"

definition Hostname :: "string \<Rightarrow> string" where
  "Hostname hp =
     (let host = (case last_index (CHR '':'') hp of
                    Some i \<Rightarrow> if valid_port (drop i hp) then take i hp else hp
                  | None \<Rightarrow> hp)
      in if HasPrefix host ''['' \<and> HasSuffix host '']'' then butlast (tl host) else host)"

definition domainKeyRules :: "admin \<Rightarrow> string \<Rightarrow> KeyRulesConfig option" where
  "domainKeyRules A domain =
     (case find (\<lambda>d. Domain d = domain) (cfgDomains (aGlobalCfg A)) of
        Some d \<Rightarrow> KeyRules d
      | None \<Rightarrow> None)"

definition admin_key :: "('s, 'o, 'l) deps \<Rightarrow> admin \<Rightarrow> Request \<Rightarrow> string" where
  "admin_key D A parsed =
     (let domain = Hostname (Host parsed)
      in Build (dSha1 D) (dKeyBuilder D) domain (URLPath parsed) parsed (domainKeyRules A domain))"


section \<open>The handlers\<close>

definition FlushURL ::
  "('s, 'o, 'l) deps \<Rightarrow> admin \<Rightarrow> bytes \<Rightarrow> ResponseWriter \<Rightarrow> ('s, 'o, 'l) node \<Rightarrow>
   ResponseWriter \<times> ('s, 'o, 'l) node" where
  "FlushURL D A body w n =
     (case decURL (aCodec A) body of
        None \<Rightarrow> (http_Error ''bad request: url required'' 400 w, n)
      | Some url \<Rightarrow>
          if url = [] then (http_Error ''bad request: url required'' 400 w, n)
          else (case parseURL (aCodec A) url of
                  None \<Rightarrow> (http_Error ''bad request: invalid url'' 400 w, n)
                | Some parsed \<Rightarrow>
                    (let (e, c, st) = SingleflightCache_Delete (dCache D) (admin_key D A parsed)
                                        (nCache n, nStorage n)
                     in (WriteHeader 204 w, n\<lparr>nCache := c, nStorage := st\<rparr>))))"

text \<open>What \<open>FlushPrefix\<close> and \<open>FlushDomain\<close> share: add the rule, set the gauge, answer.\<close>

definition add_flush_rule ::
  "('s, 'o, 'l) deps \<Rightarrow> admin \<Rightarrow> string \<Rightarrow> string \<Rightarrow> ResponseWriter \<Rightarrow> ('s, 'o, 'l) node \<Rightarrow>
   ResponseWriter \<times> ('s, 'o, 'l) node" where
  "add_flush_rule D A domain prfx w n =
     (let (now1, wd1) = time_Now (nWorld n);
          (now2, wd2) = time_Now wd1;
          (err, fs, st) = Store_AddRule (dStorage D) (dRules D) now1 now2 domain prfx (nFlush n, nStorage n);
          n1 = n\<lparr>nFlush := fs, nStorage := st, nWorld := wd2\<rparr>
      in case err of
           Some e \<Rightarrow> (http_Error (''failed to add flush rule: '' @ showErr (aCodec A) e) 500 w, n1)
         | None \<Rightarrow>
             (WriteHeader 204 w,
              n1\<lparr>nWorld := emit (FlushRules domain (Store_RuleCount domain fs)) wd2\<rparr>))"

definition FlushPrefix ::
  "('s, 'o, 'l) deps \<Rightarrow> admin \<Rightarrow> bytes \<Rightarrow> ResponseWriter \<Rightarrow> ('s, 'o, 'l) node \<Rightarrow>
   ResponseWriter \<times> ('s, 'o, 'l) node" where
  "FlushPrefix D A body w n =
     (case decPrefix (aCodec A) body of
        None \<Rightarrow> (http_Error ''bad request: domain and prefix required'' 400 w, n)
      | Some (domain, prfx) \<Rightarrow>
          if domain = [] \<or> prfx = []
          then (http_Error ''bad request: domain and prefix required'' 400 w, n)
          else add_flush_rule D A domain prfx w n)"

definition FlushDomain ::
  "('s, 'o, 'l) deps \<Rightarrow> admin \<Rightarrow> bytes \<Rightarrow> ResponseWriter \<Rightarrow> ('s, 'o, 'l) node \<Rightarrow>
   ResponseWriter \<times> ('s, 'o, 'l) node" where
  "FlushDomain D A body w n =
     (case decDomain (aCodec A) body of
        None \<Rightarrow> (http_Error ''bad request: domain required'' 400 w, n)
      | Some domain \<Rightarrow>
          if domain = [] then (http_Error ''bad request: domain required'' 400 w, n)
          else add_flush_rule D A domain ''/'' w n)"

text \<open>
  \<open>int64(remaining.Seconds())\<close>: the whole seconds and the fraction are added as floats, so
  the sum may round up to the next second.
\<close>

definition Seconds :: "duration \<Rightarrow> float64" where
  "Seconds d = Fin (fl (fl (of_int (d div Second)) + fl (of_int (d mod Second) / 1000000000)))"

definition stat_of :: "time \<Rightarrow> Rule option \<Rightarrow> Meta \<Rightarrow> statResponse" where
  "stat_of now rule meta =
     (let remaining = Until now (ExpiresAt meta);
          flushed = (case rule of None \<Rightarrow> False | Some r \<Rightarrow> After (rCreatedAt r) (WrittenAt meta))
      in \<lparr>srHit = \<not> flushed, srWrittenAt = WrittenAt meta, srExpiresAt = ExpiresAt meta,
         srTTLRemaining = (if 0 < remaining then int_of_float64 (Seconds remaining) else 0),
         srSize = mSize meta, srFlushRuleMatch = flushed\<rparr>)"

definition Stat ::
  "('s, 'o, 'l) deps \<Rightarrow> admin \<Rightarrow> string \<Rightarrow> ResponseWriter \<Rightarrow> ('s, 'o, 'l) node \<Rightarrow>
   ResponseWriter \<times> ('s, 'o, 'l) node" where
  "Stat D A query w n =
     (case map_of (ParseQuery query) ''url'' of
        Some (rawURL # _) \<Rightarrow>
          if rawURL = [] then (http_Error ''url query param required'' 400 w, n)
          else (case parseURL (aCodec A) rawURL of
                  None \<Rightarrow> (http_Error ''invalid url'' 400 w, n)
                | Some parsed \<Rightarrow>
                    (let domain = Hostname (Host parsed);
                         w1 = set_wHeader ''Content-Type'' ''application/json'' w
                     in case SingleflightCache_Stat (dCache D) (admin_key D A parsed) (nCache n, nStorage n) of
                          Inl _ \<Rightarrow> (Write (encStat (aCodec A) empty_statResponse) w1, n)
                        | Inr meta \<Rightarrow>
                            (let (now, wd1) = time_Now (nWorld n);
                                 rule = Store_Match domain (URLPath parsed) (nFlush n)
                             in (Write (encStat (aCodec A) (stat_of now rule meta)) w1,
                                 n\<lparr>nWorld := wd1\<rparr>))))
      | _ \<Rightarrow> (http_Error ''url query param required'' 400 w, n))"

text \<open>\<open>Register\<close>: the routes, in order.\<close>

datatype admin_endpoint = EpFlushURL | EpFlushPrefix | EpFlushDomain | EpStat

definition Register :: "(string \<times> string \<times> admin_endpoint) list" where
  "Register =
     [(''POST'', ''/admin/flush/url'', EpFlushURL),
      (''POST'', ''/admin/flush/prefix'', EpFlushPrefix),
      (''POST'', ''/admin/flush/domain'', EpFlushDomain),
      (''GET'', ''/admin/stat'', EpStat)]"

text \<open>The handler of a route; the body goes to the flush calls, the query to \<open>stat\<close>.\<close>

fun endpoint ::
  "('s, 'o, 'l) deps \<Rightarrow> admin \<Rightarrow> admin_endpoint \<Rightarrow> string \<Rightarrow> bytes \<Rightarrow> ResponseWriter \<Rightarrow>
   ('s, 'o, 'l) node \<Rightarrow> ResponseWriter \<times> ('s, 'o, 'l) node" where
  "endpoint D A EpFlushURL query body w n = FlushURL D A body w n"
| "endpoint D A EpFlushPrefix query body w n = FlushPrefix D A body w n"
| "endpoint D A EpFlushDomain query body w n = FlushDomain D A body w n"
| "endpoint D A EpStat query body w n = Stat D A query w n"


section \<open>Effects\<close>

lemma Store_AddRule_rules:
  "Store_AddRule S J now1 now2 d p (fs, st) = (e, fs', st') \<Longrightarrow>
   fs' = append_rule d (new_rule now1 now2 d p) fs"
  by (auto simp: Store_AddRule_def Let_def split: prod.splits)

lemma Store_AddRule_inv:
  assumes "Store_AddRule S J now1 now2 d p (fs, st) = (e, fs', st')" "store_inv fs"
  shows "store_inv fs'"
  unfolding Store_AddRule_rules [OF assms(1)]
  by (rule store_inv_append [OF assms(2)]) (simp add: new_rule_def)

lemma add_flush_rule_state:
  "nFlush (snd (add_flush_rule D A d p w n)) =
     append_rule d (new_rule (wclock (nWorld n) (wticks (nWorld n)))
       (wclock (nWorld n) (Suc (wticks (nWorld n)))) d p) (nFlush n)"
  "nCache (snd (add_flush_rule D A d p w n)) = nCache n"
  "nDomains (snd (add_flush_rule D A d p w n)) = nDomains n"
  "nPuller (snd (add_flush_rule D A d p w n)) = nPuller n"
  "wlimits (nWorld (snd (add_flush_rule D A d p w n))) = wlimits (nWorld n)"
  by (auto simp: add_flush_rule_def Let_def time_Now_def dest!: Store_AddRule_rules
      split: prod.split option.split)

text \<open>A rule covers a path from its creation on: every older entry under it is flushed.\<close>

lemma flushed_after_append:
  "flushed_after (append_rule d (new_rule now1 now2 d p) fs) d' path t \<longleftrightarrow>
   flushed_after fs d' path t \<or> d' = d \<and> HasPrefix path p \<and> t < now2"
  by (auto simp: flushed_after_def new_rule_def)

lemma add_flush_rule_inv:
  assumes "node_inv n" shows "node_inv (snd (add_flush_rule D A d p w n))"
proof -
  have "store_inv (nFlush (snd (add_flush_rule D A d p w n)))"
    using assms by (auto simp: add_flush_rule_state node_inv_def new_rule_def intro!: store_inv_append)
  with assms show ?thesis by (simp add: node_inv_def add_flush_rule_state(2-5))
qed

lemma FlushURL_inv:
  assumes "node_inv n" shows "node_inv (snd (FlushURL D A body w n))"
proof -
  have "lru_inv (fst (snd (LRUCache_Delete S k (nCache n, nStorage n))))" for S k
    using assms Delete_refines_spec [of "nCache n" S k "nStorage n"]
    by (cases "LRUCache_Delete S k (nCache n, nStorage n)") (auto simp: node_inv_def)
  with assms show ?thesis
    by (auto simp: FlushURL_def SingleflightCache_Delete_def Let_def node_inv_def split_beta
        split: option.split)
qed

lemma endpoint_inv:
  assumes "node_inv n" shows "node_inv (snd (endpoint D A ep query body w n))"
proof (cases ep)
  case EpFlushURL
  then show ?thesis using FlushURL_inv [OF assms] by simp
next
  case EpFlushPrefix
  then show ?thesis using assms add_flush_rule_inv [OF assms]
    by (auto simp: FlushPrefix_def split: option.split)
next
  case EpFlushDomain
  then show ?thesis using assms add_flush_rule_inv [OF assms]
    by (auto simp: FlushDomain_def split: option.split)
next
  case EpStat
  with assms show ?thesis
    by (auto simp: Stat_def Let_def time_Now_def node_inv_def split: option.split list.split sum.split)
qed

end
