(* ===== verification/Server.thy ===== *)
theory Server
  imports Admin
begin

text \<open>
  Package server (\<open>middleware.go\<close>, \<open>server.go\<close>): the middleware around the domain handler and
  the routes of the admin server. The middleware of chi that adds a request identifier to the
  context only feeds log lines and is left out; listening and shutting down are in Lifecycle. The routes of
  the admin server are a table; the router of chi that dispatches on it is not modelled.
\<close>

type_synonym ('s, 'o, 'l) handler =
  "Request \<Rightarrow> ResponseWriter \<Rightarrow> ('s, 'o, 'l) node \<Rightarrow> served \<times> ('s, 'o, 'l) node"

text \<open>
  \<open>RequestLogger\<close> wraps the writer, calls the handler, then logs and counts the request under the
  status and the bytes the wrapper saw. This is not deferred: a panic skips it.
\<close>

definition request_events :: "Request \<Rightarrow> ResponseWriter \<Rightarrow> event list" where
  "request_events r w =
     [RequestLogged (Host r) (URLPath r) (wLogged w) (wBytes w) (RemoteAddr r),
      Requests (Host r) (show_int (wLogged w)), ObserveRequest (Host r) []]"

definition RequestLogger :: "('s, 'o, 'l) handler \<Rightarrow> ('s, 'o, 'l) handler" where
  "RequestLogger nxt r w n =
     (case nxt r (wrapped w) n of
        (Crashed w1, n1) \<Rightarrow> (Crashed w1, n1)
      | (Done w1, n1) \<Rightarrow>
          (Done w1, n1\<lparr>nWorld := emits (request_events r w1) (nWorld n1)\<rparr>))"

definition Recovery :: "('s, 'o, 'l) handler \<Rightarrow> ('s, 'o, 'l) handler" where
  "Recovery nxt r w n =
     (case nxt r w n of
        (Crashed w1, n1) \<Rightarrow> (Done (http_Error ''Internal Server Error'' 500 w1), n1)
      | (Done w1, n1) \<Rightarrow> (Done w1, n1))"

text \<open>The business server: \<open>bizR.Use(RequestID, Recovery, RequestLogger)\<close> around the handler.\<close>

definition bizHandler :: "('s, 'o, 'l) deps \<Rightarrow> ('s, 'o, 'l) handler" where
  "bizHandler D = Recovery (RequestLogger (ServeHTTP D))"

datatype adm_endpoint = Metrics | Healthz | AdminEp admin_endpoint

definition admRoutes :: "(string option \<times> string \<times> adm_endpoint) list" where
  "admRoutes =
     [(None, ''/metrics'', Metrics), (Some ''GET'', ''/healthz'', Healthz)] @
     map (\<lambda>(m, p, e). (Some m, p, AdminEp e)) Register"

definition healthz :: "ResponseWriter \<Rightarrow> ResponseWriter" where
  "healthz w = Write ''ok'' (WriteHeader 200 w)"

section \<open>The middleware turns every crash into a response\<close>

lemma Recovery_total:
  "\<exists>w'. fst (Recovery nxt r w n) = Done w'"
  by (auto simp: Recovery_def split: prod.split served.split)

lemma bizHandler_node:
  "\<exists>es. snd (bizHandler D r w n) =
     (let n1 = snd (ServeHTTP D r (wrapped w) n) in n1\<lparr>nWorld := emits es (nWorld n1)\<rparr>)"
proof (cases "ServeHTTP D r (wrapped w) n")
  case (Pair res n1)
  show ?thesis
  proof (cases res)
    case (Done w1)
    with Pair show ?thesis
      by (intro exI [of _ "request_events r w1"])
         (simp add: bizHandler_def Recovery_def RequestLogger_def)
  next
    case (Crashed w1)
    with Pair show ?thesis
      by (intro exI [of _ "[]"]) (simp add: bizHandler_def Recovery_def RequestLogger_def)
  qed
qed

lemma node_inv_emit [simp]: "node_inv (n\<lparr>nWorld := emits es (nWorld n)\<rparr>) = node_inv n"
  by (simp add: node_inv_def)

lemma bizHandler_inv:
  assumes "node_inv n" "runs_once (dDo D)" "dRegistry D = plugin_registry X T"
  shows "node_inv (snd (bizHandler D r w n))"
proof -
  obtain es where "snd (bizHandler D r w n) =
     (let n1 = snd (ServeHTTP D r (wrapped w) n) in n1\<lparr>nWorld := emits es (nWorld n1)\<rparr>)"
    using bizHandler_node by blast
  with ServeHTTP_node_inv [OF assms] show ?thesis by (simp add: Let_def)
qed

lemma bizHandler_status:
  assumes "wStatus w = None" "wBody w = []" "dRegistry D = plugin_registry X T"
  shows "\<exists>w'. fst (bizHandler D r w n) = Done w' \<and>
    (sent_as_logged {200, 404, 429, 502} w' \<and> bytes_ok w' \<and>
       (\<exists>n1. snd (bizHandler D r w n) = n1\<lparr>nWorld := emits (request_events r w') (nWorld n1)\<rparr>) \<or>
     wStatus w' = Some 500)"
proof -
  have w: "wStatus (wrapped w) = None" "bytes_ok (wrapped w)"
    using assms(1,2) by (simp_all add: bytes_ok_def)
  obtain res n1 where s: "ServeHTTP D r (wrapped w) n = (res, n1)"
    by (cases "ServeHTTP D r (wrapped w) n")
  show ?thesis
  proof (cases res)
    case (Done w')
    then have "sent_as_logged {200, 404, 429, 502} w'" "bytes_ok w'"
      using ServeHTTP_status [OF w(1) assms(3), of r n] ServeHTTP_bytes [OF w(2) assms(3), of r n] s by auto
    then show ?thesis
      using s Done by (auto simp: bizHandler_def Recovery_def RequestLogger_def)
  next
    case (Crashed w')
    then have "w' = wrapped w"
      using ServeHTTP_status [OF w(1) assms(3), of r n] s by auto
    with Crashed s w show ?thesis
      by (auto simp: bizHandler_def Recovery_def RequestLogger_def http_Error_fresh)
  qed
qed

section \<open>A request that passes the plugins\<close>

text \<open>Its domain, the pipeline context, the request as the plugins leave it, and the node then.\<close>

definition passed ::
  "('s, 'o, 'l) deps \<Rightarrow> Request \<Rightarrow> ('s, 'o, 'l) node \<Rightarrow>
   (DomainConfig \<times> PipelineContext \<times> Request \<times> ('s, 'o, 'l) node) option" where
  "passed D r n =
     (case nDomains n (stripPort (Host r)) of
        None \<Rightarrow> None
      | Some cfg \<Rightarrow>
          (case Pipeline_Execute (dRegistry D) (Plugins cfg) (Domain cfg) new_writer r (nWorld n) of
             (ok, pCtx, w1, r1, wd1) \<Rightarrow> if ok then Some (cfg, pCtx, r1, n\<lparr>nWorld := wd1\<rparr>) else None))"

lemma passed_node:
  assumes "passed D r n = Some (cfg, pCtx, r1, n1)"
  shows "nCache n1 = nCache n" "nStorage n1 = nStorage n" "nFlush n1 = nFlush n" "nPuller n1 = nPuller n"
    "entry_of n1 k = entry_of n k"
  using assms by (auto simp: passed_def entry_of_def split: option.splits prod.splits if_splits)

text \<open>The business server answers it with what \<open>serve_cached\<close> answers, and counts it.\<close>

lemma biz_passed:
  assumes "passed D r n = Some (cfg, pCtx, r1, n1)" "dRegistry D = plugin_registry X T"
    and "serve_cached D cfg pCtx new_writer r1 n1 = (Done w', n2)"
  shows "bizHandler D r new_writer n =
    (Done w', n2\<lparr>nWorld := emits (request_events r w') (nWorld n2)\<rparr>)"
proof -
  have nw: "wrapped new_writer = new_writer" by (simp add: new_writer_def)
  obtain w1 wd1 where dom: "nDomains n (stripPort (Host r)) = Some cfg"
    and pipe: "Pipeline_Execute (dRegistry D) (Plugins cfg) (Domain cfg) new_writer r (nWorld n) =
      (True, pCtx, w1, r1, wd1)" and n1: "n1 = n\<lparr>nWorld := wd1\<rparr>"
    using assms(1) by (auto simp: passed_def split: option.splits prod.splits if_splits)
  have "w1 = new_writer" by (rule plugins.run_pass [OF pipe [unfolded Pipeline_Execute_def Let_def assms(2)]])
  then have "ServeHTTP D r new_writer n = (Done w', n2)"
    using assms(3) unfolding ServeHTTP_def dom option.case pipe prod.case Let_def n1 by simp
  then show ?thesis by (simp add: bizHandler_def Recovery_def RequestLogger_def nw)
qed

end
