(* ===== verification/System.thy ===== *)
theory System
  imports Server
begin

text \<open>
  The running service (\<open>cmd/server/main.go\<close>): its start from a loaded configuration, the hot
  reload callback, and the step relation of its events. Every event is atomic here; what overlapping
  calls can do to the cache, to a fetch and to the flush rules is in theories LRUConc, Stampede
  and FlushRace, and where served content comes from in Provenance.
\<close>

section \<open>Start\<close>

text \<open>
  \<open>main\<close> from the loaded configuration to the handlers; \<open>None\<close> is an exit with status 1.
  \<open>init\<close> is \<open>NewLocalFS\<close> on the root directory. The dependencies get the key builder of the
  configuration.
\<close>

definition boot ::
  "('s, 'o, 'l) deps \<Rightarrow> (string \<Rightarrow> 's option) \<Rightarrow> Config \<Rightarrow> 'o \<Rightarrow> 'l world \<Rightarrow>
   (('s, 'o, 'l) deps \<times> ('s, 'o, 'l) node) option" where
  "boot D init cfg o1 wd =
     (if stType (cfgStorage cfg) = ''localfs'' \<or> stType (cfgStorage cfg) = [] then
        (case init (stRootDir (cfgStorage cfg)) of
           None \<Rightarrow> None
         | Some st \<Rightarrow>
             (case Store_Load (dStorage D) (dRules D) (New, st) of
                (Some e, fs, st1) \<Rightarrow> None
              | (None, fs, st1) \<Rightarrow>
                  (let D1 = D\<lparr>dKeyBuilder := NewKeyBuilder (cfgKeyRules cfg)\<rparr>;
                       c = NewLRUCache (MaxItems (cfgCache cfg));
                       n = NewHandler c st1 fs (New_Puller o1) wd
                   in Some (D1, Update (cfgDomains cfg) n))))
      else None)"

text \<open>\<open>main\<close> up to the handlers: load the configuration, start, and give the admin handler the configuration.\<close>

definition startup ::
  "('s, 'o, 'l) deps \<Rightarrow> admin_codec \<Rightarrow> (bytes \<Rightarrow> Config option) \<Rightarrow> (string \<Rightarrow> bytes option) \<Rightarrow> string \<Rightarrow>
   (string \<Rightarrow> 's option) \<Rightarrow> 'o \<Rightarrow> 'l world \<Rightarrow> (Config \<times> ('s, 'o, 'l) deps \<times> admin \<times> ('s, 'o, 'l) node) option" where
  "startup D AC yaml readfile path init o1 wd =
     (case Load yaml readfile path of
        Inl e \<Rightarrow> None
      | Inr cfg \<Rightarrow>
          (case boot D init cfg o1 wd of
             None \<Rightarrow> None
           | Some (D1, n) \<Rightarrow> Some (cfg, D1, New_admin AC cfg, n)))"

lemma startup_SomeD:
  assumes "startup D AC yaml readfile path init o1 wd = Some (cfg, D1, A, n)"
  shows "boot D init cfg o1 wd = Some (D1, n)" "config_ok cfg" "A = New_admin AC cfg"
    "dDo D1 = dDo D" "dRegistry D1 = dRegistry D" "dStorage D1 = dStorage D"
proof -
  show b: "boot D init cfg o1 wd = Some (D1, n)" and "A = New_admin AC cfg"
    using assms by (auto simp: startup_def split: sum.splits option.splits prod.splits)
  show "config_ok cfg"
    using assms Defaults_config_ok
    by (auto simp: startup_def Load_def split: sum.splits option.splits prod.splits)
  show "dDo D1 = dDo D" "dRegistry D1 = dRegistry D" "dStorage D1 = dStorage D"
    using b by (auto simp: boot_def Let_def split: if_splits option.splits prod.splits)
qed

text \<open>The callback passed to \<open>config.Watch\<close>; the error of \<open>Cleanup\<close> is ignored.\<close>

definition hot_reload :: "('s, 'o, 'l) deps \<Rightarrow> Config \<Rightarrow> ('s, 'o, 'l) node \<Rightarrow> ('s, 'o, 'l) node" where
  "hot_reload D newCfg n =
     (let n1 = Update (cfgDomains newCfg) n;
          (now, wd1) = time_Now (nWorld n1);
          (e, fs, st) = Store_Cleanup (dStorage D) (dRules D) now (FlushRuleMaxAge (cfgCache newCfg))
                          (nFlush n1, nStorage n1)
      in n1\<lparr>nFlush := fs, nStorage := st, nWorld := wd1\<rparr>)"

lemma boot_inv:
  assumes "boot D init cfg o1 wd = Some (D1, n)" "config_ok cfg" "limits_inv (wlimits wd)"
  shows "node_inv n"
proof -
  obtain st fs st1 where l: "Store_Load (dStorage D) (dRules D) (New, st) = (None, fs, st1)"
    and n: "n = Update (cfgDomains cfg) (NewHandler (NewLRUCache (MaxItems (cfgCache cfg))) st1 fs (New_Puller o1) wd)"
    using assms(1) by (auto simp: boot_def Let_def split: if_splits option.splits prod.splits)
  have "store_inv fs"
    using l by (auto simp: Store_Load_def store_inv_New intro!: store_inv_load
        split: prod.splits sum.splits option.splits)
  with assms(2,3) show ?thesis
    unfolding n by (intro Update_node_inv)
      (simp add: node_inv_def NewHandler_def lru_inv_new config_ok_def)
qed

lemma hot_reload_inv: "node_inv n \<Longrightarrow> node_inv (hot_reload D cfg n)"
  using Update_node_inv [of n "cfgDomains cfg"]
  by (auto simp: hot_reload_def Let_def time_Now_def node_inv_def Store_Cleanup_def
      store_inv_cleanup split: prod.split)


section \<open>Steps\<close>

datatype sys_event =
    EvRequest Request
  | EvAdmin admin_endpoint string bytes
  | EvReload Config
  | EvLimiterTick string

text \<open>One tick of the cleanup goroutine of a domain that runs one.\<close>

definition limiter_tick :: "string \<Rightarrow> 'tb limits world \<Rightarrow> 'tb limits world" where
  "limiter_tick d wd =
     (case wlimits wd d of
        None \<Rightarrow> wd
      | Some s \<Rightarrow>
          if psCleanup s then
            (let (now, wd1) = time_Now wd in wd1\<lparr>wlimits := (wlimits wd1)(d \<mapsto> cleanup_tick now s)\<rparr>)
          else wd)"

fun sys_step ::
  "('s, 'o, 'tb limits) deps \<Rightarrow> admin \<Rightarrow> sys_event \<Rightarrow> ('s, 'o, 'tb limits) node \<Rightarrow>
   ('s, 'o, 'tb limits) node" where
  "sys_step D A (EvRequest r) n = snd (bizHandler D r new_writer n)"
| "sys_step D A (EvAdmin ep query body) n = snd (endpoint D A ep query body new_writer n)"
| "sys_step D A (EvReload cfg) n = hot_reload D cfg n"
| "sys_step D A (EvLimiterTick d) n = n\<lparr>nWorld := limiter_tick d (nWorld n)\<rparr>"

inductive reachable ::
  "('s, 'o, 'tb limits) deps \<Rightarrow> admin \<Rightarrow> ('s, 'o, 'tb limits) node \<Rightarrow> ('s, 'o, 'tb limits) node \<Rightarrow> bool"
  for D A n0 where
  start: "reachable D A n0 n0"
| step: "reachable D A n0 n \<Longrightarrow> reachable D A n0 (sys_step D A ev n)"

lemma limiter_tick_inv: "limits_inv (wlimits wd) \<Longrightarrow> limits_inv (wlimits (limiter_tick d wd))"
  by (auto simp: limiter_tick_def time_Now_def limits_inv_def Let_def ps_inv_cleanup
      split: option.splits if_splits)

lemma sys_step_inv:
  assumes "node_inv n" "runs_once (dDo D)" "dRegistry D = plugin_registry X T"
  shows "node_inv (sys_step D A ev n)"
proof (cases ev)
  case (EvRequest r)
  then show ?thesis using bizHandler_inv [OF assms] by simp
next
  case (EvAdmin ep query body)
  then show ?thesis using endpoint_inv [OF assms(1)] by simp
next
  case (EvReload cfg)
  then show ?thesis using hot_reload_inv [OF assms(1)] by simp
next
  case (EvLimiterTick d)
  have "limits_inv (wlimits (limiter_tick d (nWorld n)))"
    using assms(1) by (intro limiter_tick_inv) (simp add: node_inv_def)
  with EvLimiterTick assms(1) show ?thesis by (simp add: node_inv_def)
qed

text \<open>The capacity of the cache never changes.\<close>

lemma ServeHTTP_maxItems:
  assumes "lru_inv (nCache n)" "runs_once (dDo D)" "dRegistry D = plugin_registry X T"
  shows "maxItems (nCache (snd (ServeHTTP D r w n))) = maxItems (nCache n)"
proof (cases "nDomains n (stripPort (Host r))")
  case None
  then show ?thesis by (simp add: ServeHTTP_unknown)
next
  case (Some cfg)
  from Some assms(3) show ?thesis
  proof (cases rule: ServeHTTP_known [where w = w])
    case (passed pCtx r' wd')
    then show ?thesis
      using serve_cached_inv [of "n\<lparr>nWorld := wd'\<rparr>" D cfg pCtx w r'] assms(1,2) by simp
  qed simp
qed

lemma sys_step_maxItems:
  assumes "node_inv n" "runs_once (dDo D)" "dRegistry D = plugin_registry X T"
  shows "maxItems (nCache (sys_step D A ev n)) = maxItems (nCache n)"
proof (cases ev)
  case (EvRequest r)
  obtain es where "snd (bizHandler D r new_writer n) =
     (let n1 = snd (ServeHTTP D r (wrapped new_writer) n)
      in n1\<lparr>nWorld := emits es (nWorld n1)\<rparr>)"
    using bizHandler_node by blast
  with ServeHTTP_maxItems [of n D X T r] assms EvRequest show ?thesis
    by (simp add: Let_def node_inv_def)
next
  case (EvAdmin ep query body)
  show ?thesis
    using EvAdmin
    by (cases ep) (auto simp: FlushURL_def FlushPrefix_def FlushDomain_def Stat_def
        SingleflightCache_Delete_def add_flush_rule_state Delete_maxItems Let_def split_beta time_Now_def
        split: option.split list.split sum.split)
next
  case (EvReload cfg)
  then show ?thesis by (auto simp: hot_reload_def Update_def Let_def time_Now_def split: prod.split)
qed simp

lemma reachable_inv:
  assumes "reachable D A n0 n" "node_inv n0" "runs_once (dDo D)" "dRegistry D = plugin_registry X T"
  shows "node_inv n"
  using assms by induction (auto intro: sys_step_inv)


text \<open>Between two reloads no flush rule is lost.\<close>

fun is_reload :: "sys_event \<Rightarrow> bool" where
  "is_reload (EvReload cfg) = True"
| "is_reload _ = False"

lemma ServeHTTP_nFlush: "nFlush (snd (ServeHTTP D r w n)) = nFlush n"
  by (auto simp: ServeHTTP_def Let_def serve_cached_frame split: option.split prod.split)

lemma bizHandler_nFlush: "nFlush (snd (bizHandler D r w n)) = nFlush n"
proof -
  obtain es where "snd (bizHandler D r w n) =
     (let n1 = snd (ServeHTTP D r (wrapped w) n)
      in n1\<lparr>nWorld := emits es (nWorld n1)\<rparr>)"
    using bizHandler_node by blast
  then show ?thesis by (simp add: Let_def ServeHTTP_nFlush)
qed

lemma endpoint_rules:
  "set (rules_of (nFlush n) d) \<subseteq> set (rules_of (nFlush (snd (endpoint D A ep query body w n))) d)"
  by (cases ep) (auto simp: FlushURL_def FlushPrefix_def FlushDomain_def Stat_def Let_def time_Now_def
      add_flush_rule_state split: option.split list.split sum.split prod.split)

lemma sys_step_rules:
  "\<not> is_reload ev \<Longrightarrow> set (rules_of (nFlush n) d) \<subseteq> set (rules_of (nFlush (sys_step D A ev n)) d)"
  by (cases ev) (simp_all add: bizHandler_nFlush endpoint_rules)

lemma sys_run_rules:
  "list_all (\<lambda>ev. \<not> is_reload ev) evs \<Longrightarrow>
   set (rules_of (nFlush n) d) \<subseteq> set (rules_of (nFlush (fold (sys_step D A) evs n)) d)"
proof (induction evs arbitrary: n)
  case (Cons ev evs)
  then have "set (rules_of (nFlush n) d) \<subseteq> set (rules_of (nFlush (sys_step D A ev n)) d)"
    by (simp add: sys_step_rules)
  with Cons.IH [of "sys_step D A ev n"] Cons.prems show ?case by auto
qed simp

lemma sys_run_inv:
  assumes "node_inv n" "runs_once (dDo D)" "dRegistry D = plugin_registry X T"
  shows "node_inv (fold (sys_step D A) evs n)"
  using assms(1) by (induction evs arbitrary: n) (simp_all add: sys_step_inv [OF _ assms(2,3)])

end
