(* ===== verification/Provenance.thy ===== *)
theory Provenance
  imports System
begin

text \<open>
  Where the content of the service comes from. A run carries its history: the events with the states
  they met. \<open>fetched_in\<close> computes what one request fetched (key, body and metadata), and the
  invariants of this theory say that every entry of the index, and under the contract of the storage
  every body in it, was fetched by a request of the history. So a statement about served content
  names the very fetch it goes back to. What is proved here is used for a service that starts on an
  empty disk (Spec2Isabelle) and for one that starts after a crash (Crash).
\<close>

section \<open>Fetches\<close>

text \<open>
  What a request fetches in a state: nothing if a plugin rejects it, if the cache answers it or if the
  fetch fails, else the key, the body and the metadata of the new entry.
\<close>

definition fetched_in ::
  "('s, 'o, 'l) deps \<Rightarrow> Request \<Rightarrow> ('s, 'o, 'l) node \<Rightarrow> (string \<times> bytes \<times> Meta) option" where
  "fetched_in D r n =
     (case passed D r n of
        None \<Rightarrow> None
      | Some (cfg, pCtx, r1, n1) \<Rightarrow>
          (case fst (first_look D cfg pCtx r1 n1) of
             Inr _ \<Rightarrow> None
           | Inl _ \<Rightarrow>
               (case fst (fetch_look D cfg pCtx r1 n1) of
                  Inl _ \<Rightarrow> None
                | Inr (rd, m) \<Rightarrow> Some (serve_key D cfg pCtx r1, rd_data rd, m))))"

lemma fetched_in_pass:
  "passed D r n = Some (cfg, pCtx, r1, n1) \<Longrightarrow> fst (first_look D cfg pCtx r1 n1) = Inl e \<Longrightarrow>
   fst (fetch_look D cfg pCtx r1 n1) = Inr (rd, m) \<Longrightarrow>
   fetched_in D r n = Some (serve_key D cfg pCtx r1, rd_data rd, m)"
  by (simp add: fetched_in_def)

text \<open>
  It is a response to a pull from the origins of the configuration in force, for that request, from the
  state the puller was in; the metadata has the two clock readings after the two of the lookups.
\<close>

lemma fetched_inE:
  assumes "fetched_in D r n = Some (k, b, m)"
  obtains cfg pCtx r1 n1 resp p1 where "passed D r n = Some (cfg, pCtx, r1, n1)" "k = serve_key D cfg pCtx r1"
    "Puller_Pull (dNet D) (wrap64 (OriginTimeout cfg * (OriginRetry cfg + 2))) (Origins cfg)
       (OriginTimeout cfg) (OriginRetry cfg) (originPath pCtx r1) (ReqHeader r1) (nPuller n) = (Returned resp, p1)"
    "RespBody resp = bytes_reader b" "mHeaders m = Some (RespHeader resp)"
    "WrittenAt m = wclock (nWorld n1) (wticks (nWorld n1) + 3)"
    "TTL m = ParseTTL (dParseTime D) (wclock (nWorld n1) (wticks (nWorld n1) + 2)) (RespHeader resp) (DefaultTTL cfg)"
proof -
  obtain cfg pCtx r1 n1 rd where p: "passed D r n = Some (cfg, pCtx, r1, n1)" "k = serve_key D cfg pCtx r1"
    and f: "fst (fetch_look D cfg pCtx r1 n1) = Inr (rd, m)" "rd_data rd = b"
    using assms by (auto simp: fetched_in_def split: option.splits prod.splits sum.splits)
  obtain p1 wd1 where "originFetch D cfg pCtx r1 k (nPuller n, look_world (nWorld n1)) = (Inr (rd, m), p1, wd1)"
    using f(1) passed_node(4) [OF p(1)] p(2) by (cases "fetch_look D cfg pCtx r1 n1") (auto simp: fetch_look_def)
  then show ?thesis
    by (rule originFetch_Inr) (use f(2) in \<open>auto simp: look_world_def ReadAll_Inr eval_nat_numeral intro!: that [OF p]\<close>)
qed

text \<open>The handler by way of \<open>passed\<close>, whatever the registry.\<close>

lemma ServeHTTP_passed:
  assumes "passed D r n = Some (cfg, pCtx, r1, n1)"
  shows "\<exists>w. ServeHTTP D r (wrapped new_writer) n = serve_cached D cfg pCtx w r1 n1"
proof -
  have "wrapped new_writer = new_writer" by (simp add: new_writer_def)
  with assms show ?thesis
    by (auto simp: passed_def ServeHTTP_def Let_def split: option.splits prod.splits if_splits)
qed

lemma ServeHTTP_not_passed:
  assumes "passed D r n = None"
  shows "\<exists>wd. snd (ServeHTTP D r (wrapped new_writer) n) = n\<lparr>nWorld := wd\<rparr>"
proof -
  have "wrapped new_writer = new_writer" by (simp add: new_writer_def)
  moreover have "\<exists>wd. n = n\<lparr>nWorld := wd\<rparr>" by (rule exI [of _ "nWorld n"]) simp
  ultimately show ?thesis using assms
    by (auto simp: passed_def ServeHTTP_def Let_def split: option.splits prod.splits if_splits)
qed

text \<open>What a request sets, it fetched.\<close>

lemma serve_history_fetched:
  assumes "passed D r n = Some (cfg, pCtx, r1, n1)" "OpSet k b m \<in> set (serve_history D cfg pCtx r1 n1)"
  shows "fetched_in D r n = Some (k, b, m)"
proof -
  have "\<exists>e. fst (first_look D cfg pCtx r1 n1) = Inl e"
    using assms(2) by (auto simp: serve_history_def flush_history_def gof_history_def first_look_def
        split: if_splits sum.splits)
  then obtain e where "fst (first_look D cfg pCtx r1 n1) = Inl e" by blast
  moreover from serve_history_Set [OF assms(2)] obtain rd where "k = serve_key D cfg pCtx r1"
    "fst (fetch_look D cfg pCtx r1 n1) = Inr (rd, m)" "rd_data rd = b" by blast
  ultimately show ?thesis using fetched_in_pass [OF assms(1)] by blast
qed


section \<open>Runs with their history\<close>

type_synonym ('s, 'o, 'tb) history = "(('s, 'o, 'tb limits) node \<times> sys_event) list"

text \<open>The keys an event hands to the cache, and the metadata a request may store.\<close>

fun event_keys ::
  "('s, 'o, 'tb limits) deps \<Rightarrow> admin \<Rightarrow> sys_event \<Rightarrow> ('s, 'o, 'tb limits) node \<Rightarrow> string list" where
  "event_keys D A (EvRequest r) n =
     (case passed D r n of None \<Rightarrow> [] | Some (cfg, pCtx, r1, n1) \<Rightarrow> [serve_key D cfg pCtx r1])"
| "event_keys D A (EvAdmin EpFlushURL query body) n =
     (case decURL (aCodec A) body of
        None \<Rightarrow> []
      | Some url \<Rightarrow> (case parseURL (aCodec A) url of None \<Rightarrow> [] | Some p \<Rightarrow> [admin_key D A p]))"
| "event_keys D A _ n = []"

fun event_metas ::
  "('s, 'o, 'tb limits) deps \<Rightarrow> sys_event \<Rightarrow> ('s, 'o, 'tb limits) node \<Rightarrow> Metadata list" where
  "event_metas D (EvRequest r) n =
     (case passed D r n of
        None \<Rightarrow> []
      | Some (cfg, pCtx, r1, n1) \<Rightarrow>
          (case fst (fetch_look D cfg pCtx r1 n1) of Inl _ \<Rightarrow> [] | Inr (rd, m) \<Rightarrow> [metaToStorageMeta (dFmt D) m]))"
| "event_metas D _ n = []"

text \<open>
  Runs from \<open>n0\<close> whose keys lie in \<open>K\<close> and whose metadata satisfies \<open>ok\<close> (with \<open>UNIV\<close> and the true
  predicate these are all runs); the history has the latest event last.
\<close>

inductive reach ::
  "(Metadata \<Rightarrow> bool) \<Rightarrow> string set \<Rightarrow> ('s, 'o, 'tb limits) deps \<Rightarrow> admin \<Rightarrow> ('s, 'o, 'tb limits) node \<Rightarrow>
   ('s, 'o, 'tb) history \<Rightarrow> ('s, 'o, 'tb limits) node \<Rightarrow> bool"
  for ok K D A n0 where
  reach_start: "reach ok K D A n0 [] n0"
| reach_step: "reach ok K D A n0 tr n \<Longrightarrow> set (event_keys D A ev n) \<subseteq> K \<Longrightarrow>
    list_all ok (event_metas D ev n) \<Longrightarrow> reach ok K D A n0 (tr @ [(n, ev)]) (sys_step D A ev n)"

lemma reach_inv:
  assumes "reach ok K D A n0 tr n" "node_inv n0" "runs_once (dDo D)" "dRegistry D = plugin_registry X T"
  shows "node_inv n"
  using assms(1,2) by induction (auto intro: sys_step_inv [OF _ assms(3,4)])

text \<open>Every state of the history is one the run went through.\<close>

lemma reach_history:
  "reach ok K D A n0 tr n \<Longrightarrow> (n', ev) \<in> set tr \<Longrightarrow> \<exists>tr'. reach ok K D A n0 tr' n' \<and> set tr' \<subseteq> set tr"
proof (induction rule: reach.induct)
  case (reach_step tr n ev1)
  show ?case
  proof (cases "(n', ev) \<in> set tr")
    case True
    from reach_step.IH [OF this] show ?thesis by auto
  next
    case False
    with reach_step.prems have "n' = n" by simp
    with reach_step.hyps(1) show ?thesis by auto
  qed
qed simp

text \<open>A domain is configured at the start or by a configuration that was loaded in the run.\<close>

definition configured :: "('s, 'o, 'tb limits) node \<Rightarrow> ('s, 'o, 'tb) history \<Rightarrow> DomainConfig \<Rightarrow> bool" where
  "configured n0 tr cfg \<longleftrightarrow> cfg \<in> ran (nDomains n0) \<or>
     (\<exists>n c. (n, EvReload c) \<in> set tr \<and> cfg \<in> set (cfgDomains c))"

lemma sys_step_domains:
  assumes "\<not> is_reload ev" shows "nDomains (sys_step D A ev n) = nDomains n"
proof (cases ev)
  case (EvRequest r)
  obtain es where "snd (bizHandler D r new_writer n) =
     (let n1 = snd (ServeHTTP D r (wrapped new_writer) n) in n1\<lparr>nWorld := emits es (nWorld n1)\<rparr>)"
    using bizHandler_node by blast
  then show ?thesis
    by (auto simp: EvRequest Let_def ServeHTTP_def serve_cached_frame split: option.split prod.split)
next
  case (EvAdmin ep query body)
  then show ?thesis
    by (cases ep) (auto simp: FlushURL_def FlushPrefix_def FlushDomain_def Stat_def
        SingleflightCache_Delete_def add_flush_rule_state Let_def split_beta time_Now_def
        split: option.split list.split sum.split)
qed (use assms in simp_all)

lemma reach_configured:
  "reach ok K D A n0 tr n \<Longrightarrow> nDomains n h = Some cfg \<Longrightarrow> configured n0 tr cfg"
proof (induction arbitrary: h rule: reach.induct)
  case reach_start
  then show ?case by (auto simp: configured_def ran_def)
next
  case (reach_step tr n ev)
  show ?case
  proof (cases "is_reload ev")
    case True
    then obtain c where ev: "ev = EvReload c" by (cases ev) auto
    have "find (\<lambda>d. Domain d = h) (rev (cfgDomains c)) = Some cfg"
      using reach_step.prems
      by (simp add: ev hot_reload_def Update_def Let_def time_Now_def domain_table_find split: prod.splits)
    then have "cfg \<in> set (rev (cfgDomains c))" unfolding find_Some_iff by (metis nth_mem)
    then have "cfg \<in> set (cfgDomains c)" by simp
    then show ?thesis by (auto simp: configured_def ev)
  next
    case False
    with reach_step.prems have "nDomains n h = Some cfg" by (simp add: sys_step_domains)
    from reach_step.IH [OF this] show ?thesis by (auto simp: configured_def)
  qed
qed

lemma reach_passed_configured:
  assumes "reach ok K D A n0 tr n" "(n', EvRequest r') \<in> set (tr @ [(n, EvRequest r)])"
    and "passed D r' n' = Some (cfg, pCtx, r1, n1)"
  shows "configured n0 tr cfg"
proof -
  have dom: "nDomains n' (stripPort (Host r')) = Some cfg"
    using assms(3) by (auto simp: passed_def split: option.splits prod.splits if_splits)
  have "\<exists>tr'. reach ok K D A n0 tr' n' \<and> set tr' \<subseteq> set tr"
  proof (cases "(n', EvRequest r') \<in> set tr")
    case True
    from reach_history [OF assms(1) this] show ?thesis by blast
  next
    case False
    with assms(1,2) show ?thesis by auto
  qed
  then obtain tr' where "reach ok K D A n0 tr' n'" "set tr' \<subseteq> set tr" by blast
  with reach_configured [OF _ dom] show ?thesis unfolding configured_def by blast
qed


section \<open>Entries of the index\<close>

text \<open>\<open>b\<close> and \<open>m\<close> were fetched under the key \<open>k\<close> by a request of the history.\<close>

definition origin_entry ::
  "('s, 'o, 'tb limits) deps \<Rightarrow> ('s, 'o, 'tb) history \<Rightarrow> string \<Rightarrow> bytes \<Rightarrow> Meta \<Rightarrow> bool" where
  "origin_entry D tr k b m \<longleftrightarrow> (\<exists>n r. (n, EvRequest r) \<in> set tr \<and> fetched_in D r n = Some (k, b, m))"

lemma origin_entry_mono: "origin_entry D tr k b m \<Longrightarrow> set tr \<subseteq> set tr' \<Longrightarrow> origin_entry D tr' k b m"
  unfolding origin_entry_def by blast

lemma origin_entry_now: "fetched_in D r n = Some (k, b, m) \<Longrightarrow> origin_entry D (tr @ [(n, EvRequest r)]) k b m"
  unfolding origin_entry_def by (intro exI [of _ n] exI [of _ r]) simp

text \<open>The metadata of every entry is that of a fetch of the run, whatever the disk does.\<close>

definition index_ok :: "('s, 'o, 'tb limits) deps \<Rightarrow> ('s, 'o, 'tb) history \<Rightarrow> ('s, 'o, 'tb limits) node \<Rightarrow> bool" where
  "index_ok D tr n \<longleftrightarrow> (\<forall>m \<in> set (cache_view (nCache n)). \<exists>b. origin_entry D tr (mKey m) b m)"

lemma index_ok_mono:
  "index_ok D tr n \<Longrightarrow> set tr \<subseteq> set tr' \<Longrightarrow> set (cache_view (nCache n')) \<subseteq> set (cache_view (nCache n)) \<Longrightarrow>
   index_ok D tr' n'"
  unfolding index_ok_def by (blast intro: origin_entry_mono)

lemma index_ok_request:
  assumes "node_inv n" "runs_once (dDo D)" "index_ok D tr n"
  shows "index_ok D (tr @ [(n, EvRequest r)]) (snd (ServeHTTP D r (wrapped new_writer) n))"
proof (cases "passed D r n")
  case None
  from ServeHTTP_not_passed [OF this] obtain wd where "snd (ServeHTTP D r (wrapped new_writer) n) = n\<lparr>nWorld := wd\<rparr>" ..
  then show ?thesis by (intro index_ok_mono [OF assms(3)]) auto
next
  case (Some p)
  obtain cfg pCtx r1 n1 where "p = (cfg, pCtx, r1, n1)" by (cases p)
  with Some have pass: "passed D r n = Some (cfg, pCtx, r1, n1)" by simp
  obtain w where w: "ServeHTTP D r (wrapped new_writer) n = serve_cached D cfg pCtx w r1 n1"
    using ServeHTTP_passed [OF pass] by blast
  have inv: "lru_inv (nCache n1)" using assms(1) passed_node(1) [OF pass] by (simp add: node_inv_def)
  let ?n = "snd (serve_cached D cfg pCtx w r1 n1)"
  have "nCache ?n = fst (fold (run_op (dStorage D) (dFmt D)) (serve_history D cfg pCtx r1 n1) (nCache n1, nStorage n1))"
    using serve_cached_history [OF inv assms(2), of cfg pCtx w r1] by (metis fst_conv)
  with fold_run_op_entries [of "(nCache n1, nStorage n1)" "serve_history D cfg pCtx r1 n1" "dStorage D" "dFmt D"]
    inv serve_history_Set(2) [of _ _ _ D cfg pCtx r1 n1]
  have entries: "set (cache_view (nCache ?n)) \<subseteq> set (cache_view (nCache n)) \<union>
      {m. \<exists>k b. OpSet k b m \<in> set (serve_history D cfg pCtx r1 n1)}"
    by (simp add: passed_node(1) [OF pass])
  show ?thesis
    unfolding index_ok_def w
  proof
    fix m assume "m \<in> set (cache_view (nCache ?n))"
    with entries consider "m \<in> set (cache_view (nCache n))"
      | k b where "OpSet k b m \<in> set (serve_history D cfg pCtx r1 n1)" by blast
    then show "\<exists>b. origin_entry D (tr @ [(n, EvRequest r)]) (mKey m) b m"
    proof cases
      case 1
      with assms(3) show ?thesis unfolding index_ok_def by (fastforce intro: origin_entry_mono)
    next
      case 2
      from origin_entry_now [OF serve_history_fetched [OF pass 2]] serve_history_Set(2) [OF 2] show ?thesis by blast
    qed
  qed
qed

lemma index_ok_step:
  assumes "node_inv n" "runs_once (dDo D)" "index_ok D tr n"
  shows "index_ok D (tr @ [(n, ev)]) (sys_step D A ev n)"
proof (cases ev)
  case (EvRequest r)
  obtain es where "snd (bizHandler D r new_writer n) =
     (let n1 = snd (ServeHTTP D r (wrapped new_writer) n) in n1\<lparr>nWorld := emits es (nWorld n1)\<rparr>)"
    using bizHandler_node by blast
  with index_ok_request [OF assms, of r] EvRequest show ?thesis by (simp add: index_ok_def Let_def)
next
  case (EvAdmin ep query body)
  have inv: "lru_inv (nCache n)" using assms(1) by (simp add: node_inv_def)
  have del: "set (cache_view (fst (snd (LRUCache_Delete S k (nCache n, st))))) \<subseteq> set (cache_view (nCache n))" for S k st
    using Delete_refines_spec [OF inv, of S k st]
    by (cases "LRUCache_Delete S k (nCache n, st)") (auto simp: spec_remove_def)
  have "set (cache_view (nCache (sys_step D A ev n))) \<subseteq> set (cache_view (nCache n))"
    unfolding EvAdmin
    by (cases ep) (auto dest!: del [THEN subsetD] simp: FlushURL_def FlushPrefix_def FlushDomain_def Stat_def
        SingleflightCache_Delete_def add_flush_rule_state Let_def split_beta time_Now_def
        split: option.split list.split sum.split)
  then show ?thesis by (intro index_ok_mono [OF assms(3)]) auto
next
  case (EvReload cfg)
  then have "nCache (sys_step D A ev n) = nCache n"
    by (auto simp: hot_reload_def Update_def Let_def time_Now_def split: prod.split)
  then show ?thesis by (intro index_ok_mono [OF assms(3)]) auto
next
  case (EvLimiterTick d)
  then show ?thesis by (intro index_ok_mono [OF assms(3)]) auto
qed

lemma reach_index_ok:
  assumes "reach ok K D A n0 tr n" "node_inv n0" "runs_once (dDo D)" "dRegistry D = plugin_registry X T"
    and "cache_view (nCache n0) = []"
  shows "index_ok D tr n"
  using assms(1)
proof induction
  case reach_start
  show ?case using assms(5) by (simp add: index_ok_def)
next
  case (reach_step tr n ev)
  from index_ok_step [OF reach_inv [OF reach_step.hyps(1) assms(2-4)] assms(3) reach_step.IH] show ?case .
qed

lemma index_entry:
  assumes "index_ok D tr n" "lru_inv (nCache n)" "entry_of n k = Some m"
  shows "\<exists>b. origin_entry D tr k b m"
proof -
  have "spec_lookup k (cache_view (nCache n)) = Some m"
    using assms(2,3) spec_lookup_view [of "nCache n" k] by (simp add: lru_inv_def entry_of_def)
  then have "m \<in> set (cache_view (nCache n))" "mKey m = k"
    by (auto simp: spec_lookup_def find_Some_iff)
  with assms(1) show ?thesis by (auto simp: index_ok_def)
qed


section \<open>Bodies\<close>

text \<open>Everything the ghost map remembers was fetched under that very key in the run.\<close>

definition genuine ::
  "('s, 'o, 'tb limits) deps \<Rightarrow> ('s, 'o, 'tb) history \<Rightarrow> (string \<rightharpoonup> bytes \<times> Meta) \<Rightarrow> bool" where
  "genuine D tr G \<longleftrightarrow> (\<forall>k b m. G k = Some (b, m) \<longrightarrow> origin_entry D tr k b m)"

lemma genuine_mono: "genuine D tr G \<Longrightarrow> set tr \<subseteq> set tr' \<Longrightarrow> genuine D tr' G"
  unfolding genuine_def by (blast intro: origin_entry_mono)

lemma genuine_last_set:
  assumes "genuine D tr G"
    and "\<And>k b m. OpSet k b m \<in> set ops \<Longrightarrow> origin_entry D tr k b m"
  shows "genuine D tr (last_set G ops)"
  using assms
proof (induction G ops rule: last_set.induct)
  case (2 G k b m ops)
  have "genuine D tr (G(k \<mapsto> (b, m)))"
    using 2(2) 2(3) [of k b m] unfolding genuine_def by (simp del: ex_simps)
  then show ?case unfolding last_set.simps by (rule 2(1)) (rule 2(3), simp)
next
  case (3 G k ops)
  have "genuine D tr (G(k := None))" using 3(2) unfolding genuine_def by simp
  then show ?case unfolding last_set.simps by (rule 3(1)) (rule 3(3), simp)
qed simp_all

context storage_contract
begin

definition content_ok ::
  "('s, 'o, 'tb limits) deps \<Rightarrow> string set \<Rightarrow> ('s, 'o, 'tb) history \<Rightarrow> ('s, 'o, 'tb limits) node \<Rightarrow> bool" where
  "content_ok D K tr n \<longleftrightarrow> (\<exists>G. coherent K G (nCache n, nStorage n) \<and> genuine D tr G)"

text \<open>Writing the flush rules under their own key does not touch the content of the cache.\<close>

lemma coherent_storage:
  assumes "coherent K G (c, st)" "inv st'" "reliable st'" "\<And>k. k \<in> K \<Longrightarrow> lookup st' k = lookup st k"
  shows "coherent K G (c, st')"
  using assms unfolding coherent_def by auto

lemma coherent_persist:
  assumes coh: "coherent K G (c, st)" and sep: "separate (insert persistKey K)" "persistKey \<notin> K"
  shows "coherent K G (c, snd (persist S J rs st))"
proof (cases "marshalRules J rs")
  case None
  with coh show ?thesis by (simp add: persist_def)
next
  case (Some data)
  have st: "inv st" "reliable st" using coh by (simp_all add: coherent_def)
  let ?w = "stWrite S persistKey (bytes_reader data) (Some rules_metadata) st"
  have "lookup (snd ?w) k = lookup st k" if "k \<in> K" for k
    using sep that by (intro write_frame [OF st(1)]) (auto simp: separate_def)
  from coherent_storage [OF coh write_inv [OF st(1)] write_reliable [OF st] this]
  have "coherent K G (c, snd ?w)" by simp
  moreover have "snd (persist S J rs st) = snd ?w"
    by (simp add: persist_def Some split: prod.split option.split)
  ultimately show ?thesis by simp
qed

lemma content_ok_mono:
  "content_ok D K tr n \<Longrightarrow> set tr \<subseteq> set tr' \<Longrightarrow> nCache n' = nCache n \<Longrightarrow> nStorage n' = nStorage n \<Longrightarrow>
   content_ok D K tr' n'"
  unfolding content_ok_def using genuine_mono by fastforce

lemma content_ok_request:
  assumes D: "dStorage D = S" "runs_once (dDo D)" and good: "content_ok D K tr n"
    and sep: "separate (insert persistKey K)"
    and keys: "set (event_keys D A (EvRequest r) n) \<subseteq> K"
    and metas: "list_all ok_meta (event_metas D (EvRequest r) n)"
  shows "content_ok D K (tr @ [(n, EvRequest r)]) (snd (ServeHTTP D r (wrapped new_writer) n))"
proof (cases "passed D r n")
  case None
  from ServeHTTP_not_passed [OF this] obtain wd where "snd (ServeHTTP D r (wrapped new_writer) n) = n\<lparr>nWorld := wd\<rparr>" ..
  then show ?thesis by (intro content_ok_mono [OF good]) auto
next
  case (Some p)
  obtain cfg pCtx r1 n1 where "p = (cfg, pCtx, r1, n1)" by (cases p)
  with Some have pass: "passed D r n = Some (cfg, pCtx, r1, n1)" by simp
  obtain w where w: "ServeHTTP D r (wrapped new_writer) n = serve_cached D cfg pCtx w r1 n1"
    using ServeHTTP_passed [OF pass] by blast
  let ?k = "serve_key D cfg pCtx r1" and ?tr = "tr @ [(n, EvRequest r)]"
  obtain G where G: "coherent K G (nCache n1, nStorage n1)" "genuine D tr G"
    using good by (auto simp: content_ok_def passed_node [OF pass])
  have k: "insert ?k K = K" using keys pass by auto
  have sep': "separate (insert ?k K)" unfolding k using sep by (simp add: separate_def)
  have ok: "ok_meta (metaToStorageMeta (dFmt D) m)" if "fst (fetch_look D cfg pCtx r1 n1) = Inr (rd, m)" for rd m
    using metas that pass by simp
  have "coherent K (last_set G (serve_history D cfg pCtx r1 n1))
      (nCache (snd (serve_cached D cfg pCtx w r1 n1)), nStorage (snd (serve_cached D cfg pCtx w r1 n1)))"
    using serve_coherent [OF D G(1) sep' ok] unfolding k by simp
  moreover have "genuine D ?tr (last_set G (serve_history D cfg pCtx r1 n1))"
  proof (rule genuine_last_set)
    show "genuine D ?tr G" by (rule genuine_mono [OF G(2)]) auto
    show "origin_entry D ?tr k b m" if "OpSet k b m \<in> set (serve_history D cfg pCtx r1 n1)" for k b m
      by (rule origin_entry_now [OF serve_history_fetched [OF pass that]])
  qed
  ultimately show ?thesis unfolding content_ok_def w by blast
qed

lemma content_ok_add_rule:
  assumes "dStorage D = S" "content_ok D K tr n" "separate (insert persistKey K)" "persistKey \<notin> K"
  shows "content_ok D K tr (snd (add_flush_rule D A d p w n))"
proof -
  obtain G where G: "coherent K G (nCache n, nStorage n)" "genuine D tr G"
    using assms(2) by (auto simp: content_ok_def)
  have "\<exists>rs. nStorage (snd (add_flush_rule D A d p w n)) = snd (persist S (dRules D) rs (nStorage n))"
    by (auto simp: add_flush_rule_def Let_def time_Now_def Store_AddRule_def assms(1)
        split: prod.split option.split) (metis snd_conv)+
  with coherent_persist [OF G(1) assms(3,4)] G(2) show ?thesis
    unfolding content_ok_def add_flush_rule_state by metis
qed

lemma content_ok_admin:
  assumes "dStorage D = S" "content_ok D K tr n" "separate (insert persistKey K)" "persistKey \<notin> K"
    and keys: "set (event_keys D A (EvAdmin ep query body) n) \<subseteq> K"
  shows "content_ok D K tr (snd (endpoint D A ep query body w n))"
proof (cases ep)
  case EpFlushURL
  have sep: "separate (insert k K)" if "k \<in> K" for k
    using that assms(3) by (simp add: insert_absorb separate_def)
  have "content_ok D K tr (n\<lparr>nCache := fst (snd (LRUCache_Delete S k (nCache n, nStorage n))),
      nStorage := snd (snd (LRUCache_Delete S k (nCache n, nStorage n)))\<rparr>)" if k: "k \<in> K" for k
  proof -
    obtain G where G: "coherent K G (nCache n, nStorage n)" "genuine D tr G"
      using assms(2) by (auto simp: content_ok_def)
    have "genuine D tr (G(k := None))" using G(2) by (simp add: genuine_def)
    with coherent_Delete [OF G(1) sep [OF k]] show ?thesis by (auto simp: content_ok_def)
  qed
  with EpFlushURL keys assms(1,2) show ?thesis
    by (auto simp: FlushURL_def SingleflightCache_Delete_def Let_def split_beta split: option.split)
next
  case EpFlushPrefix
  with content_ok_add_rule [OF assms(1-4)] assms(2) show ?thesis
    by (auto simp: FlushPrefix_def split: option.split)
next
  case EpFlushDomain
  with content_ok_add_rule [OF assms(1-4)] assms(2) show ?thesis
    by (auto simp: FlushDomain_def split: option.split)
next
  case EpStat
  then show ?thesis using assms(2)
    by (auto simp: Stat_def Let_def time_Now_def content_ok_def split: option.split list.split sum.split)
qed

lemma content_ok_reload:
  assumes "dStorage D = S" "content_ok D K tr n" "separate (insert persistKey K)" "persistKey \<notin> K"
  shows "content_ok D K tr (hot_reload D cfg n)"
proof -
  obtain G where G: "coherent K G (nCache n, nStorage n)" "genuine D tr G"
    using assms(2) by (auto simp: content_ok_def)
  have "\<exists>rs. nStorage (hot_reload D cfg n) = snd (persist S (dRules D) rs (nStorage n))"
    and "nCache (hot_reload D cfg n) = nCache n"
    by (auto simp: hot_reload_def Update_def Let_def time_Now_def Store_Cleanup_def assms(1)
        split: prod.split) (metis snd_conv)
  with coherent_persist [OF G(1) assms(3,4)] G(2) show ?thesis
    unfolding content_ok_def by metis
qed

lemma content_ok_step:
  assumes D: "dStorage D = S" "runs_once (dDo D)" and good: "content_ok D K tr n"
    and sep: "separate (insert persistKey K)" "persistKey \<notin> K"
    and ev: "set (event_keys D A ev n) \<subseteq> K" "list_all ok_meta (event_metas D ev n)"
  shows "content_ok D K (tr @ [(n, ev)]) (sys_step D A ev n)"
proof (cases ev)
  case (EvRequest r)
  obtain es where "snd (bizHandler D r new_writer n) =
     (let n1 = snd (ServeHTTP D r (wrapped new_writer) n)
      in n1\<lparr>nWorld := emits es (nWorld n1)\<rparr>)"
    using bizHandler_node by blast
  with content_ok_request [OF D good sep(1) ev(1)[unfolded EvRequest] ev(2)[unfolded EvRequest]] EvRequest
  show ?thesis by (simp add: Let_def content_ok_def)
next
  case (EvAdmin ep query body)
  from content_ok_admin [OF D(1) good sep ev(1)[unfolded EvAdmin], of new_writer] show ?thesis
    by (rule content_ok_mono) (auto simp: EvAdmin)
next
  case (EvReload cfg)
  from content_ok_reload [OF D(1) good sep, of cfg] show ?thesis
    by (rule content_ok_mono) (auto simp: EvReload)
next
  case (EvLimiterTick d)
  from good show ?thesis by (rule content_ok_mono) (auto simp: EvLimiterTick)
qed

lemma reach_content_ok:
  assumes "reach ok_meta K D A n0 tr n" "dStorage D = S" "runs_once (dDo D)" "content_ok D K [] n0"
    "separate (insert persistKey K)" "persistKey \<notin> K"
  shows "content_ok D K tr n"
  using assms by induction (auto intro: content_ok_step)

text \<open>A hit in a reachable state: the body that was fetched with the metadata of the entry.\<close>

lemma hit_genuine:
  assumes "dStorage D = S" "content_ok D K tr n"
    "entry_of n (serve_key D cfg pCtx r) = Some m"
    "\<not> flush_hits (Domain cfg) (RewrittenPath pCtx) (serve_key D cfg pCtx r) n"
    "\<not> After (look_time n) (ExpiresAt m)"
  shows "\<exists>b. origin_entry D tr (serve_key D cfg pCtx r) b m \<and>
    fst (serve_cached D cfg pCtx w r n) = Done (write_response True pCtx (bytes_reader b) m w)"
proof -
  obtain G where G: "coherent K G (nCache n, nStorage n)" "genuine D tr G"
    using assms(2) by (auto simp: content_ok_def)
  show ?thesis
  proof (rule serve_fresh [OF assms(1) G(1) assms(3-5), where w = w])
    fix b assume b: "G (serve_key D cfg pCtx r) = Some (b, m)"
      "fst (serve_cached D cfg pCtx w r n) = Done (write_response True pCtx (bytes_reader b) m w)"
    with G(2) show ?thesis unfolding genuine_def by blast
  qed
qed

end


section \<open>Answers with status 200\<close>

text \<open>A response of the business server that answers 200 was written from the cache or the origin.\<close>

lemma biz_200:
  assumes "dRegistry D = plugin_registry X T" "fst (bizHandler D r new_writer n) = Done w'" "wStatus w' = Some 200"
  obtains cfg pCtx r1 n1 where "passed D r n = Some (cfg, pCtx, r1, n1)"
    "fst (serve_cached D cfg pCtx new_writer r1 n1) = Done w'"
proof -
  have w: "wStatus new_writer = None" and nw: "wrapped new_writer = new_writer"
    by (simp_all add: new_writer_def)
  obtain res n1 where s: "ServeHTTP D r new_writer n = (res, n1)" by (cases "ServeHTTP D r new_writer n")
  have done': "res = Done w'"
  proof (cases res)
    case (Done w1)
    with s nw assms(2) show ?thesis by (simp add: bizHandler_def Recovery_def RequestLogger_def)
  next
    case (Crashed w1)
    then have "w1 = new_writer" using ServeHTTP_status [OF w assms(1), of r n] s by auto
    with Crashed s nw assms(2,3) http_Error_fresh [OF w] show ?thesis
      by (auto simp: bizHandler_def Recovery_def RequestLogger_def)
  qed
  show ?thesis
  proof (cases "nDomains n (stripPort (Host r))")
    case None
    with done' s assms(3) http_Error_fresh [OF w] show ?thesis
      by (auto simp: ServeHTTP_unknown http_NotFound_def)
  next
    case (Some cfg)
    from Some assms(1) show ?thesis
    proof (cases rule: ServeHTTP_known [where w = new_writer])
      case (rejected wd')
      with done' s assms(3) http_Error_fresh [OF w] show ?thesis by auto
    next
      case (passed pCtx r' wd')
      with done' s Some show ?thesis by (intro that [of cfg pCtx r' "n\<lparr>nWorld := wd'\<rparr>"]) (simp_all add: passed_def)
    qed
  qed
qed

text \<open>Where its body comes from: fetched by that request, or an entry of the cache.\<close>

lemma biz_200_source:
  assumes D: "runs_once (dDo D)" "dRegistry D = plugin_registry X T" and inv: "lru_inv (nCache n)"
    and req: "fst (bizHandler D r new_writer n) = Done w'" "wStatus w' = Some 200"
  obtains
    (fetched) cfg pCtx r1 n1 b m hit where "passed D r n = Some (cfg, pCtx, r1, n1)"
      "fetched_in D r n = Some (serve_key D cfg pCtx r1, b, m)"
      "w' = write_response hit pCtx (bytes_reader b) m new_writer"
  | (cached) cfg pCtx r1 n1 m where "passed D r n = Some (cfg, pCtx, r1, n1)"
      "fst (serve_cached D cfg pCtx new_writer r1 n1) = Done w'"
      "\<not> flush_hits (Domain cfg) (RewrittenPath pCtx) (serve_key D cfg pCtx r1) n1"
      "entry_of n1 (serve_key D cfg pCtx r1) = Some m" "\<not> After (look_time n1) (ExpiresAt m)"
proof -
  have w: "wStatus new_writer = None" by (simp add: new_writer_def)
  from D(2) req obtain cfg pCtx r1 n1 where pass: "passed D r n = Some (cfg, pCtx, r1, n1)" and
    serve: "fst (serve_cached D cfg pCtx new_writer r1 n1) = Done w'"
    by (rule biz_200)
  have inv': "lru_inv (nCache n1)" using inv passed_node(1) [OF pass] by simp
  show thesis
  proof (cases "fst (first_look D cfg pCtx r1 n1)")
    case (Inr x)
    show thesis by (rule first_look_fresh [OF inv' Inr]) (rule cached [OF pass serve])
  next
    case (Inl e)
    note res = serve_cached_miss(1) [OF inv' D(1) Inl, of new_writer]
    obtain rd m where f: "fst (fetch_look D cfg pCtx r1 n1) = Inr (rd, m)"
      using res serve req(2) http_Error_fresh [OF w] by (auto split: sum.splits fetch_err.splits)
    obtain body where "rd = bytes_reader body"
      using f by (cases "fetch_look D cfg pCtx r1 n1") (auto simp: fetch_look_def elim!: originFetch_Inr)
    then show thesis using res serve f by (intro fetched [OF pass fetched_in_pass [OF pass Inl f]]) simp
  qed
qed

context storage_contract
begin

text \<open>
  Under the contract of the storage: the body was fetched by that request, or the entry it was served
  from was fetched, with that very body, by a request of the history.
\<close>

lemma served_source:
  assumes D: "dStorage D = S" "runs_once (dDo D)" "dRegistry D = plugin_registry X T"
    and good: "content_ok D K tr n"
    and req: "fst (bizHandler D r new_writer n) = Done w'" "wStatus w' = Some 200"
  obtains cfg pCtx r1 n1 b m hit where "passed D r n = Some (cfg, pCtx, r1, n1)"
    "w' = write_response hit pCtx (bytes_reader b) m new_writer"
    "fetched_in D r n = Some (serve_key D cfg pCtx r1, b, m) \<or>
     origin_entry D tr (serve_key D cfg pCtx r1) b m \<and> entry_of n (serve_key D cfg pCtx r1) = Some m \<and>
       \<not> After (look_time n1) (ExpiresAt m)"
proof -
  have inv: "lru_inv (nCache n)" using good by (auto simp: content_ok_def coherent_def)
  show ?thesis
  proof (rule biz_200_source [OF D(2,3) inv req])
    fix cfg pCtx r1 n1 b m hit
    assume f: "passed D r n = Some (cfg, pCtx, r1, n1)" "fetched_in D r n = Some (serve_key D cfg pCtx r1, b, m)"
      "w' = write_response hit pCtx (bytes_reader b) m new_writer"
    show ?thesis by (rule that [OF f(1,3) disjI1 [OF f(2)]])
  next
    fix cfg pCtx r1 n1 m
    assume pass: "passed D r n = Some (cfg, pCtx, r1, n1)"
      and serve: "fst (serve_cached D cfg pCtx new_writer r1 n1) = Done w'"
      and hit: "\<not> flush_hits (Domain cfg) (RewrittenPath pCtx) (serve_key D cfg pCtx r1) n1"
        "entry_of n1 (serve_key D cfg pCtx r1) = Some m" "\<not> After (look_time n1) (ExpiresAt m)"
    note n1 = passed_node [OF pass]
    have "content_ok D K tr n1" by (rule content_ok_mono [OF good]) (simp_all add: n1)
    from hit_genuine [OF D(1) this hit(2,1,3), of new_writer] serve obtain b where
      "origin_entry D tr (serve_key D cfg pCtx r1) b m" "w' = write_response True pCtx (bytes_reader b) m new_writer"
      by auto
    with hit n1(5) show ?thesis by (intro that [OF pass]) auto
  qed
qed

end

text \<open>In a reachable state index and disk agree, and all content was fetched in the run.\<close>

lemma reach_content:
  assumes D: "dStorage D = LocalFS_ops C" "runs_once (dDo D)"
    and start: "nCache n0 = NewLRUCache cap" "0 \<le> cap" "lfs_inv (nStorage n0)" "lfs_reliable (nStorage n0)"
    and keys: "inj_on (keyToPath C) (insert persistKey K)" "persistKey \<notin> K"
    and run: "reach (lfs_ok_meta C) K D A n0 tr n"
  shows "lfs.content_ok C D K tr n"
proof -
  have sep: "lfs.separate C (insert persistKey K)"
    using keys(1) by (auto simp: lfs.separate_def lfs_same_def inj_on_def)
  have "lfs.content_ok C D K [] n0"
    unfolding lfs.content_ok_def start(1)
    by (rule exI [of _ Map.empty]) (simp add: lfs.coherent_new start genuine_def)
  then show ?thesis by (rule lfs.reach_content_ok [OF run D _ sep keys(2)])
qed

end
