(* ===== verification/Examples.thy ===== *)
theory Examples
  imports System
begin

text \<open>
  A small deployment on which the properties of the service are exercised: one domain with one
  origin, the local-filesystem backend on an empty directory, and a network whose origin
  answers every request with the URL it was asked for.
\<close>

definition ex_origin :: "int \<Rightarrow> header \<Rightarrow> unit net_ops" where
  "ex_origin code h = \<lparr>netValidURL = (\<lambda>_. True),
     netDo = (\<lambda>q u. (Inr \<lparr>StatusCode = code, RespHeader = h, RespBody = bytes_reader (oURL q)\<rparr>, u))\<rparr>"

definition ex_down :: "unit net_ops" where
  "ex_down = \<lparr>netValidURL = (\<lambda>_. True), netDo = (\<lambda>q u. (Inl ''refused'', u))\<rparr>"

definition ex_regexp :: "string regexp_ops" where
  "ex_regexp = \<lparr>reCompile = Some, reMatchString = (\<lambda>re s. HasPrefix s re),
     reReplaceAllString = (\<lambda>re s rep. rep @ drop (length re) s)\<rparr>"

definition ex_rules_codec :: "Rule list \<Rightarrow> rules_codec" where
  "ex_rules_codec rs = \<lparr>marshalRules = (\<lambda>_. Some ''rules''), unmarshalRules = (\<lambda>_. Some rs)\<rparr>"

definition ex_deps :: "unit net_ops \<Rightarrow> (localfs, unit, unit limits) deps" where
  "ex_deps N = \<lparr>dStorage = LocalFS_ops ex_codec,
     dFmt = \<lparr>fmtTime = (\<lambda>_. ''t''), fmtDuration = (\<lambda>_. ''d'')\<rparr>,
     dRules = ex_rules_codec [], dSha1 = (\<lambda>b. b), dParseTime = (\<lambda>_. None), dNet = N,
     dRegistry = plugin_registry ex_regexp ex_tb,
     dKeyBuilder = \<lparr>kbGlobal = \<lparr>IncludeQueryParams = [], IncludeHeaders = []\<rparr>\<rparr>,
     dDo = (\<lambda>key f x. f x)\<rparr>"

definition ex_domain :: DomainConfig where
  "ex_domain = \<lparr>Domain = ''a.com'', Origins = [''o''], OriginTimeout = Second, OriginRetry = 0,
     DefaultTTL = Hour, KeyRules = None, Plugins = []\<rparr>"

definition ex_world :: "unit limits world" where
  "ex_world = \<lparr>wclock = (\<lambda>i. int i), wticks = 0, wevents = [], wlimits = Map.empty\<rparr>"

definition ex_node :: "(localfs, unit, unit limits) node" where
  "ex_node = Update [ex_domain] (NewHandler (NewLRUCache 2) ex_fs New (New_Puller ()) ex_world)"

definition ex_req :: Request where
  "ex_req = \<lparr>Host = ''a.com:80'', URLPath = ''/x'', RawQuery = [], ReqHeader = [], RemoteAddr = ''10.0.0.1:5''\<rparr>"

definition ex_pctx :: PipelineContext where
  "ex_pctx = \<lparr>RewrittenPath = ''/x'', SetResponseHeaders = [], DeleteResponseHeaders = []\<rparr>"

definition ex_key :: string where
  "ex_key = ''a.com:/x?#''"

text \<open>The state after one request, which misses.\<close>

definition ex_node1 :: "(localfs, unit, unit limits) node" where
  "ex_node1 = snd (serve_cached (ex_deps (ex_origin 200 [])) ex_domain ex_pctx new_writer ex_req ex_node)"

definition ex_admin :: admin where
  "ex_admin = \<lparr>aCodec = \<lparr>decURL = Some, decPrefix = (\<lambda>b. Some (''a.com'', b)), decDomain = Some,
      parseURL = (\<lambda>u. Some ex_req), showErr = (\<lambda>_. ''error''), encStat = (\<lambda>_. ''{}'')\<rparr>,
     aGlobalCfg = ex_config\<rparr>"

lemma ex_deps_sel [simp]:
  "dStorage (ex_deps N) = LocalFS_ops ex_codec" "dNet (ex_deps N) = N"
  "dRegistry (ex_deps N) = plugin_registry ex_regexp ex_tb" "dDo (ex_deps N) = (\<lambda>key f x. f x)"
  "dRules (ex_deps N) = ex_rules_codec []"
  by (simp_all add: ex_deps_def)

lemma ex_runs_once: "runs_once (dDo (ex_deps N))"
  by (simp add: runs_once_def)

lemma ex_serve_key: "serve_key (ex_deps N) ex_domain ex_pctx ex_req = ex_key"
  by (simp add: serve_key_def Build_def ex_deps_def ex_domain_def ex_pctx_def ex_key_def
      buildQuery_def buildHeaderHash_def Let_def)

lemma ex_node_sel [simp]:
  "nCache ex_node = NewLRUCache 2" "nStorage ex_node = ex_fs" "nFlush ex_node = New"
  "nWorld ex_node = ex_world" "nPuller ex_node = New_Puller ()"
  by (simp_all add: ex_node_def Update_def NewHandler_def)

lemma ex_domains: "nDomains ex_node (stripPort (Host ex_req)) = Some ex_domain"
  by code_simp

lemma ex_entry [simp]: "entry_of ex_node k = None"
  by (simp add: entry_of_def NewLRUCache_def)

lemma ex_node_inv: "node_inv ex_node"
  unfolding ex_node_def
  by (rule Update_node_inv)
     (simp add: node_inv_def NewHandler_def lru_inv_new store_inv_New ex_world_def limits_inv_def)

lemma ex_pipeline:
  "Pipeline_Execute (dRegistry (ex_deps N)) (Plugins ex_domain) (Domain ex_domain) w ex_req wd =
     (True, ex_pctx, w, ex_req, wd)"
  by (simp add: Pipeline_Execute_def ex_domain_def ex_pctx_def ex_req_def)

lemma ex_coherent: "lfs.coherent ex_codec {} Map.empty (nCache ex_node, nStorage ex_node)"
  using lfs.coherent_new [OF _ ex_fs_ok(1,2), of 2] by simp

lemma ex_separate: "lfs.separate ex_codec (insert ex_key {})"
  by (simp add: lfs.separate_def)

lemma ex_miss: "\<exists>e. fst (first_look (ex_deps N) ex_domain ex_pctx ex_req ex_node) = Inl e"
  by (rule first_look_stale) (simp_all add: lru_inv_new)

lemma ex_path: "originPath ex_pctx ex_req = ''/x''"
  by code_simp

lemma ex_fetch: "fst (fetch_look (ex_deps (ex_origin 200 [])) ex_domain ex_pctx ex_req ex_node) =
   Inr (bytes_reader ''o/x'', \<lparr>mKey = ex_key, WrittenAt = 3, TTL = Hour, mSize = 3, mHeaders = Some []\<rparr>)"
  by code_simp

text \<open>The answer to the first request.\<close>

lemma ex_biz:
  "fst (bizHandler (ex_deps (ex_origin 200 [])) ex_req new_writer ex_node) =
     Done (write_response False ex_pctx (bytes_reader ''o/x'')
       \<lparr>mKey = ex_key, WrittenAt = 3, TTL = Hour, mSize = 3, mHeaders = Some []\<rparr> new_writer)"
proof -
  let ?D = "ex_deps (ex_origin 200 [])"
  have nw: "wrapped new_writer = new_writer" by (simp add: new_writer_def)
  obtain e where e: "fst (first_look ?D ex_domain ex_pctx ex_req ex_node) = Inl e" using ex_miss by blast
  have idx: "indexed ?D ex_domain ex_pctx ex_req ex_node = False"
    by (simp add: indexed_def checked_def flush_check_entry lru_inv_new)
  have "fst (serve_cached ?D ex_domain ex_pctx new_writer ex_req ex_node) =
      Done (write_response False ex_pctx (bytes_reader ''o/x'')
       \<lparr>mKey = ex_key, WrittenAt = 3, TTL = Hour, mSize = 3, mHeaders = Some []\<rparr> new_writer)"
    using serve_cached_miss(1) [OF _ ex_runs_once e, of new_writer] ex_fetch idx by (simp add: lru_inv_new)
  moreover have "ServeHTTP ?D ex_req new_writer ex_node =
      serve_cached ?D ex_domain ex_pctx new_writer ex_req ex_node"
    unfolding ServeHTTP_def ex_domains option.case ex_pipeline prod.case Let_def
    by (simp add: ex_node_def Update_def NewHandler_def)
  ultimately show ?thesis
    by (cases "serve_cached ?D ex_domain ex_pctx new_writer ex_req ex_node")
       (simp add: bizHandler_def Recovery_def RequestLogger_def nw)
qed

lemma ex_load: "Store_Load (LocalFS_ops ex_codec) (ex_rules_codec []) (New, ex_fs) = (None, New, ex_fs)"
  by (simp add: Store_Load_def LocalFS_ops_def LocalFS_Read_def os_Open_def ex_fs_def Let_def)

end
