(* ===== verification/FetchRace.thy ===== *)
theory FetchRace
  imports Examples
begin

text \<open>
  A flush rule that is added while a fetch is in flight. The closure of \<open>originFetch\<close>
  (\<open>domain/router.go\<close>) pulls from the origin and only then reads the clock for \<open>WrittenAt\<close>; it runs
  outside every lock, so an admin call can come in between. The closure is split here at that
  point.
\<close>

section \<open>The closure in two parts\<close>

definition fetch_pull ::
  "('s, 'o, 'l) deps \<Rightarrow> DomainConfig \<Rightarrow> PipelineContext \<Rightarrow> Request \<Rightarrow> 'o Puller \<Rightarrow>
   (pull_err, Response) outcome \<times> 'o Puller" where
  "fetch_pull D cfg pCtx r p =
     Puller_Pull (dNet D) (wrap64 (OriginTimeout cfg * (OriginRetry cfg + 2))) (Origins cfg)
       (OriginTimeout cfg) (OriginRetry cfg) (originPath pCtx r) (ReqHeader r) p"

definition fetch_meta ::
  "('s, 'o, 'l) deps \<Rightarrow> DomainConfig \<Rightarrow> string \<Rightarrow> Response \<Rightarrow> 'l world \<Rightarrow>
   (fetch_err + reader \<times> Meta) \<times> 'l world" where
  "fetch_meta D cfg key resp wd =
     (case ReadAll (RespBody resp) of
        Inl e \<Rightarrow> (Inl (FetchBody e), wd)
      | Inr body \<Rightarrow>
          (let (now1, wd1) = time_Now wd;
               ttl = ParseTTL (dParseTime D) now1 (RespHeader resp) (DefaultTTL cfg);
               (now2, wd2) = time_Now wd1;
               meta = \<lparr>mKey = key, WrittenAt = now2, TTL = ttl, mSize = int (length body),
                       mHeaders = Some (RespHeader resp)\<rparr>
           in (Inr (bytes_reader body, meta),
               emits (pull_events (Domain cfg) (StatusCode resp)) wd2)))"

lemma originFetch_parts:
  "originFetch D cfg pCtx r key (p, wd) =
     (case fetch_pull D cfg pCtx r p of
        (Panicked, p1) \<Rightarrow> (Inl FetchPanic, p1, wd)
      | (Failed e, p1) \<Rightarrow> (Inl (FetchPull e), p1, wd)
      | (Returned resp, p1) \<Rightarrow>
          (case fetch_meta D cfg key resp wd of (res, wd1) \<Rightarrow> (res, p1, wd1)))"
  by (auto simp: originFetch_def fetch_pull_def fetch_meta_def Let_def time_Now_def
      split: prod.split outcome.split sum.split)

lemma fetch_meta_Inr:
  assumes "fetch_meta D cfg key resp wd = (Inr (rd, m), wd1)"
  shows "WrittenAt m = wclock wd (Suc (wticks wd))" "ReadAll (RespBody resp) = Inr (rd_data rd)" "mKey m = key"
  using assms by (auto simp: fetch_meta_def Let_def time_Now_def split: sum.splits)


text \<open>
  \<open>FlushURL\<close> does not reach a fetch in flight either: it deletes the entry, and the \<open>Set\<close> that
  follows puts the body that was fetched before back at the front of the cache.
\<close>

lemma flush_url_misses_fetch_in_flight:
  assumes "fetch_pull D cfg pCtx r (nPuller n) = (Returned resp, p1)"
    and "n1 = snd (FlushURL D A body w (n\<lparr>nPuller := p1\<rparr>))"
    and "fetch_meta D cfg key resp (nWorld n1) = (Inr (rd, m), wd1)"
    and "LRUCache_Set (dStorage D) F key rd m (nCache n1, nStorage n1) = (None, c2, st2)"
    and "node_inv n" "0 < maxItems (nCache n1)"
  shows "ReadAll (RespBody resp) = Inr (rd_data rd) \<and> (\<exists>ms. cache_view c2 = m # ms) \<and> mKey m = key"
proof -
  note m = fetch_meta_Inr [OF assms(3)]
  have "node_inv (n\<lparr>nPuller := p1\<rparr>)" using assms(5) by (simp add: node_inv_def)
  then have "lru_inv (nCache n1)"
    unfolding assms(2) using FlushURL_inv [of "n\<lparr>nPuller := p1\<rparr>" D A body w] by (simp add: node_inv_def)
  from Set_refines_spec [OF this m(3) assms(4)] assms(6) m(2,3) show ?thesis
    by (auto simp: spec_Set_def spec_put_def take_Cons' split: option.splits)
qed

section \<open>Properties\<close>

text \<open>
  C32: a flush rule does not reach a fetch that is in flight: if the rule is added after the origin
  has answered and before the entry is stamped, the entry with the old body is younger than the
  rule, so no request evicts it because of the rule.
\<close>

theorem rule_misses_fetch_in_flight:
  assumes "fetch_pull D cfg pCtx r (nPuller n) = (Returned resp, p1)"
    and "n1 = snd (add_flush_rule D A (Domain cfg) prfx w (n\<lparr>nPuller := p1\<rparr>))"
    and "fetch_meta D cfg key resp (nWorld n1) = (Inr (rd, m), wd1)"
    and "\<forall>i. wclock (nWorld n) i \<le> wclock (nWorld n) (Suc i)"
    and "\<not> flushed_after (nFlush n) (Domain cfg) path (WrittenAt m)"
  shows "ReadAll (RespBody resp) = Inr (rd_data rd) \<and>
    \<not> flushed_after (nFlush n1) (Domain cfg) path (WrittenAt m)"
proof -
  let ?c = "wclock (nWorld n)" let ?t = "wticks (nWorld n)"
  have w: "wclock (nWorld n1) = ?c" "wticks (nWorld n1) = Suc (Suc ?t)"
    unfolding assms(2) by (auto simp: add_flush_rule_def Let_def time_Now_def split: prod.split option.split)
  have "?c (Suc ?t) \<le> ?c (Suc (Suc ?t))" "?c (Suc (Suc ?t)) \<le> ?c (Suc (Suc (Suc ?t)))"
    using assms(4) by blast+
  then have "?c (Suc ?t) \<le> WrittenAt m"
    using fetch_meta_Inr(1) [OF assms(3)] by (simp add: w)
  then show ?thesis
    using assms(5) fetch_meta_Inr(2) [OF assms(3)]
    by (simp add: assms(2) add_flush_rule_state flushed_after_append)
qed

lemma ex_fetch_pull:
  "fetch_pull (ex_deps (ex_origin 200 [])) ex_domain ex_pctx ex_req (nPuller ex_node) =
     (Returned \<lparr>StatusCode = 200, RespHeader = [], RespBody = bytes_reader ''o/x''\<rparr>, \<lparr>pCounter = 1, pNet = ()\<rparr>)"
  by (simp add: fetch_pull_def ex_path)
     (simp add: Puller_Pull_def ex_domain_def New_Puller_def Puller_do_def ex_origin_def Let_def)

theorem rule_misses_fetch_in_flight_witness:
  "let n1 = snd (add_flush_rule (ex_deps (ex_origin 200 [])) ex_admin (Domain ex_domain) ''/'' new_writer
       (ex_node\<lparr>nPuller := \<lparr>pCounter = 1, pNet = ()\<rparr>\<rparr>))
   in length (rules_of (nFlush n1) (Domain ex_domain)) = 1 \<and>
      (\<exists>rd m wd1. fetch_meta (ex_deps (ex_origin 200 [])) ex_domain ex_key
         \<lparr>StatusCode = 200, RespHeader = [], RespBody = bytes_reader ''o/x''\<rparr> (nWorld n1) = (Inr (rd, m), wd1) \<and>
       rd_data rd = ''o/x'' \<and> \<not> flushed_after (nFlush n1) (Domain ex_domain) ''/x'' (WrittenAt m))"
proof -
  let ?D = "ex_deps (ex_origin 200 [])"
  let ?resp = "\<lparr>StatusCode = 200, RespHeader = [], RespBody = bytes_reader ''o/x''\<rparr>"
  define n1 where "n1 = snd (add_flush_rule ?D ex_admin (Domain ex_domain) ''/'' new_writer
       (ex_node\<lparr>nPuller := \<lparr>pCounter = 1, pNet = ()\<rparr>\<rparr>))"
  have read: "ReadAll (bytes_reader b) = Inr b" for b by (simp add: ReadAll_def bytes_reader_def)
  obtain rd m wd1 where f: "fetch_meta ?D ex_domain ex_key ?resp (nWorld n1) = (Inr (rd, m), wd1)"
    by (simp add: fetch_meta_def read Let_def time_Now_def)
  have "\<forall>i. wclock (nWorld ex_node) i \<le> wclock (nWorld ex_node) (Suc i)" by (simp add: ex_world_def)
  moreover have "\<not> flushed_after (nFlush ex_node) (Domain ex_domain) ''/x'' (WrittenAt m)"
    by (simp add: flushed_after_def rules_of_def New_def)
  ultimately have "ReadAll (RespBody ?resp) = Inr (rd_data rd) \<and>
      \<not> flushed_after (nFlush n1) (Domain ex_domain) ''/x'' (WrittenAt m)"
    by (rule rule_misses_fetch_in_flight [OF ex_fetch_pull n1_def f])
  moreover have "length (rules_of (nFlush n1) (Domain ex_domain)) = 1"
    by (simp add: n1_def add_flush_rule_state append_rule_def rules_of_def New_def)
  ultimately show ?thesis using f unfolding n1_def [symmetric] Let_def by (auto simp: read)
qed

end
