(* ===== verification/FlushRace.thy ===== *)
theory FlushRace
  imports Flush LocalFS "HOL-Library.Countable"
begin

text \<open>
  Interleaved changes of the flush rules. \<open>AddRule\<close> and \<open>Cleanup\<close> of \<open>flush/store.go\<close> change the
  rules and take a snapshot under the lock, release it, and only then write the snapshot to the
  storage. A call is therefore two atomic steps here; \<open>raPending\<close> are the snapshots taken and
  not yet written, oldest first. Any pending snapshot may be written next.
\<close>

record 's race =
  raStore :: Store
  raPending :: "Rule list list"
  raDisk :: 's

datatype race_act =
    BeginAdd time time string string
  | BeginCleanup time duration
  | Persist nat

fun race_step ::
  "'s storage_ops \<Rightarrow> rules_codec \<Rightarrow> race_act \<Rightarrow> 's race \<Rightarrow> 's race" where
  "race_step S J (BeginAdd now1 now2 d p) x =
     (let st = append_rule d (new_rule now1 now2 d p) (raStore x)
      in x\<lparr>raStore := st, raPending := raPending x @ [allRulesLocked st]\<rparr>)"
| "race_step S J (BeginCleanup now maxAge) x =
     (let st = (raStore x)\<lparr>rules := cleanup_rules (Add now (wrap64 (- maxAge))) (rules (raStore x))\<rparr>
      in x\<lparr>raStore := st, raPending := raPending x @ [allRulesLocked st]\<rparr>)"
| "race_step S J (Persist i) x =
     (if i < length (raPending x) then
        x\<lparr>raDisk := snd (persist S J (raPending x ! i) (raDisk x)),
          raPending := take i (raPending x) @ drop (Suc i) (raPending x)\<rparr>
      else x)"

definition race_run ::
  "'s storage_ops \<Rightarrow> rules_codec \<Rightarrow> race_act list \<Rightarrow> 's race \<Rightarrow> 's race" where
  "race_run S J acts x = fold (race_step S J) acts x"

text \<open>A call that is not interrupted is \<open>Store_AddRule\<close> of theory Flush.\<close>

lemma race_sequential:
  "raPending x = [] \<Longrightarrow>
   race_run S J [BeginAdd now1 now2 d p, Persist 0] x =
     (let (e, st, s) = Store_AddRule S J now1 now2 d p (raStore x, raDisk x)
      in x\<lparr>raStore := st, raDisk := s\<rparr>)"
  by (simp add: race_run_def Store_AddRule_def Let_def split: prod.split)

text \<open>What a restart would load from the disk.\<close>

definition disk_rules :: "'s storage_ops \<Rightarrow> rules_codec \<Rightarrow> 's \<Rightarrow> string \<Rightarrow> Rule list" where
  "disk_rules S J s d = rules_of (fst (snd (Store_Load S J (New, s)))) d"


section \<open>Writes in the order of the snapshots\<close>

text \<open>The last pending snapshot, or the disk when none is pending, is the store.\<close>

definition up_to_date ::
  "'s storage_ops \<Rightarrow> rules_codec \<Rightarrow> 's race \<Rightarrow> bool" where
  "up_to_date S J x \<longleftrightarrow> store_inv (raStore x) \<and>
     (if raPending x = [] then \<forall>d. disk_rules S J (raDisk x) d = rules_of (raStore x) d
      else last (raPending x) = allRulesLocked (raStore x))"

fun in_order :: "race_act \<Rightarrow> bool" where
  "in_order (Persist i) = (i = 0)"
| "in_order _ = True"

context storage_contract
begin

definition codec_inverse :: "rules_codec \<Rightarrow> bool" where
  "codec_inverse J \<longleftrightarrow> (\<forall>rs. \<exists>data. marshalRules J rs = Some data \<and> unmarshalRules J data = Some rs)"

lemma persist_load:
  assumes "inv s" "reliable s" "ok_meta rules_metadata" "codec_inverse J"
  shows "disk_rules S J (snd (persist S J rs s)) d = rules_of (load_rules rs New) d"
    "inv (snd (persist S J rs s))" "reliable (snd (persist S J rs s))"
proof -
  obtain data where data: "marshalRules J rs = Some data" "unmarshalRules J data = Some rs"
    using assms(4) unfolding codec_inverse_def by blast
  let ?w = "stWrite S persistKey (bytes_reader data) (Some rules_metadata) s"
  have w: "snd (persist S J rs s) = snd ?w"
    by (simp add: persist_def data split: prod.split option.split)
  then show "inv (snd (persist S J rs s))" "reliable (snd (persist S J rs s))"
    using assms(1,2) by (simp_all add: write_inv write_reliable)
  obtain mo where "fst (stRead S persistKey (snd ?w)) = Inr (bytes_reader data, mo)"
    using read_after_write [OF assms(1-3), of "bytes_reader data" persistKey] by auto
  then show "disk_rules S J (snd (persist S J rs s)) d = rules_of (load_rules rs New) d"
    by (cases "stRead S persistKey (snd ?w)") (simp add: disk_rules_def Store_Load_def w data(2))
qed

lemma up_to_date_step:
  assumes "up_to_date S J x" "inv (raDisk x)" "reliable (raDisk x)" "ok_meta rules_metadata"
    "codec_inverse J" "in_order a"
  shows "up_to_date S J (race_step S J a x) \<and> inv (raDisk (race_step S J a x)) \<and>
    reliable (raDisk (race_step S J a x))"
proof (cases a)
  case (BeginAdd now1 now2 d p)
  with assms show ?thesis
    by (simp add: up_to_date_def Let_def store_inv_append new_rule_def)
next
  case (BeginCleanup now maxAge)
  with assms show ?thesis by (simp add: up_to_date_def Let_def store_inv_cleanup)
next
  case (Persist i)
  show ?thesis
  proof (cases "raPending x")
    case Nil
    with Persist assms show ?thesis by simp
  next
    case (Cons rs rest)
    note p = persist_load [OF assms(2-5), of rs]
    show ?thesis
    proof (cases "rest = []")
      case True
      with Cons assms(1) have "rs = allRulesLocked (raStore x)" "store_inv (raStore x)"
        by (simp_all add: up_to_date_def)
      with p Persist assms(6) Cons True show ?thesis by (simp add: up_to_date_def reload_rules)
    next
      case False
      with p Persist assms(1,6) Cons show ?thesis by (simp add: up_to_date_def)
    qed
  qed
qed

lemma up_to_date_run:
  assumes "up_to_date S J x" "inv (raDisk x)" "reliable (raDisk x)" "ok_meta rules_metadata"
    "codec_inverse J" "list_all in_order acts"
  shows "up_to_date S J (race_run S J acts x)"
  using assms
proof (induction acts arbitrary: x)
  case (Cons a acts)
  note step = up_to_date_step [OF Cons.prems(1-5), of a]
  have "up_to_date S J (race_run S J acts (race_step S J a x))"
    using step Cons.prems(4-6) by (intro Cons.IH) simp_all
  then show ?case by (simp add: race_run_def)
qed (simp add: race_run_def)

end


section \<open>Properties\<close>

text \<open>A codec that is inverse on every rule list, for the examples: the number of the list in unary.\<close>

definition rule_tuple :: "Rule \<Rightarrow> string \<times> string \<times> string \<times> time" where
  "rule_tuple r = (rID r, rDomain r, rPrefix r, rCreatedAt r)"

definition tuple_rule :: "string \<times> string \<times> string \<times> time \<Rightarrow> Rule" where
  "tuple_rule = (\<lambda>(i, d, p, t). \<lparr>rID = i, rDomain = d, rPrefix = p, rCreatedAt = t\<rparr>)"

definition ex_unary :: rules_codec where
  "ex_unary = \<lparr>marshalRules = (\<lambda>rs. Some (replicate (to_nat (map rule_tuple rs)) (CHR ''1''))),
     unmarshalRules = (\<lambda>b. Some (map tuple_rule (from_nat (length b))))\<rparr>"

lemma ex_unary_inverse: "lfs.codec_inverse ex_unary"
proof -
  have "tuple_rule (rule_tuple r) = r" for r by (simp add: tuple_rule_def rule_tuple_def)
  then have "map (tuple_rule \<circ> rule_tuple) rs = rs" for rs by (simp add: map_idI)
  then show ?thesis by (simp add: lfs.codec_inverse_def ex_unary_def)
qed

definition ex_race :: "localfs race" where
  "ex_race = \<lparr>raStore = New, raPending = [], raDisk = ex_fs\<rparr>"

text \<open>
  C22: if the snapshots are written in the order they were taken, then, whatever the interleaving,
  once no write is pending a restart loads the rules the running service has.
\<close>

theorem ordered_persists_safe:
  assumes "lfs_inv (raDisk x)" "lfs_reliable (raDisk x)" "lfs_ok_meta C rules_metadata" "lfs.codec_inverse J"
    and "store_inv (raStore x)" "raPending x = []"
    and "\<forall>d. disk_rules (LocalFS_ops C) J (raDisk x) d = rules_of (raStore x) d"
    and "list_all in_order acts" "raPending (race_run (LocalFS_ops C) J acts x) = []"
  shows "disk_rules (LocalFS_ops C) J (raDisk (race_run (LocalFS_ops C) J acts x)) d =
    rules_of (raStore (race_run (LocalFS_ops C) J acts x)) d"
  using lfs.up_to_date_run [OF _ assms(1-4,8)] assms(5-7,9) by (simp add: up_to_date_def)

theorem ordered_persists_safe_witness:
  "disk_rules (LocalFS_ops ex_codec) ex_unary (raDisk (race_run (LocalFS_ops ex_codec) ex_unary
       [BeginAdd 1 2 ''a.com'' ''/a'', BeginAdd 3 4 ''a.com'' ''/b'', Persist 0, Persist 0] ex_race)) ''a.com'' =
   rules_of (raStore (race_run (LocalFS_ops ex_codec) ex_unary
       [BeginAdd 1 2 ''a.com'' ''/a'', BeginAdd 3 4 ''a.com'' ''/b'', Persist 0, Persist 0] ex_race)) ''a.com''"
proof (rule ordered_persists_safe [OF _ _ ex_fs_ok(3) ex_unary_inverse])
  have "Store_Load (LocalFS_ops ex_codec) ex_unary (New, ex_fs) = (None, New, ex_fs)"
    by (simp add: Store_Load_def LocalFS_ops_def LocalFS_Read_def os_Open_def ex_fs_def Let_def)
  then show "\<forall>d. disk_rules (LocalFS_ops ex_codec) ex_unary (raDisk ex_race) d = rules_of (raStore ex_race) d"
    by (simp add: disk_rules_def ex_race_def)
qed (simp_all add: ex_race_def ex_fs_ok store_inv_New race_run_def Let_def)

text \<open>
  C23: two calls of \<open>AddRule\<close> can lose a rule: when the second writes its snapshot before the first,
  both return without an error, the running service has both rules, and a restart loads only the
  first.
\<close>

theorem persist_race_loses_rule:
  assumes "lfs_inv s" "lfs_reliable s" "lfs_ok_meta C rules_metadata" "lfs.codec_inverse J"
  shows "let x = race_run (LocalFS_ops C) J
       [BeginAdd 1 2 d ''/a'', BeginAdd 3 4 d ''/b'', Persist 1, Persist 0]
       \<lparr>raStore = New, raPending = [], raDisk = s\<rparr>
     in raPending x = [] \<and>
        rules_of (raStore x) d = [new_rule 1 2 d ''/a'', new_rule 3 4 d ''/b''] \<and>
        disk_rules (LocalFS_ops C) J (raDisk x) d = [new_rule 1 2 d ''/a'']"
proof -
  have one: "allRulesLocked (append_rule d (new_rule 1 2 d ''/a'') New) = [new_rule 1 2 d ''/a'']"
    by (simp add: allRulesLocked_def append_rule_def New_def rules_of_def)
  note p1 = lfs.persist_load [OF assms, where rs = "allRulesLocked (append_rule d (new_rule 3 4 d ''/b'')
    (append_rule d (new_rule 1 2 d ''/a'') New))"]
  note p2 = lfs.persist_load(1) [OF p1(2,3) assms(3,4), where d = d and rs = "[new_rule 1 2 d ''/a'']"]
  have "rules_of (load_rules [new_rule 1 2 d ''/a''] New) d = [new_rule 1 2 d ''/a'']"
    by (simp add: rules_of_load) (simp add: new_rule_def)
  with p2 show ?thesis by (simp add: race_run_def Let_def one)
qed

theorem persist_race_loses_rule_witness:
  "let x = race_run (LocalFS_ops ex_codec) ex_unary
       [BeginAdd 1 2 ''a.com'' ''/a'', BeginAdd 3 4 ''a.com'' ''/b'', Persist 1, Persist 0]
       \<lparr>raStore = New, raPending = [], raDisk = ex_fs\<rparr>
     in raPending x = [] \<and>
        rules_of (raStore x) ''a.com'' = [new_rule 1 2 ''a.com'' ''/a'', new_rule 3 4 ''a.com'' ''/b''] \<and>
        disk_rules (LocalFS_ops ex_codec) ex_unary (raDisk x) ''a.com'' = [new_rule 1 2 ''a.com'' ''/a'']"
  by (rule persist_race_loses_rule [OF ex_fs_ok(1,2) ex_fs_ok(3) ex_unary_inverse])

end
