(* ===== verification/LRUConc.thy ===== *)
theory LRUConc
  imports LRU
begin

text \<open>
  Concurrent calls of the cache (\<open>cache/cache.go\<close>). \<open>Get\<close>, \<open>Set\<close> and \<open>Delete\<close> do not hold the
  mutex while they access the storage, so each is two or three steps here: a critical section
  under the mutex, or one call of the storage. A step of any call in progress may come next.
  \<open>Stat\<close> is a single critical section that changes nothing.

  A storage call is one step: it is atomic for the content of its key in both backends. So is
  \<open>evictLocked\<close>, which deletes from the storage while it holds the mutex.
\<close>

section \<open>The critical sections\<close>

text \<open>\<open>Get\<close> up to the first \<open>Unlock\<close>.\<close>

definition get_index :: "time \<Rightarrow> string \<Rightarrow> LRUCache \<Rightarrow> (cache_err + Meta) \<times> LRUCache" where
  "get_index now key c =
     (case items c key of
        None \<Rightarrow> (Inl (CacheMiss key), c)
      | Some el \<Rightarrow>
          (let meta = vals c el
           in if After now (ExpiresAt meta) then (Inl (CacheExpired key), removeLocked el c)
              else (Inr meta, c\<lparr>lru := MoveToFront el (lru c)\<rparr>)))"

text \<open>The section after a failed read of \<open>Get\<close>, and that of \<open>Delete\<close>.\<close>

definition drop_index :: "string \<Rightarrow> LRUCache \<Rightarrow> LRUCache" where
  "drop_index key c = (case items c key of None \<Rightarrow> c | Some el \<Rightarrow> removeLocked el c)"

text \<open>The section of \<open>Set\<close>.\<close>

definition set_index :: "'s storage_ops \<Rightarrow> string \<Rightarrow> Meta \<Rightarrow> LRUCache \<times> 's \<Rightarrow> LRUCache \<times> 's" where
  "set_index S key meta = (\<lambda>(c, st).
     case items c key of
       Some el \<Rightarrow> (c\<lparr>vals := (vals c)(el := meta), lru := MoveToFront el (lru c)\<rparr>, st)
     | None \<Rightarrow>
         (let (el, c1) = PushFront meta c
          in evictLocked S (c1\<lparr>items := (items c1)(key \<mapsto> el)\<rparr>, st)))"


section \<open>Calls in progress\<close>

datatype call =
    GetLookup string
  | GetRead string Meta                                  \<comment> \<open>found, mutex released\<close>
  | GetEvict string storage_err                          \<comment> \<open>the read failed\<close>
  | GetDone string "cache_err + reader \<times> Meta"
  | SetWrite string reader Meta
  | SetIndex string reader Meta                          \<comment> \<open>written, not yet indexed\<close>
  | SetDone string reader Meta "cache_err option"
  | DelIndex string
  | DelStore string
  | DelDone string "storage_err option"

fun finished :: "call \<Rightarrow> bool" where
  "finished (GetDone k r) = True"
| "finished (SetDone k r m e) = True"
| "finished (DelDone k e) = True"
| "finished _ = False"

fun call_step :: "'s storage_ops \<Rightarrow> fmt \<Rightarrow> time \<Rightarrow> call \<Rightarrow> LRUCache \<times> 's \<Rightarrow> call \<times> LRUCache \<times> 's" where
  "call_step S F now (GetLookup key) (c, st) =
     (case get_index now key c of
        (Inl e, c1) \<Rightarrow> (GetDone key (Inl e), c1, st)
      | (Inr meta, c1) \<Rightarrow> (GetRead key meta, c1, st))"
| "call_step S F now (GetRead key meta) (c, st) =
     (case stRead S key st of
        (Inl e, st1) \<Rightarrow> (GetEvict key e, c, st1)
      | (Inr (rc, x), st1) \<Rightarrow> (GetDone key (Inr (rc, meta)), c, st1))"
| "call_step S F now (GetEvict key e) (c, st) =
     (GetDone key (Inl (CacheStorageRead e)), drop_index key c, st)"
| "call_step S F now (SetWrite key r meta) (c, st) =
     (case stWrite S key r (Some (metaToStorageMeta F meta)) st of
        (Some e, st1) \<Rightarrow> (SetDone key r meta (Some (CacheStorageWrite e)), c, st1)
      | (None, st1) \<Rightarrow> (SetIndex key r meta, c, st1))"
| "call_step S F now (SetIndex key r meta) cs = (SetDone key r meta None, set_index S key meta cs)"
| "call_step S F now (DelIndex key) (c, st) = (DelStore key, drop_index key c, st)"
| "call_step S F now (DelStore key) (c, st) =
     (case stDelete S key st of (e, st1) \<Rightarrow> (DelDone key e, c, st1))"
| "call_step S F now p cs = (p, cs)"

text \<open>The scheduler picks an unfinished call; \<open>now\<close> is what the clock says at that step.\<close>

inductive conc_step ::
  "'s storage_ops \<Rightarrow> fmt \<Rightarrow> call list \<times> LRUCache \<times> 's \<Rightarrow> call list \<times> LRUCache \<times> 's \<Rightarrow> bool"
  for S F where
  run: "i < length ps \<Longrightarrow> \<not> finished (ps ! i) \<Longrightarrow> call_step S F now (ps ! i) cs = (p, cs') \<Longrightarrow>
     conc_step S F (ps, cs) (ps[i := p], cs')"

inductive_simps conc_step_iff: "conc_step S F (ps, cs) x"

abbreviation conc_steps ::
  "'s storage_ops \<Rightarrow> fmt \<Rightarrow> call list \<times> LRUCache \<times> 's \<Rightarrow> call list \<times> LRUCache \<times> 's \<Rightarrow> bool" where
  "conc_steps S F \<equiv> (conc_step S F)\<^sup>*\<^sup>*"


section \<open>A call that is not interrupted\<close>

fun run_call :: "'s storage_ops \<Rightarrow> fmt \<Rightarrow> time \<Rightarrow> nat \<Rightarrow> call \<times> LRUCache \<times> 's \<Rightarrow> call \<times> LRUCache \<times> 's" where
  "run_call S F now 0 x = x"
| "run_call S F now (Suc n) (p, cs) = run_call S F now n (call_step S F now p cs)"

lemma run_call_finished: "finished p \<Longrightarrow> run_call S F now n (p, cs) = (p, cs)"
  by (induction n) (auto elim!: finished.elims)

lemma run_Get:
  "run_call S F now 3 (GetLookup key, c, st) =
     (GetDone key (fst (LRUCache_Get S now key (c, st))), snd (LRUCache_Get S now key (c, st)))"
  by (auto simp: numeral_3_eq_3 LRUCache_Get_def get_index_def drop_index_def Let_def
      split: option.split sum.split prod.split)

lemma run_Set:
  "run_call S F now 3 (SetWrite key r m, c, st) =
     (SetDone key r m (fst (LRUCache_Set S F key r m (c, st))), snd (LRUCache_Set S F key r m (c, st)))"
  by (auto simp: numeral_3_eq_3 LRUCache_Set_def set_index_def Let_def
      split: option.split prod.split)

lemma run_Delete:
  "run_call S F now 3 (DelIndex key, c, st) =
     (DelDone key (fst (LRUCache_Delete S key (c, st))), snd (LRUCache_Delete S key (c, st)))"
  by (simp add: numeral_3_eq_3 LRUCache_Delete_def drop_index_def Let_def split: prod.split)


section \<open>Termination\<close>

text \<open>The steps a call still needs at most.\<close>

fun todo :: "call \<Rightarrow> nat" where
  "todo (GetLookup k) = 3"
| "todo (GetRead k m) = 2"
| "todo (GetEvict k e) = 1"
| "todo (SetWrite k r m) = 2"
| "todo (SetIndex k r m) = 1"
| "todo (DelIndex k) = 2"
| "todo (DelStore k) = 1"
| "todo _ = 0"

lemma call_step_todo: "\<not> finished p \<Longrightarrow> todo (fst (call_step S F now p cs)) < todo p"
  by (cases cs; cases p) (auto split: prod.split sum.split option.split)

lemma todo_max: "todo p \<le> 3"
  by (cases p) simp_all

definition all_todo :: "call list \<times> LRUCache \<times> 's \<Rightarrow> nat" where
  "all_todo x = sum_list (map todo (fst x))"

lemma conc_step_todo: "conc_step S F x y \<Longrightarrow> all_todo y < all_todo x"
proof (induction rule: conc_step.induct)
  case (run i ps now cs p cs')
  then have "todo p < map todo ps ! i" using call_step_todo [of "ps ! i" S F now cs] by simp
  with run(1) show ?case by (simp add: all_todo_def map_update sum_list_update_less)
qed

lemma conc_relpow_todo: "(conc_step S F ^^ n) x y \<Longrightarrow> n + all_todo y \<le> all_todo x"
  by (rule relpow_measure [OF conc_step_todo])

lemma conc_step_enabled: "i < length (fst x) \<Longrightarrow> \<not> finished (fst x ! i) \<Longrightarrow> \<exists>y. conc_step S F x y"
proof -
  assume i: "i < length (fst x)" "\<not> finished (fst x ! i)"
  obtain ps cs where x: "x = (ps, cs)" by (cases x)
  obtain p cs' where "call_step S F 0 (ps ! i) cs = (p, cs')" by (cases "call_step S F 0 (ps ! i) cs")
  with i x have "conc_step S F x (ps[i := p], cs')" by (auto intro: conc_step.run)
  then show ?thesis by blast
qed

lemma conc_stuck: "(\<nexists>y. conc_step S F x y) \<longleftrightarrow> list_all finished (fst x)"
proof
  assume "list_all finished (fst x)"
  then show "\<nexists>y. conc_step S F x y" by (auto simp: list_all_length elim: conc_step.cases)
next
  assume stuck: "\<nexists>y. conc_step S F x y"
  show "list_all finished (fst x)"
    unfolding list_all_length using conc_step_enabled [of _ x S F] stuck by blast
qed


section \<open>The structure of the index\<close>

lemma get_index_inv:
  assumes "lru_inv c" "get_index now key c = (r, c')"
  shows "lru_inv c' \<and> maxItems c' = maxItems c \<and> set (lru c') \<subseteq> set (lru c) \<and> vals c' = vals c"
proof (cases "items c key")
  case None
  with assms show ?thesis by (simp add: get_index_def)
next
  case (Some el)
  have wf: "lru_wf c" using assms(1) by (simp add: lru_inv_def)
  have e: "el \<in> set (lru c)" using wf Some lru_wf_items by blast
  have "lru_inv (c\<lparr>lru := MoveToFront el (lru c)\<rparr>)"
    using MoveToFront_view(2) [OF wf Some] assms(1) by (simp add: lru_inv_def)
  with Some e assms removeLocked_inv [OF assms(1) e] set_remove1_subset [of el "lru c"] show ?thesis
    by (auto simp: get_index_def Let_def split: if_splits)
qed

lemma drop_index_inv:
  assumes "lru_inv c"
  shows "lru_inv (drop_index key c)" "maxItems (drop_index key c) = maxItems c"
    "set (lru (drop_index key c)) \<subseteq> set (lru c)" "vals (drop_index key c) = vals c"
proof -
  have "lru_wf c" using assms by (simp add: lru_inv_def)
  then have e: "items c key = Some el \<Longrightarrow> el \<in> set (lru c)" for el using lru_wf_items by blast
  then show "lru_inv (drop_index key c)" "maxItems (drop_index key c) = maxItems c"
    "set (lru (drop_index key c)) \<subseteq> set (lru c)" "vals (drop_index key c) = vals c"
    using removeLocked_inv [OF assms] assms
    by (auto simp: drop_index_def dest: set_remove1_subset [THEN subsetD] split: option.split)
qed

lemma set_index_new:
  "items c key = None \<Longrightarrow> set_index S key m (c, st) = evictLocked S (inserted key m c, st)"
  by (simp add: set_index_def inserted_def PushFront_def Let_def)

lemma set_index_inv:
  assumes inv: "lru_inv c" and key: "mKey m = key" and run: "set_index S key m (c, st) = (c', st')"
  shows "lru_inv c' \<and> maxItems c' = maxItems c \<and>
    (\<forall>e \<in> set (lru c'). vals c' e = m \<or> e \<in> set (lru c) \<and> vals c' e = vals c e)"
proof (cases "items c key")
  case (Some el)
  have wf: "lru_wf c" using inv by (simp add: lru_inv_def)
  have "lru_wf c'" using overwrite_wf(1) [OF wf, of m el] Some key run by (simp add: set_index_def)
  with Some run inv show ?thesis by (auto simp: set_index_def lru_inv_def)
next
  case None
  have wf: "lru_wf (inserted key m c)" and pos: "0 \<le> maxItems c"
    using inserted_wf [of c m] inv None key by (auto simp: lru_inv_def)
  have c': "c' = fst (evictLocked S (inserted key m c, st))"
    using run by (simp add: set_index_new [OF None])
  have "evicted (inserted key m c) c'"
    unfolding c' by (rule evictLocked_evicted [OF wf]) (simp add: pos)
  then show ?thesis by (auto simp: evicted_def dest: in_set_takeD)
qed

text \<open>A call at its start, and the obligation of \<open>Set\<close> for the calls in progress.\<close>

fun starting :: "call \<Rightarrow> bool" where
  "starting (GetLookup k) = True"
| "starting (SetWrite k r m) = (mKey m = k)"
| "starting (DelIndex k) = True"
| "starting _ = False"

fun call_ok :: "call \<Rightarrow> bool" where
  "call_ok (SetWrite k r m) = (mKey m = k)"
| "call_ok (SetIndex k r m) = (mKey m = k)"
| "call_ok _ = True"

lemma starting_ok: "starting p \<Longrightarrow> call_ok p"
  by (cases p) simp_all

lemma call_step_inv:
  assumes "lru_inv c" "call_ok p" "call_step S F now p (c, st) = (p', c', st')"
  shows "lru_inv c' \<and> maxItems c' = maxItems c \<and> call_ok p'"
proof (cases p)
  case (GetLookup k)
  with assms get_index_inv [OF assms(1)] show ?thesis by (auto split: prod.splits sum.splits)
next
  case (SetIndex k r m)
  with assms set_index_inv [OF assms(1), of m k S st c' st'] show ?thesis by auto
qed (use assms drop_index_inv in \<open>auto split: prod.splits sum.splits option.splits\<close>)

lemma conc_step_inv:
  assumes "conc_step S F (ps, c, st) (ps', c', st')" "lru_inv c" "list_all call_ok ps"
  shows "lru_inv c' \<and> maxItems c' = maxItems c \<and> list_all call_ok ps'"
proof -
  obtain i now p where i: "i < length ps" "call_step S F now (ps ! i) (c, st) = (p, c', st')"
    and ps': "ps' = ps[i := p]"
    using assms(1) by (auto simp: conc_step_iff)
  have "call_ok (ps ! i)" using assms(3) i(1) by (simp add: list_all_length)
  from call_step_inv [OF assms(2) this i(2)] assms(3) show ?thesis
    by (simp add: ps' list_all_update)
qed

lemma conc_steps_inv:
  assumes "conc_steps S F (ps, c, st) x" "lru_inv c" "list_all call_ok ps"
  shows "lru_inv (fst (snd x)) \<and> maxItems (fst (snd x)) = maxItems c \<and> list_all call_ok (fst x)"
  using assms
proof (induction rule: rtranclp_induct)
  case (step y z)
  then show ?case by (cases y; cases z) (auto dest: conc_step_inv)
qed simp


section \<open>What a concurrent lookup can return\<close>

text \<open>
  \<open>W k\<close> are the bodies and \<open>M k\<close> the metadata that may be seen under the key \<open>k\<close>; \<open>K\<close> are the
  keys in use.
\<close>

fun call_safe :: "string set \<Rightarrow> (string \<Rightarrow> bytes set) \<Rightarrow> (string \<Rightarrow> Meta set) \<Rightarrow> call \<Rightarrow> bool" where
  "call_safe K W M (GetLookup k) = (k \<in> K)"
| "call_safe K W M (GetRead k m) = (k \<in> K \<and> m \<in> M k)"
| "call_safe K W M (GetDone k (Inr (rc, m))) = ((rd_err rc = None \<longrightarrow> rd_data rc \<in> W k) \<and> m \<in> M k)"
| "call_safe K W M (SetWrite k r m) =
     (k \<in> K \<and> mKey m = k \<and> m \<in> M k \<and> (rd_err r = None \<longrightarrow> rd_data r \<in> W k))"
| "call_safe K W M (SetIndex k r m) = (mKey m = k \<and> m \<in> M k)"
| "call_safe K W M _ = True"

lemma evictLocked_storage:
  assumes "\<And>k st. P st \<Longrightarrow> P (snd (stDelete S k st))" "P (snd cs)"
  shows "P (snd (evictLocked S cs))"
  using assms
proof (induction S cs rule: evictLocked.induct)
  case (1 S c st)
  then show ?case
    by (subst evictLocked.simps) (auto simp: Let_def split: option.split)
qed

definition body_safe :: "('s \<Rightarrow> string \<Rightarrow> bytes option) \<Rightarrow> string set \<Rightarrow> (string \<Rightarrow> bytes set) \<Rightarrow> 's \<Rightarrow> bool" where
  "body_safe lookup K W st \<longleftrightarrow> (\<forall>k \<in> K. \<forall>b. lookup st k = Some b \<longrightarrow> b \<in> W k)"

definition meta_safe :: "(string \<Rightarrow> Meta set) \<Rightarrow> LRUCache \<Rightarrow> bool" where
  "meta_safe M c \<longleftrightarrow> (\<forall>e \<in> set (lru c). vals c e \<in> M (mKey (vals c e)))"

lemma get_index_meta:
  assumes "lru_inv c" "meta_safe M c" "get_index now key c = (r, c')"
  shows "meta_safe M c'" "r = Inr m \<Longrightarrow> m \<in> M key"
proof -
  show "meta_safe M c'" using get_index_inv [OF assms(1,3)] assms(2) by (auto simp: meta_safe_def)
  assume "r = Inr m"
  then obtain e where "items c key = Some e" "m = vals c e"
    using assms(3) by (auto simp: get_index_def Let_def split: option.splits if_splits)
  with assms(1,2) lru_wf_items [of c key e] show "m \<in> M key"
    by (auto simp: lru_inv_def meta_safe_def)
qed

lemma drop_index_meta: "lru_inv c \<Longrightarrow> meta_safe M c \<Longrightarrow> meta_safe M (drop_index key c)"
  using drop_index_inv [of c key] by (auto simp: meta_safe_def)

lemma set_index_meta:
  assumes "lru_inv c" "mKey m = key" "set_index S key m (c, st) = (c', st')" "meta_safe M c" "m \<in> M key"
  shows "meta_safe M c'"
  unfolding meta_safe_def
proof
  fix e assume "e \<in> set (lru c')"
  with set_index_inv [OF assms(1-3)] have "vals c' e = m \<or> e \<in> set (lru c) \<and> vals c' e = vals c e" by blast
  with assms(2,4,5) show "vals c' e \<in> M (mKey (vals c' e))" by (auto simp: meta_safe_def)
qed

context storage_contract
begin

lemma body_safe_read:
  assumes "inv st" "body_safe lookup K W st"
  shows "body_safe lookup K W (snd (stRead S k st)) \<and> inv (snd (stRead S k st))"
  using assms by (simp add: body_safe_def read_view read_inv)

lemma body_safe_delete:
  assumes "inv st \<and> body_safe lookup K W st"
  shows "inv (snd (stDelete S k st)) \<and> body_safe lookup K W (snd (stDelete S k st))"
  using assms delete_shrinks [of st k] by (auto simp: body_safe_def delete_inv)

lemma body_safe_write:
  assumes "inv st" "body_safe lookup K W st" "separate K" "k \<in> K" "rd_err r = None \<longrightarrow> rd_data r \<in> W k"
  shows "inv (snd (stWrite S k r mo st)) \<and> body_safe lookup K W (snd (stWrite S k r mo st))"
proof -
  have "b \<in> W k'" if k': "k' \<in> K" and b: "lookup (snd (stWrite S k r mo st)) k' = Some b" for k' b
  proof (cases "same k k'")
    case True
    with assms(3,4) k' have "k' = k" by (auto simp: separate_def)
    with write_shrinks [OF assms(1), of k r mo b] b assms(2,5) k' show ?thesis
      by (auto simp: body_safe_def)
  next
    case False
    with write_frame [OF assms(1) False] b assms(2) k' show ?thesis by (simp add: body_safe_def)
  qed
  with write_inv [OF assms(1)] show ?thesis by (simp add: body_safe_def)
qed

lemma set_index_body:
  assumes "inv st" "body_safe lookup K W st" "set_index S key m (c, st) = (c', st')"
  shows "inv st' \<and> body_safe lookup K W st'"
proof (cases "items c key")
  case None
  have st': "st' = snd (evictLocked S (inserted key m c, st))"
    using assms(3) by (simp add: set_index_new [OF None])
  show ?thesis
    unfolding st'
  proof (rule evictLocked_storage [where P = "\<lambda>s. inv s \<and> body_safe lookup K W s"])
    show "inv s \<and> body_safe lookup K W s \<Longrightarrow>
      inv (snd (stDelete S k s)) \<and> body_safe lookup K W (snd (stDelete S k s))" for k s
      by (rule body_safe_delete)
  qed (use assms(1,2) in simp)
qed (use assms in \<open>auto simp: set_index_def\<close>)

definition conc_safe ::
  "string set \<Rightarrow> (string \<Rightarrow> bytes set) \<Rightarrow> (string \<Rightarrow> Meta set) \<Rightarrow> call list \<times> LRUCache \<times> 's \<Rightarrow> bool" where
  "conc_safe K W M x \<longleftrightarrow> (case x of (ps, c, st) \<Rightarrow>
     lru_inv c \<and> meta_safe M c \<and> inv st \<and> body_safe lookup K W st \<and> list_all (call_safe K W M) ps)"

lemma call_step_safe:
  assumes "lru_inv c" "meta_safe M c" "inv st" "body_safe lookup K W st" "separate K"
    and "call_safe K W M p" "call_step S F now p (c, st) = (p', c', st')"
  shows "lru_inv c' \<and> meta_safe M c' \<and> inv st' \<and> body_safe lookup K W st' \<and> call_safe K W M p'"
proof -
  have "call_ok p" using assms(6) by (cases p) auto
  then have inv': "lru_inv c'" using call_step_inv [OF assms(1) _ assms(7)] by blast
  show ?thesis
  proof (cases p)
    case (GetLookup k)
    with assms inv' get_index_meta [OF assms(1,2)] show ?thesis by (auto split: prod.splits sum.splits)
  next
    case (GetRead k m)
    have "rd_data rc \<in> W k" if "fst (stRead S k st) = Inr (rc, mo)" "rd_err rc = None" for rc mo
      using read_sound [OF assms(3) that] assms(4,6) GetRead by (simp add: body_safe_def)
    with GetRead assms inv' body_safe_read [OF assms(3,4), of k] show ?thesis
      by (cases "stRead S k st") (auto split: sum.splits)
  next
    case (SetWrite k r m)
    with assms inv' body_safe_write [OF assms(3-5), of k r "Some (metaToStorageMeta F m)"] show ?thesis
      by (cases "stWrite S k r (Some (metaToStorageMeta F m)) st") (auto split: option.splits)
  next
    case (SetIndex k r m)
    with assms inv' set_index_meta [OF assms(1), of m k S st c' st' M] set_index_body [OF assms(3,4), of k m c c' st']
    show ?thesis by auto
  next
    case (DelStore k)
    with assms inv' body_safe_delete [of st K W k] show ?thesis by (cases "stDelete S k st") auto
  qed (use assms inv' drop_index_meta [OF assms(1,2)] in \<open>auto split: sum.splits\<close>)
qed

lemma conc_safe_step:
  assumes "conc_step S F x y" "conc_safe K W M x" "separate K"
  shows "conc_safe K W M y"
  using assms(1)
proof cases
  case (run i ps now cs p cs')
  obtain c st c' st' where cs: "cs = (c, st)" "cs' = (c', st')" by (cases cs; cases cs')
  have "call_safe K W M (ps ! i)" using assms(2) run by (simp add: cs conc_safe_def list_all_length)
  with call_step_safe [of c M st K W "ps ! i" F now p c' st'] assms(2,3) run cs show ?thesis
    by (simp add: conc_safe_def list_all_update)
qed

lemma conc_safe_steps:
  assumes "conc_steps S F x y" "conc_safe K W M x" "separate K"
  shows "conc_safe K W M y"
  using assms by (induction rule: rtranclp_induct) (blast intro: conc_safe_step)+

text \<open>
  A lookup that released the mutex before a \<open>Set\<close> of its key writes the body, and reads the body
  after it, returns the new body with the metadata of the old entry.
\<close>

lemma torn_read:
  assumes "items c k = Some e" "\<not> After now (ExpiresAt (vals c e))" "inv st" "reliable st"
    and "ok_meta (metaToStorageMeta F m)"
  shows "\<exists>c' st'. conc_steps S F ([GetLookup k, SetWrite k (bytes_reader b) m], c, st)
    ([GetDone k (Inr (bytes_reader b, vals c e)), SetDone k (bytes_reader b) m None], c', st')"
proof -
  let ?r = "bytes_reader b" let ?c1 = "c\<lparr>lru := MoveToFront e (lru c)\<rparr>"
  let ?w = "stWrite S k ?r (Some (metaToStorageMeta F m)) st"
  obtain st1 where w: "?w = (None, st1)"
    using write_complete [OF assms(3-5), of ?r k] by (cases ?w) simp
  obtain mo st2 where r: "stRead S k st1 = (Inr (?r, mo), st2)"
    using read_after_write [OF assms(3-5), of ?r k] w by (cases "stRead S k st1") auto
  obtain c' st' where s: "set_index S k m (?c1, st2) = (c', st')" by (cases "set_index S k m (?c1, st2)")
  let ?step = "conc_step S F"
  have "?step ([GetLookup k, SetWrite k ?r m], c, st) ([GetRead k (vals c e), SetWrite k ?r m], ?c1, st)"
    using assms(1,2) conc_step.run [of 0 "[GetLookup k, SetWrite k ?r m]" S F now "(c, st)"]
    by (simp add: get_index_def Let_def)
  moreover have "?step ([GetRead k (vals c e), SetWrite k ?r m], ?c1, st)
      ([GetRead k (vals c e), SetIndex k ?r m], ?c1, st1)"
    using w conc_step.run [of 1 "[GetRead k (vals c e), SetWrite k ?r m]" S F now "(?c1, st)"] by simp
  moreover have "?step ([GetRead k (vals c e), SetIndex k ?r m], ?c1, st1)
      ([GetDone k (Inr (?r, vals c e)), SetIndex k ?r m], ?c1, st2)"
    using r conc_step.run [of 0 "[GetRead k (vals c e), SetIndex k ?r m]" S F now "(?c1, st1)"] by simp
  moreover have "?step ([GetDone k (Inr (?r, vals c e)), SetIndex k ?r m], ?c1, st2)
      ([GetDone k (Inr (?r, vals c e)), SetDone k ?r m None], c', st')"
    using s conc_step.run [of 1 "[GetDone k (Inr (?r, vals c e)), SetIndex k ?r m]" S F now "(?c1, st2)"] by simp
  ultimately show ?thesis by (blast intro: converse_rtranclp_into_rtranclp)
qed

end


section \<open>Properties\<close>

text \<open>An index with one fresh entry, and two calls for its key.\<close>

definition ex_cmeta :: "time \<Rightarrow> Meta" where
  "ex_cmeta t = \<lparr>mKey = ''a'', WrittenAt = t, TTL = 10, mSize = 1, mHeaders = None\<rparr>"

definition ex_cfmt :: fmt where
  "ex_cfmt = \<lparr>fmtTime = (\<lambda>_. ''t''), fmtDuration = (\<lambda>_. ''d'')\<rparr>"

definition ex_cache :: LRUCache where
  "ex_cache = inserted ''a'' (ex_cmeta 0) (NewLRUCache 2)"

definition ex_calls :: "call list" where
  "ex_calls = [GetLookup ''a'', SetWrite ''a'' (bytes_reader ''2'') (ex_cmeta 5)]"

lemma ex_cache_ok: "lru_inv ex_cache" "items ex_cache ''a'' = Some 0" "vals ex_cache 0 = ex_cmeta 0"
  "lru ex_cache = [0]"
proof -
  have "lru_wf ex_cache"
    unfolding ex_cache_def using inserted_wf [OF lru_wf_new [of 2], of "ex_cmeta 0"]
    by (simp add: ex_cmeta_def NewLRUCache_def)
  then show "lru_inv ex_cache" by (simp add: lru_inv_def ex_cache_def NewLRUCache_def)
qed (simp_all add: ex_cache_def NewLRUCache_def)

lemma ex_torn:
  "\<exists>c' st'. conc_steps (LocalFS_ops ex_codec) ex_cfmt (ex_calls, ex_cache, ex_fs)
    ([GetDone ''a'' (Inr (bytes_reader ''2'', ex_cmeta 0)), SetDone ''a'' (bytes_reader ''2'') (ex_cmeta 5) None], c', st')"
proof -
  have "\<not> After 1 (ExpiresAt (vals ex_cache 0))"
    by (simp add: ex_cache_ok ex_cmeta_def After_def ExpiresAt_def Add_def)
  from lfs.torn_read [OF ex_cache_ok(2) this ex_fs_ok(1,2) ex_fs_ok(3)] show ?thesis
    by (simp add: ex_calls_def ex_cache_ok)
qed

text \<open>
  Whatever steps of concurrent calls are interleaved and whatever I/O errors occur, the map, the
  list and the metadata of the cache stay consistent and within the capacity.
\<close>

lemma concurrent_calls_consistent:
  assumes "conc_steps S F (ps, c, st) (ps', c', st')" "lru_inv c" "list_all starting ps"
  shows "lru_inv c' \<and> int (LRUCache_Len c') \<le> maxItems c"
proof -
  have "list_all call_ok ps" using assms(3) starting_ok by (auto simp: list_all_iff)
  from conc_steps_inv [OF assms(1,2) this] show ?thesis by (auto simp: lru_inv_def LRUCache_Len_def)
qed

text \<open>
  Concurrent calls of the cache always return: no schedule makes more than three steps per call,
  and none is stuck before every call has returned.
\<close>

lemma concurrent_calls_return:
  assumes "(conc_step S F ^^ n) (ps, cs) x"
  shows "n \<le> 3 * length ps \<and> ((\<nexists>y. conc_step S F x y) \<longleftrightarrow> list_all finished (fst x))"
proof -
  have "sum_list (map todo ps) \<le> 3 * length ps"
    by (induction ps) (use todo_max in \<open>auto intro: add_mono\<close>)
  with conc_relpow_todo [OF assms] conc_stuck [of S F x] show ?thesis by (simp add: all_todo_def)
qed

text \<open>
  C17: a concurrent lookup never mixes keys and never returns a part of a body, whatever the
  interleaving and the I/O errors: a complete body it returns is the one on the disk at the start or
  that of a \<open>Set\<close> of the same key, and its metadata is that of the entry or of a \<open>Set\<close> of the key.
\<close>

theorem concurrent_get_genuine:
  assumes "conc_steps (LocalFS_ops C) F (ps, c, st) (ps', c', st')" "lru_inv c" "lfs_inv st"
    and "list_all starting ps" "inj_on (keyToPath C) K"
    and "\<forall>k. GetLookup k \<in> set ps \<or> (\<exists>r m. SetWrite k r m \<in> set ps) \<longrightarrow> k \<in> K"
    and "GetDone k (Inr (rc, m)) \<in> set ps'" "k \<in> K" "rd_err rc = None"
  shows "(lfs_lookup C st k = Some (rd_data rc) \<or>
      (\<exists>r m'. SetWrite k r m' \<in> set ps \<and> rd_err r = None \<and> rd_data r = rd_data rc)) \<and>
    (m \<in> set (cache_view c) \<and> mKey m = k \<or> (\<exists>r. SetWrite k r m \<in> set ps))"
proof -
  let ?W = "\<lambda>k. {b. lfs_lookup C st k = Some b \<or>
    (\<exists>r m'. SetWrite k r m' \<in> set ps \<and> rd_err r = None \<and> rd_data r = b)}"
  let ?M = "\<lambda>k. {m. m \<in> set (cache_view c) \<and> mKey m = k \<or> (\<exists>r. SetWrite k r m \<in> set ps)}"
  have sep: "lfs.separate C K" using assms(5) by (auto simp: lfs.separate_def lfs_same_def inj_on_def)
  have "call_safe K ?W ?M p" if "p \<in> set ps" for p
  proof -
    have "starting p" using that assms(4) by (simp add: list_all_iff)
    with that assms(6) show ?thesis by (cases p rule: call.exhaust) auto
  qed
  then have "lfs.conc_safe C K ?W ?M (ps, c, st)"
    using assms(2,3)
    by (auto simp: lfs.conc_safe_def list_all_iff body_safe_def meta_safe_def cache_view_def)
  from lfs.conc_safe_steps [OF assms(1) this sep]
  have "list_all (call_safe K ?W ?M) ps'" by (simp add: lfs.conc_safe_def)
  with assms(7) have "call_safe K ?W ?M (GetDone k (Inr (rc, m)))" unfolding list_all_iff by blast
  with assms(9) show ?thesis by simp
qed

theorem concurrent_get_genuine_witness:
  "\<exists>r m'. SetWrite ''a'' r m' \<in> set ex_calls \<and> rd_data r = ''2''"
proof -
  obtain c st where r: "conc_steps (LocalFS_ops ex_codec) ex_cfmt (ex_calls, ex_cache, ex_fs)
      ([GetDone ''a'' (Inr (bytes_reader ''2'', ex_cmeta 0)), SetDone ''a'' (bytes_reader ''2'') (ex_cmeta 5) None], c, st)"
    using ex_torn by blast
  have s: "list_all starting ex_calls" by (simp add: ex_calls_def ex_cmeta_def)
  have "lfs_lookup ex_codec ex_fs ''a'' = None" by (simp add: lfs_lookup_def ex_fs_def)
  with concurrent_get_genuine [OF r ex_cache_ok(1) ex_fs_ok(1) s, of "{''a''}" "''a''" "bytes_reader ''2''" "ex_cmeta 0"]
  show ?thesis by (auto simp: ex_calls_def)
qed

text \<open>
  C19: body and metadata of a hit need not belong together: a \<open>Get\<close> whose lookup precedes the index
  update of a \<open>Set\<close> of the same key and whose read follows its write returns the new body with the
  metadata, and so the response headers, of the old entry.
\<close>

theorem concurrent_get_torn:
  assumes "items c k = Some e" "\<not> After now (ExpiresAt (vals c e))" "lfs_inv st" "lfs_reliable st"
    and "lfs_ok_meta C (metaToStorageMeta F m)"
  shows "\<exists>c' st'. conc_steps (LocalFS_ops C) F ([GetLookup k, SetWrite k (bytes_reader b) m], c, st)
    ([GetDone k (Inr (bytes_reader b, vals c e)), SetDone k (bytes_reader b) m None], c', st')"
  by (rule lfs.torn_read [OF assms])

theorem concurrent_get_torn_witness:
  "\<exists>c' st'. conc_steps (LocalFS_ops ex_codec) ex_cfmt
     ([GetLookup ''a'', SetWrite ''a'' (bytes_reader ''2'') (ex_cmeta 5)], ex_cache, ex_fs)
     ([GetDone ''a'' (Inr (bytes_reader ''2'', ex_cmeta 0)), SetDone ''a'' (bytes_reader ''2'') (ex_cmeta 5) None], c', st')"
proof -
  have "\<not> After 1 (ExpiresAt (vals ex_cache 0))"
    by (simp add: ex_cache_ok ex_cmeta_def After_def ExpiresAt_def Add_def)
  from concurrent_get_torn [OF ex_cache_ok(2) this ex_fs_ok(1,2) ex_fs_ok(3)] show ?thesis
    by (simp add: ex_cache_ok)
qed

end
