(* ===== verification/LocalFSConc.thy ===== *)
theory LocalFSConc
  imports LocalFS
begin

text \<open>
  Concurrent calls of the local-filesystem backend (\<open>storage/localfs.go\<close>), which has no lock: a call
  is a sequence of system calls, and those of other calls may come between any two of them.
  \<open>os.WriteFile\<close> of the metadata is two steps, because it opens the file with truncation before
  it writes. \<open>io.Copy\<close> is one: nobody else opens the temporary file.

  A file is named by its path also where the program holds a descriptor. For a temporary file
  that is faithful as long as no two calls draw the same random name, which the statements about
  contents assume of the draws of a run. A metadata file that another call removes, or removes
  and creates anew, between the two steps is covered by a step of its own, \<open>orphan\<close>.
\<close>

section \<open>Calls in progress\<close>

datatype fs_call =
    WriteStart string reader "Metadata option"
  | WriteCopy string string reader "Metadata option"     \<comment> \<open>content path, temporary file\<close>
  | WriteClose string string "Metadata option"
  | WriteRename string string "Metadata option"
  | WriteMeta string string "Metadata option"
  | WriteMetaData string string bytes "storage_err option" \<comment> \<open>truncated; what the second step writes\<close>
  | WriteUndo string string storage_err
  | WriteClean string "storage_err option"               \<comment> \<open>the deferred removal\<close>
  | WriteDone "storage_err option"
  | ReadStart string
  | ReadMeta string reader
  | ReadDone string "storage_err + reader \<times> Metadata option"
  | DeleteStart string
  | DeleteMeta string
  | DeleteDone "storage_err option"

fun fs_finished :: "fs_call \<Rightarrow> bool" where
  "fs_finished (WriteDone e) = True"
| "fs_finished (ReadDone k r) = True"
| "fs_finished (DeleteDone e) = True"
| "fs_finished _ = False"

text \<open>\<open>os.OpenFile\<close> with truncation, and what remains to be written.\<close>

definition open_meta :: "string \<Rightarrow> bytes \<Rightarrow> localfs \<Rightarrow> (bytes \<times> storage_err option) option \<times> localfs" where
  "open_meta n d s = (let (f, s1) = pop_fault s in
     case f of NoFault \<Rightarrow> (Some (d, None), put_file n [] s1)
     | Fault \<Rightarrow> (None, s1)
     | Short k \<Rightarrow> (Some (take k d, Some SWriteMeta), put_file n [] s1))"

fun after_meta :: "string \<Rightarrow> string \<Rightarrow> storage_err option \<Rightarrow> fs_call" where
  "after_meta p tmp None = WriteClean tmp None"
| "after_meta p tmp (Some e) = WriteUndo p tmp e"

fun fs_step :: "codec \<Rightarrow> fs_call \<Rightarrow> localfs \<Rightarrow> fs_call \<times> localfs" where
  "fs_step C (WriteStart k r mo) s =
     (case os_CreateTemp s of
        (Inl e, s1) \<Rightarrow> (WriteDone (Some SCreateTemp), s1)
      | (Inr tmp, s1) \<Rightarrow> (WriteCopy (keyToPath C k) tmp r mo, s1))"
| "fs_step C (WriteCopy p tmp r mo) s =
     (case io_Copy tmp r s of
        (False, s1) \<Rightarrow> (WriteClean tmp (Some SWriteContent), s1)
      | (True, s1) \<Rightarrow> (WriteClose p tmp mo, s1))"
| "fs_step C (WriteClose p tmp mo) s =
     (case os_Close s of
        (Some e, s1) \<Rightarrow> (WriteClean tmp (Some SCloseTemp), s1)
      | (None, s1) \<Rightarrow> (WriteRename p tmp mo, s1))"
| "fs_step C (WriteRename p tmp mo) s =
     (case os_Rename tmp p s of
        (Some e, s1) \<Rightarrow> (WriteClean tmp (Some SRename), s1)
      | (None, s1) \<Rightarrow> (WriteMeta p tmp mo, s1))"
| "fs_step C (WriteMeta p tmp mo) s =
     (case metaMarshal C (case mo of None \<Rightarrow> empty_Metadata | Some m \<Rightarrow> m) of
        None \<Rightarrow> (WriteUndo p tmp SEncodeMeta, s)
      | Some d \<Rightarrow>
          (case open_meta (p @ ''.meta'') d s of
             (None, s1) \<Rightarrow> (WriteUndo p tmp SWriteMeta, s1)
           | (Some (d', e), s1) \<Rightarrow> (WriteMetaData p tmp d' e, s1)))"
| "fs_step C (WriteMetaData p tmp d e) s = (after_meta p tmp e, put_file (p @ ''.meta'') d s)"
| "fs_step C (WriteUndo p tmp e) s = (WriteClean tmp (Some e), snd (os_Remove p s))"
| "fs_step C (WriteClean tmp res) s = (WriteDone res, snd (os_Remove tmp s))"
| "fs_step C (ReadStart k) s =
     (case os_Open (keyToPath C k) s of
        (Inl e, s1) \<Rightarrow> (ReadDone k (Inl (if e = ENOENT then SKeyNotFound k else SOpen k)), s1)
      | (Inr f, s1) \<Rightarrow> (ReadMeta k f, s1))"
| "fs_step C (ReadMeta k f) s =
     (case readMeta C (keyToPath C k) s of
        (Inl e, s1) \<Rightarrow> (ReadDone k (Inl e), s1)
      | (Inr m, s1) \<Rightarrow> (ReadDone k (Inr (f, Some m)), s1))"
| "fs_step C (DeleteStart k) s =
     (case os_Remove (keyToPath C k) s of
        (Some e, s1) \<Rightarrow>
          (if e \<noteq> ENOENT then DeleteDone (Some (SDelete k)) else DeleteMeta (keyToPath C k), s1)
      | (None, s1) \<Rightarrow> (DeleteMeta (keyToPath C k), s1))"
| "fs_step C (DeleteMeta p) s = (DeleteDone None, snd (os_Remove (p @ ''.meta'') s))"
| "fs_step C c s = (c, s)"

inductive fs_conc :: "codec \<Rightarrow> fs_call list \<times> localfs \<Rightarrow> fs_call list \<times> localfs \<Rightarrow> bool" for C where
  run: "i < length cs \<Longrightarrow> \<not> fs_finished (cs ! i) \<Longrightarrow> fs_step C (cs ! i) s = (c, s') \<Longrightarrow>
    fs_conc C (cs, s) (cs[i := c], s')"
| orphan: "i < length cs \<Longrightarrow> cs ! i = WriteMetaData p tmp d e \<Longrightarrow>
    fs_conc C (cs, s) (cs[i := after_meta p tmp e], s)"

inductive_cases fs_concE: "fs_conc C (cs, s) (cs', s')"

abbreviation fs_concs :: "codec \<Rightarrow> fs_call list \<times> localfs \<Rightarrow> fs_call list \<times> localfs \<Rightarrow> bool" where
  "fs_concs C \<equiv> (fs_conc C)\<^sup>*\<^sup>*"


section \<open>A call that is not interrupted\<close>

fun fs_alone :: "codec \<Rightarrow> nat \<Rightarrow> fs_call \<times> localfs \<Rightarrow> fs_call \<times> localfs" where
  "fs_alone C 0 x = x"
| "fs_alone C (Suc n) (c, s) = fs_alone C n (fs_step C c s)"

lemma fs_alone_finished [simp]: "fs_finished c \<Longrightarrow> fs_alone C n (c, s) = (c, s)"
  by (induction n) (auto elim!: fs_finished.elims)

lemma put_twice: "put_file n d (put_file n d' s) = put_file n d s"
proof -
  have "AList.update n v (AList.update n v' xs) = AList.update n v xs" for v v' and xs :: "(bytes \<times> time) gomap"
    by (induction xs) auto
  then show ?thesis by (simp add: put_file_def)
qed

lemma meta_two_steps:
  "writeMeta C p mo s =
     (case metaMarshal C (case mo of None \<Rightarrow> empty_Metadata | Some m \<Rightarrow> m) of
        None \<Rightarrow> (Some SEncodeMeta, s)
      | Some d \<Rightarrow>
          (case open_meta (p @ ''.meta'') d s of
             (None, s1) \<Rightarrow> (Some SWriteMeta, s1)
           | (Some (d', e), s1) \<Rightarrow> (e, put_file (p @ ''.meta'') d' s1)))"
  by (auto simp: writeMeta_def os_WriteFile_def open_meta_def Let_def put_twice
      split: option.split prod.split fault.split)

lemma alone_body:
  assumes "LocalFS_Write_body C p tmp r mo s = (res, s')"
  shows "fs_alone C 7 (WriteCopy p tmp r mo, s) = (WriteDone res, snd (os_Remove tmp s'))"
  using assms unfolding LocalFS_Write_body_def meta_two_steps
  by (auto simp: eval_nat_numeral split: prod.splits bool.splits option.splits)

lemma alone_Write:
  "fs_alone C 8 (WriteStart k r mo, s) =
     (WriteDone (fst (LocalFS_Write C k r mo s)), snd (LocalFS_Write C k r mo s))"
proof -
  have 8: "(8::nat) = Suc 7" by simp
  show ?thesis
    unfolding 8 fs_alone.simps fs_step.simps
    by (auto simp: LocalFS_Write_def Let_def alone_body split: prod.split sum.split)
qed

lemma alone_Read:
  "fs_alone C 2 (ReadStart k, s) = (ReadDone k (fst (LocalFS_Read C k s)), snd (LocalFS_Read C k s))"
  by (auto simp: eval_nat_numeral LocalFS_Read_def Let_def split: prod.split sum.split)

lemma alone_Delete:
  "fs_alone C 2 (DeleteStart k, s) = (DeleteDone (fst (LocalFS_Delete C k s)), snd (LocalFS_Delete C k s))"
  by (auto simp: eval_nat_numeral LocalFS_Delete_def Let_def split: prod.split option.split)


section \<open>Termination\<close>

fun fs_todo :: "fs_call \<Rightarrow> nat" where
  "fs_todo (WriteStart k r mo) = 8"
| "fs_todo (WriteCopy p tmp r mo) = 7"
| "fs_todo (WriteClose p tmp mo) = 6"
| "fs_todo (WriteRename p tmp mo) = 5"
| "fs_todo (WriteMeta p tmp mo) = 4"
| "fs_todo (WriteMetaData p tmp d e) = 3"
| "fs_todo (WriteUndo p tmp e) = 2"
| "fs_todo (WriteClean tmp res) = 1"
| "fs_todo (ReadStart k) = 2"
| "fs_todo (ReadMeta k f) = 1"
| "fs_todo (DeleteStart k) = 2"
| "fs_todo (DeleteMeta p) = 1"
| "fs_todo _ = 0"

lemma after_meta_todo: "fs_todo (after_meta p tmp e) < 3"
  by (cases e) simp_all

lemma fs_step_todo: "\<not> fs_finished c \<Longrightarrow> fs_todo (fst (fs_step C c s)) < fs_todo c"
  by (cases c) (auto split: prod.split sum.split option.split bool.split simp: after_meta_todo)

lemma fs_conc_todo: "fs_conc C x y \<Longrightarrow> sum_list (map fs_todo (fst y)) < sum_list (map fs_todo (fst x))"
proof (induction rule: fs_conc.induct)
  case (run i cs s c s')
  then have "fs_todo c < map fs_todo cs ! i" using fs_step_todo [of "cs ! i" C s] by simp
  with run(1) show ?case by (simp add: map_update sum_list_update_less)
next
  case (orphan i cs p tmp d e s)
  then have "fs_todo (after_meta p tmp e) < map fs_todo cs ! i" by (simp add: after_meta_todo)
  with orphan(1) show ?case by (simp add: map_update sum_list_update_less)
qed

lemma fs_conc_stuck: "(\<nexists>y. fs_conc C x y) \<longleftrightarrow> list_all fs_finished (fst x)"
proof
  assume "list_all fs_finished (fst x)"
  then show "\<nexists>y. fs_conc C x y" by (auto simp: list_all_length elim!: fs_conc.cases)
next
  assume stuck: "\<nexists>y. fs_conc C x y"
  show "list_all fs_finished (fst x)"
    unfolding list_all_length
  proof (intro allI impI, rule ccontr)
    fix i assume "i < length (fst x)" "\<not> fs_finished (fst x ! i)"
    then have "fs_conc C (fst x, snd x) ((fst x)[i := fst (fs_step C (fst x ! i) (snd x))],
        snd (fs_step C (fst x ! i) (snd x)))" by (intro fs_conc.run) simp_all
    with stuck show False by simp
  qed
qed


section \<open>Temporary files\<close>

fun tmp_of :: "fs_call \<Rightarrow> string option" where
  "tmp_of (WriteCopy p tmp r mo) = Some tmp"
| "tmp_of (WriteClose p tmp mo) = Some tmp"
| "tmp_of (WriteRename p tmp mo) = Some tmp"
| "tmp_of (WriteMeta p tmp mo) = Some tmp"
| "tmp_of (WriteMetaData p tmp d e) = Some tmp"
| "tmp_of (WriteUndo p tmp e) = Some tmp"
| "tmp_of (WriteClean tmp res) = Some tmp"
| "tmp_of _ = None"

text \<open>The paths a step may change, besides a temporary file it creates.\<close>

fun foot :: "codec \<Rightarrow> fs_call \<Rightarrow> string set" where
  "foot C (WriteCopy p tmp r mo) = {tmp}"
| "foot C (WriteRename p tmp mo) = {tmp, p}"
| "foot C (WriteMeta p tmp mo) = {p @ ''.meta''}"
| "foot C (WriteMetaData p tmp d e) = {p @ ''.meta''}"
| "foot C (WriteUndo p tmp e) = {p}"
| "foot C (WriteClean tmp res) = {tmp}"
| "foot C (DeleteStart k) = {keyToPath C k}"
| "foot C (DeleteMeta p) = {p @ ''.meta''}"
| "foot C _ = {}"

lemma tmp_of_after_meta [simp]: "tmp_of (after_meta p tmp e) = Some tmp"
  by (cases e) simp_all

lemma open_meta_touches: "touches {n} s (snd (open_meta n d s))"
  by (auto simp: open_meta_def Let_def split_beta pop_fault_touches touches_put_drop split: fault.splits)

lemma fs_step_touches:
  assumes "fs_step C c s = (c', s')"
  shows "touches (foot C c \<union> (if tmp_of c = None then set_option (tmp_of c') else {})) s s'"
proof -
  note t = syscall_touches
  show ?thesis
  proof (cases c)
    case (WriteStart k r mo)
    with assms show ?thesis by (auto split: prod.splits sum.splits dest!: os_CreateTemp_only)
  next
    case (WriteCopy p tmp r mo)
    with assms t(7) [of tmp s r] show ?thesis by (auto split: prod.splits bool.splits)
  next
    case (WriteClose p tmp mo)
    with assms t(4) [of s] show ?thesis by (auto split: prod.splits option.splits)
  next
    case (WriteRename p tmp mo)
    with assms os_Rename_touches [of tmp p s] show ?thesis by (auto split: prod.splits option.splits)
  next
    case (WriteMeta p tmp mo)
    with assms open_meta_touches [of "p @ ''.meta''" s] show ?thesis
      by (fastforce split: prod.splits option.splits dest: arg_cong [of _ _ snd])
  next
    case (ReadStart k)
    with assms t(1) [of s "keyToPath C k"] show ?thesis by (auto split: prod.splits sum.splits)
  next
    case (ReadMeta k f)
    with assms readMeta_touches [of s C "keyToPath C k"] show ?thesis by (auto split: prod.splits sum.splits)
  next
    case (DeleteStart k)
    with assms t(5) [of "keyToPath C k" s] show ?thesis by (auto split: prod.splits option.splits)
  next
    case (ReadDone k r)
    with assms show ?thesis by (cases r) auto
  qed (use assms t(5) in \<open>auto simp: touches_put_drop\<close>)
qed

lemma fs_step_tmp:
  "fs_step C c s = (c', s') \<Longrightarrow> tmp_of c = Some t \<Longrightarrow>
   tmp_of c' = Some t \<or> tmp_of c' = None \<and> (\<exists>res. c = WriteClean t res)"
  by (cases c) (auto split: prod.splits sum.splits option.splits bool.splits)

lemma fs_step_new_tmp:
  "fs_step C c s = (c', s') \<Longrightarrow> tmp_of c = None \<Longrightarrow> tmp_of c' = Some t \<Longrightarrow>
   \<exists>k r mo. c = WriteStart k r mo \<and> c' = WriteCopy (keyToPath C k) t r mo \<and> os_CreateTemp s = (Inr t, s')"
  by (cases c) (auto split: prod.splits sum.splits option.splits bool.splits if_splits)

text \<open>The random numbers: a step draws some more of the same sequence.\<close>

definition drawn :: "localfs \<Rightarrow> nat \<Rightarrow> string" where
  "drawn s i = temp_name (rnd s i)"

definition draws :: "localfs \<Rightarrow> localfs \<Rightarrow> bool" where
  "draws s s' \<longleftrightarrow> rnd s' = rnd s \<and> rndpos s \<le> rndpos s'"

lemma draws_refl [simp]: "draws s s"
  by (simp add: draws_def)

lemma draws_trans: "draws s s' \<Longrightarrow> draws s' s'' \<Longrightarrow> draws s s''"
  by (simp add: draws_def)

lemma pop_fault_draws: "draws s (snd (pop_fault s))"
  by (auto simp: draws_def pop_fault_def split: list.splits)

lemma put_drop_draws [simp]:
  "draws s (put_file n b s') = draws s s'" "draws s (drop_file n s') = draws s s'"
  "draws s (s'\<lparr>files := xs\<rparr>) = draws s s'"
  by (simp_all add: draws_def put_file_def drop_file_def)

lemma syscall_draws:
  "draws s (snd (os_Open n s))" "draws s (snd (os_ReadFile n s))" "draws s (snd (os_Close s))"
  "draws s (snd (os_Remove n s))" "draws s (snd (io_Copy n r s))" "draws s (snd (os_Rename a b s))"
  "draws s (snd (open_meta n d s))"
  by (auto simp: os_Open_def os_ReadFile_def os_Close_def os_Remove_def io_Copy_def os_Rename_def
      open_meta_def Let_def split_beta pop_fault_draws split: fault.splits option.splits)

lemma try_temp_draws:
  "try_temp n s = (r, s') \<Longrightarrow> draws s s' \<and>
   (case r of Inl e \<Rightarrow> True | Inr t \<Rightarrow> t \<in> drawn s ` {rndpos s..<rndpos s'} \<and> map_of (files s) t = None)"
proof (induction n s rule: try_temp.induct)
  case (2 n s)
  let ?t = "temp_name (rnd s (rndpos s))"
  show ?case
  proof (cases "map_of (files s) ?t \<noteq> None \<or> ?t \<in> set (subdirs s)")
    case True
    let ?s = "s\<lparr>rndpos := Suc (rndpos s)\<rparr>"
    have "try_temp n ?s = (r, s')" using 2(2) True by (auto simp: Let_def)
    with 2(1) [OF refl refl] True have "draws ?s s'" and
      t: "case r of Inl e \<Rightarrow> True | Inr t \<Rightarrow> t \<in> drawn ?s ` {Suc (rndpos s)..<rndpos s'} \<and> map_of (files s) t = None"
      by (auto split: sum.splits)
    moreover have "drawn ?s = drawn s" by (rule ext) (simp add: drawn_def)
    moreover have "{Suc (rndpos s)..<rndpos s'} \<subseteq> {rndpos s..<rndpos s'}" by auto
    ultimately show ?thesis by (auto simp: draws_def split: sum.splits)
  next
    case False
    with 2(2) have "r = Inr ?t" "s' = put_file ?t [] (s\<lparr>rndpos := Suc (rndpos s)\<rparr>)"
      by (auto simp: Let_def)
    moreover have "map_of (files s) ?t = None" using False by blast
    ultimately show ?thesis by (simp add: draws_def drawn_def put_file_def)
  qed
qed auto

lemma os_CreateTemp_draws:
  "os_CreateTemp s = (r, s') \<Longrightarrow> draws s s' \<and>
   (case r of Inl e \<Rightarrow> True | Inr t \<Rightarrow> t \<in> drawn s ` {rndpos s..<rndpos s'} \<and> map_of (files s) t = None)"
proof -
  assume a: "os_CreateTemp s = (r, s')"
  obtain f s1 where p: "pop_fault s = (f, s1)" by (cases "pop_fault s")
  have s1: "rnd s1 = rnd s" "rndpos s1 = rndpos s" "files s1 = files s"
    using p by (auto simp: pop_fault_def split: list.splits)
  show ?thesis
  proof (cases "f = NoFault")
    case True
    with a p have "try_temp 10000 s1 = (r, s')" by (simp add: os_CreateTemp_def)
    moreover have "drawn s1 = drawn s" by (rule ext) (simp add: drawn_def s1)
    ultimately show ?thesis using try_temp_draws [of 10000 s1 r s'] by (auto simp: draws_def s1 split: sum.splits)
  next
    case False
    with a p have "r = Inl EIO" "s' = s1" by (auto simp: os_CreateTemp_def split: fault.splits)
    with s1 show ?thesis by (simp add: draws_def)
  qed
qed

lemma readMeta_draws: "draws s (snd (readMeta C p s))"
  using syscall_draws(2) [of s "p @ ''.meta''"]
  by (auto simp: readMeta_def split: prod.splits sum.splits option.splits)

lemma fs_step_draws:
  assumes "fs_step C c s = (c', s')" shows "draws s s'"
proof (cases c)
  case (WriteStart k r mo)
  with assms show ?thesis by (auto split: prod.splits sum.splits dest!: os_CreateTemp_draws)
next
  case (WriteCopy p tmp r mo)
  with assms show ?thesis using syscall_draws(5) [of s tmp r] by (auto split: prod.splits bool.splits)
next
  case (WriteClose p tmp mo)
  with assms show ?thesis using syscall_draws(3) [of s] by (auto split: prod.splits option.splits)
next
  case (WriteRename p tmp mo)
  with assms show ?thesis using syscall_draws(6) [of s tmp p] by (auto split: prod.splits option.splits)
next
  case (WriteMeta p tmp mo)
  with assms show ?thesis using syscall_draws(7) [of s "p @ ''.meta''"]
    by (fastforce split: prod.splits option.splits dest: arg_cong [of _ _ snd])
next
  case (ReadStart k)
  with assms show ?thesis using syscall_draws(1) [of s "keyToPath C k"] by (auto split: prod.splits sum.splits)
next
  case (ReadMeta k f)
  with assms show ?thesis using readMeta_draws [of s C "keyToPath C k"] by (auto split: prod.splits sum.splits)
next
  case (DeleteStart k)
  with assms show ?thesis using syscall_draws(4) [of s "keyToPath C k"] by (auto split: prod.splits option.splits)
qed (use assms syscall_draws(4) in auto)

lemma fs_conc_draws: "fs_conc C x y \<Longrightarrow> draws (snd x) (snd y)"
  by (induction rule: fs_conc.induct) (auto dest: fs_step_draws)


section \<open>What content files and readers can hold\<close>

text \<open>\<open>V p\<close>: the bodies that may be at content path \<open>p\<close>.\<close>

fun call_good :: "codec \<Rightarrow> (string \<Rightarrow> bytes set) \<Rightarrow> localfs \<Rightarrow> fs_call \<Rightarrow> bool" where
  "call_good C V s (WriteStart k r mo) \<longleftrightarrow> (rd_err r = None \<longrightarrow> rd_data r \<in> V (keyToPath C k))"
| "call_good C V s (WriteCopy p tmp r mo) \<longleftrightarrow>
     p \<in> range (keyToPath C) \<and> HasPrefix tmp ''.tmp-'' \<and> (rd_err r = None \<longrightarrow> rd_data r \<in> V p)"
| "call_good C V s (WriteClose p tmp mo) \<longleftrightarrow>
     p \<in> range (keyToPath C) \<and> HasPrefix tmp ''.tmp-'' \<and> (\<exists>b t. map_of (files s) tmp = Some (b, t) \<and> b \<in> V p)"
| "call_good C V s (WriteRename p tmp mo) \<longleftrightarrow>
     p \<in> range (keyToPath C) \<and> HasPrefix tmp ''.tmp-'' \<and> (\<exists>b t. map_of (files s) tmp = Some (b, t) \<and> b \<in> V p)"
| "call_good C V s (WriteMeta p tmp mo) \<longleftrightarrow> p \<in> range (keyToPath C) \<and> HasPrefix tmp ''.tmp-''"
| "call_good C V s (WriteMetaData p tmp d e) \<longleftrightarrow> p \<in> range (keyToPath C) \<and> HasPrefix tmp ''.tmp-''"
| "call_good C V s (WriteUndo p tmp e) \<longleftrightarrow> p \<in> range (keyToPath C) \<and> HasPrefix tmp ''.tmp-''"
| "call_good C V s (WriteClean tmp res) \<longleftrightarrow> HasPrefix tmp ''.tmp-''"
| "call_good C V s (ReadMeta k f) \<longleftrightarrow> (rd_err f = None \<longrightarrow> rd_data f \<in> V (keyToPath C k))"
| "call_good C V s (ReadDone k (Inr (f, mo))) \<longleftrightarrow> (rd_err f = None \<longrightarrow> rd_data f \<in> V (keyToPath C k))"
| "call_good C V s (DeleteMeta p) \<longleftrightarrow> p \<in> range (keyToPath C)"
| "call_good C V s c \<longleftrightarrow> True"

definition disk_good :: "codec \<Rightarrow> (string \<Rightarrow> bytes set) \<Rightarrow> localfs \<Rightarrow> bool" where
  "disk_good C V s \<longleftrightarrow> (\<forall>k b t. map_of (files s) (keyToPath C k) = Some (b, t) \<longrightarrow> b \<in> V (keyToPath C k))"

lemma call_good_after_meta [simp]:
  "p \<in> range (keyToPath C) \<Longrightarrow> HasPrefix tmp ''.tmp-'' \<Longrightarrow> call_good C V s (after_meta p tmp e)"
  by (cases e) simp_all

text \<open>Everything but the content of a held temporary file is independent of the disk.\<close>

lemma call_good_touches:
  assumes "call_good C V s c" "touches N s s'" "\<And>t. tmp_of c = Some t \<Longrightarrow> t \<notin> N"
  shows "call_good C V s' c"
  using assms by (cases "(C, V, s, c)" rule: call_good.cases) (auto simp: touches_def)

lemma disk_good_touches:
  "disk_good C V s \<Longrightarrow> touches N s s' \<Longrightarrow> N \<inter> range (keyToPath C) = {} \<Longrightarrow> disk_good C V s'"
  unfolding disk_good_def touches_def by (metis disjoint_iff rangeI)

lemma os_Remove_files:
  "files (snd (os_Remove n s)) = files s \<or> files (snd (os_Remove n s)) = AList.delete n (files s)"
  by (auto simp: os_Remove_def Let_def split_beta split: fault.splits option.splits)

lemma disk_good_Remove: "disk_good C V s \<Longrightarrow> disk_good C V (snd (os_Remove n s))"
  using os_Remove_files [of n s] by (auto simp: disk_good_def delete_conv' split: if_splits)

lemma path_names:
  "p \<in> range (keyToPath C) \<Longrightarrow> \<not> HasPrefix p ''.tmp-'' \<and> \<not> HasPrefix (p @ ''.meta'') ''.tmp-'' \<and>
   p @ ''.meta'' \<notin> range (keyToPath C)"
  using path_not_temp meta_neq_path by auto

lemma os_Rename_good:
  assumes "disk_good C V s" "map_of (files s) tmp = Some (b, t)" "b \<in> V p" "tmp \<notin> range (keyToPath C)"
  shows "disk_good C V (snd (os_Rename tmp p s))"
proof -
  have "files (snd (os_Rename tmp p s)) = files s \<or>
      files (snd (os_Rename tmp p s)) = AList.update p (b, t) (AList.delete tmp (files s))"
    using assms(2) by (auto simp: os_Rename_def Let_def split_beta split: fault.splits)
  with assms show ?thesis by (auto simp: disk_good_def update_conv' delete_conv' split: if_splits)
qed

text \<open>One step keeps the disk good: only a rename puts something at a content path.\<close>

lemma fs_step_disk:
  assumes "fs_step C c s = (c', s')" "call_good C V s c" "disk_good C V s"
  shows "disk_good C V s'"
proof -
  have away: ?thesis if "foot C c \<inter> range (keyToPath C) = {}"
  proof (rule disk_good_touches [OF assms(3) fs_step_touches [OF assms(1)]])
    have "t \<notin> range (keyToPath C)" if "tmp_of c = None" "tmp_of c' = Some t" for t
      using fs_step_new_tmp [OF assms(1) that] os_CreateTemp_name path_names by blast
    with that show "(foot C c \<union> (if tmp_of c = None then set_option (tmp_of c') else {})) \<inter> range (keyToPath C) = {}"
      by (auto simp: elem_set)
  qed
  show ?thesis
  proof (cases c)
    case (WriteCopy p tmp r mo)
    with assms(2) path_names show ?thesis by (intro away) auto
  next
    case (WriteRename p tmp mo)
    then obtain b t where p: "HasPrefix tmp ''.tmp-''" "map_of (files s) tmp = Some (b, t)" "b \<in> V p"
      using assms(2) by auto
    have "tmp \<notin> range (keyToPath C)" using p(1) path_names by blast
    from os_Rename_good [OF assms(3) p(2,3) this] show ?thesis
      using assms(1) WriteRename by (auto split: prod.splits option.splits)
  next
    case (DeleteStart k)
    with assms(1) disk_good_Remove [OF assms(3), of "keyToPath C k"] show ?thesis
      by (auto split: prod.splits option.splits)
  next
    case (WriteMeta p tmp mo)
    with assms(2) path_names show ?thesis by (intro away) auto
  next
    case (WriteMetaData p tmp d e)
    with assms(2) path_names show ?thesis by (intro away) auto
  next
    case (ReadMeta k f)
    then show ?thesis by (intro away) simp
  next
    case (ReadDone k r)
    then show ?thesis by (intro away) simp
  qed (use assms(1) disk_good_Remove [OF assms(3)] away in \<open>auto split del: if_split\<close>)
qed

text \<open>And it leaves its own call good.\<close>

lemma fs_step_call:
  assumes "fs_step C c s = (c', s')" "call_good C V s c" "disk_good C V s"
  shows "call_good C V s' c'"
proof (cases c)
  case (WriteStart k r mo)
  with assms(1,2) show ?thesis by (auto split: prod.splits sum.splits dest: os_CreateTemp_name)
next
  case (WriteCopy p tmp r mo)
  with assms(1,2) show ?thesis
    using io_Copy_True [of tmp r s] by (auto split: prod.splits bool.splits)
next
  case (WriteClose p tmp mo)
  with assms(1,2) os_Close_files [of s] show ?thesis by (auto split: prod.splits option.splits)
next
  case (ReadStart k)
  with assms(1,3) show ?thesis
    by (auto simp: disk_good_def split: prod.splits sum.splits dest!: os_Open_Inr)
next
  case (ReadDone k r)
  with assms(1,2) show ?thesis by (cases r) auto
qed (use assms(1,2) in \<open>auto split: prod.splits sum.splits option.splits\<close>)

lemma fs_step_good:
  assumes "fs_step C c s = (c', s')" "call_good C V s c" "disk_good C V s"
  shows "call_good C V s' c' \<and> disk_good C V s'"
  using fs_step_call [OF assms] fs_step_disk [OF assms] by simp


section \<open>All calls together\<close>

definition tmps_apart :: "fs_call list \<Rightarrow> bool" where
  "tmps_apart cs \<longleftrightarrow> (\<forall>i j t. i < length cs \<longrightarrow> j < length cs \<longrightarrow>
     tmp_of (cs ! i) = Some t \<longrightarrow> tmp_of (cs ! j) = Some t \<longrightarrow> i = j)"

definition tmps_drawn :: "fs_call list \<Rightarrow> localfs \<Rightarrow> bool" where
  "tmps_drawn cs s \<longleftrightarrow> (\<forall>c \<in> set cs. \<forall>t. tmp_of c = Some t \<longrightarrow> t \<in> drawn s ` {..<rndpos s})"

definition conc_good :: "codec \<Rightarrow> (string \<Rightarrow> bytes set) \<Rightarrow> fs_call list \<times> localfs \<Rightarrow> bool" where
  "conc_good C V x \<longleftrightarrow> disk_good C V (snd x) \<and> list_all (call_good C V (snd x)) (fst x) \<and>
     tmps_apart (fst x) \<and> tmps_drawn (fst x) (snd x)"

text \<open>No temporary name was drawn twice up to \<open>s\<close>.\<close>

definition fresh_draws :: "localfs \<Rightarrow> bool" where
  "fresh_draws s \<longleftrightarrow> inj_on (drawn s) {..<rndpos s}"

lemma fresh_draws_mono: "fresh_draws s' \<Longrightarrow> draws s s' \<Longrightarrow> fresh_draws s"
  unfolding fresh_draws_def draws_def drawn_def [abs_def] by (auto elim!: inj_on_subset)

lemma draws_drawn: "draws s s' \<Longrightarrow> drawn s' = drawn s \<and> {..<rndpos s} \<subseteq> {..<rndpos s'}"
  by (auto simp: draws_def drawn_def [abs_def])

lemma new_tmp_fresh:
  assumes "os_CreateTemp s = (Inr t, s')" "fresh_draws s'"
  shows "t \<notin> drawn s ` {..<rndpos s}" "t \<in> drawn s' ` {..<rndpos s'}"
proof -
  have d: "draws s s'" "t \<in> drawn s ` {rndpos s..<rndpos s'}"
    using os_CreateTemp_draws [OF assms(1)] by simp_all
  then obtain i where i: "t = drawn s i" "rndpos s \<le> i" "i < rndpos s'" by auto
  have eq: "drawn s' = drawn s" using draws_drawn [OF d(1)] by simp
  show "t \<in> drawn s' ` {..<rndpos s'}" using i eq by auto
  show "t \<notin> drawn s ` {..<rndpos s}"
  proof
    assume "t \<in> drawn s ` {..<rndpos s}"
    then obtain j where "drawn s j = drawn s i" "j < rndpos s" using i(1) by auto
    moreover have "inj_on (drawn s) {..<rndpos s'}" using assms(2) eq by (simp add: fresh_draws_def)
    ultimately have "j = i" using i by (auto dest: inj_onD)
    with i(2) \<open>j < rndpos s\<close> show False by simp
  qed
qed

lemma fs_step_tmp_cases:
  assumes "fs_step C c s = (c', s')"
  obtains "tmp_of c' = tmp_of c" | "tmp_of c' = None"
    | t where "tmp_of c = None" "tmp_of c' = Some t" "os_CreateTemp s = (Inr t, s')"
  using fs_step_tmp [OF assms] fs_step_new_tmp [OF assms]
  by (cases "tmp_of c"; cases "tmp_of c'") auto

lemma step_tmps:
  assumes step: "fs_step C (cs ! i) s = (c', s')" and i: "i < length cs"
    and old: "tmps_apart cs" "tmps_drawn cs s" and fresh: "fresh_draws s'"
  shows "tmps_apart (cs[i := c']) \<and> tmps_drawn (cs[i := c']) s'"
proof -
  note d = draws_drawn [OF fs_step_draws [OF step]]
  have others: "t \<in> drawn s' ` {..<rndpos s'}" if "j < length cs" "tmp_of (cs ! j) = Some t" for j t
    using old(2) that d unfolding tmps_drawn_def by (metis image_mono nth_mem subsetD)
  show ?thesis
  proof (cases rule: fs_step_tmp_cases [OF step])
    case 1
    then have "tmp_of (cs[i := c'] ! j) = tmp_of (cs ! j)" if "j < length cs" for j
      using that i by (cases "j = i") simp_all
    with old(1) others show ?thesis
      unfolding tmps_apart_def tmps_drawn_def by (simp add: all_set_conv_all_nth)
  next
    case 2
    then have "tmp_of (cs[i := c'] ! j) = Some t \<Longrightarrow> tmp_of (cs ! j) = Some t" if "j < length cs" for j t
      using that i by (cases "j = i") simp_all
    with old(1) others show ?thesis
      unfolding tmps_apart_def tmps_drawn_def by (simp add: all_set_conv_all_nth)
  next
    case (3 t)
    note n = new_tmp_fresh [OF 3(3) fresh]
    have other: "tmp_of (cs ! j) \<noteq> Some t" if "j < length cs" for j
      using old(2) n(1) that unfolding tmps_drawn_def by (metis nth_mem)
    have "tmps_apart (cs[i := c'])"
      unfolding tmps_apart_def
    proof (intro allI impI)
      fix j k u
      assume "j < length (cs[i := c'])" "k < length (cs[i := c'])"
        "tmp_of (cs[i := c'] ! j) = Some u" "tmp_of (cs[i := c'] ! k) = Some u"
      with 3(2) other old(1) i show "j = k"
        unfolding tmps_apart_def by (cases "j = i"; cases "k = i") auto
    qed
    moreover have "tmps_drawn (cs[i := c']) s'"
      unfolding tmps_drawn_def all_set_conv_all_nth
    proof (intro allI impI)
      fix j u
      assume "j < length (cs[i := c'])" "tmp_of (cs[i := c'] ! j) = Some u"
      with 3(2) n(2) others show "u \<in> drawn s' ` {..<rndpos s'}" by (cases "j = i") auto
    qed
    ultimately show ?thesis ..
  qed
qed

text \<open>A step does not touch the temporary file of another call.\<close>

lemma step_spares:
  assumes "fs_step C (cs ! i) s = (c', s')" "i < length cs" "j < length cs" "j \<noteq> i"
    and "tmps_apart cs" "tmps_drawn cs s" "fresh_draws s'" "call_good C V s (cs ! i)" "tmp_of (cs ! j) = Some t"
    and pre: "HasPrefix t ''.tmp-''"
  shows "t \<notin> foot C (cs ! i) \<union> (if tmp_of (cs ! i) = None then set_option (tmp_of c') else {})"
proof -
  have own: "tmp_of (cs ! i) \<noteq> Some t" using assms(2-5,9) unfolding tmps_apart_def by blast
  have paths: "t \<noteq> keyToPath C k" "t \<noteq> keyToPath C k @ ''.meta''" for k using temp_neq_path [OF pre] by simp_all
  have "t \<notin> foot C (cs ! i)"
    using own paths assms(8) by (cases "cs ! i") auto
  moreover have "tmp_of c' \<noteq> Some t" if none: "tmp_of (cs ! i) = None"
  proof
    assume c': "tmp_of c' = Some t"
    then have "os_CreateTemp s = (Inr t, s')" using fs_step_new_tmp [OF assms(1) none] by blast
    from new_tmp_fresh(1) [OF this assms(7)] assms(3,6,9) show False
      unfolding tmps_drawn_def by (metis nth_mem)
  qed
  ultimately show ?thesis by (auto simp: elem_set)
qed

lemma call_good_tmp: "call_good C V s c \<Longrightarrow> tmp_of c = Some t \<Longrightarrow> HasPrefix t ''.tmp-''"
  by (cases "(C, V, s, c)" rule: call_good.cases) auto

lemma fs_conc_good:
  assumes "fs_conc C x y" "conc_good C V x" "fresh_draws (snd y)"
  shows "conc_good C V y"
  using assms
proof (induction rule: fs_conc.induct)
  case (run i cs s c s')
  then have good: "disk_good C V s" "list_all (call_good C V s) cs" "tmps_apart cs" "tmps_drawn cs s"
    and fresh: "fresh_draws s'" by (simp_all add: conc_good_def)
  have gi: "call_good C V s (cs ! i)" using good(2) run(1) by (simp add: list_all_length)
  note new = fs_step_good [OF run(3) gi good(1)]
  have "list_all (call_good C V s') (cs[i := c])"
    unfolding list_all_length
  proof (intro allI impI)
    fix j assume j: "j < length (cs[i := c])"
    show "call_good C V s' (cs[i := c] ! j)"
    proof (cases "j = i")
      case True with new j show ?thesis by simp
    next
      case False
      have gj: "call_good C V s (cs ! j)" using good(2) j by (simp add: list_all_length)
      have "call_good C V s' (cs ! j)"
        by (rule call_good_touches [OF gj fs_step_touches [OF run(3)]])
           (rule step_spares [OF run(3,1) _ False good(3,4) fresh gi],
             use j call_good_tmp [OF gj] in auto)
      with False show ?thesis by simp
    qed
  qed
  with new step_tmps [OF run(3,1) good(3,4) fresh] show ?case by (simp add: conc_good_def)
next
  case (orphan i cs p tmp d e s)
  then have good: "disk_good C V s" "list_all (call_good C V s) cs" "tmps_apart cs" "tmps_drawn cs s"
    by (simp_all add: conc_good_def)
  have tmp: "tmp_of (cs[i := after_meta p tmp e] ! j) = tmp_of (cs ! j)" if "j < length cs" for j
    using that orphan(2) by (cases "j = i") simp_all
  have "call_good C V s (cs ! i)" using good(2) orphan(1) by (simp add: list_all_length)
  then have "call_good C V s (after_meta p tmp e)" using orphan(2) by simp
  with good tmp show ?case
    by (simp add: conc_good_def list_all_update tmps_apart_def tmps_drawn_def all_set_conv_all_nth)
qed

lemma fs_concs_draws: "fs_concs C x y \<Longrightarrow> draws (snd x) (snd y)"
  by (induction rule: rtranclp_induct) (auto dest: fs_conc_draws intro: draws_trans)

lemma fs_concs_good:
  assumes "fs_concs C x y" "conc_good C V x" "fresh_draws (snd y)"
  shows "conc_good C V y"
  using assms
proof (induction rule: rtranclp_induct)
  case (step y z)
  have "fresh_draws (snd y)" using fresh_draws_mono [OF step.prems(2) fs_conc_draws [OF step.hyps(2)]] .
  with step show ?case by (blast intro: fs_conc_good)
qed


section \<open>Left-over temporary files\<close>

text \<open>Every temporary file that was not there at the start belongs to a call in progress.\<close>

definition temps_owned :: "localfs \<Rightarrow> fs_call list \<times> localfs \<Rightarrow> bool" where
  "temps_owned s0 x \<longleftrightarrow> (\<forall>n. HasPrefix n ''.tmp-'' \<longrightarrow> map_of (files (snd x)) n \<noteq> None \<longrightarrow>
     map_of (files s0) n \<noteq> None \<or> (\<exists>c \<in> set (fst x). tmp_of c = Some n))"

text \<open>Paths that are not temporary files, for every call.\<close>

fun call_paths :: "codec \<Rightarrow> fs_call \<Rightarrow> bool" where
  "call_paths C (WriteCopy p tmp r mo) \<longleftrightarrow> p \<in> range (keyToPath C)"
| "call_paths C (WriteClose p tmp mo) \<longleftrightarrow> p \<in> range (keyToPath C)"
| "call_paths C (WriteRename p tmp mo) \<longleftrightarrow> p \<in> range (keyToPath C)"
| "call_paths C (WriteMeta p tmp mo) \<longleftrightarrow> p \<in> range (keyToPath C)"
| "call_paths C (WriteMetaData p tmp d e) \<longleftrightarrow> p \<in> range (keyToPath C)"
| "call_paths C (WriteUndo p tmp e) \<longleftrightarrow> p \<in> range (keyToPath C)"
| "call_paths C (DeleteMeta p) \<longleftrightarrow> p \<in> range (keyToPath C)"
| "call_paths C _ \<longleftrightarrow> True"

lemma call_paths_after_meta [simp]: "call_paths C (after_meta p tmp e) \<longleftrightarrow> (e \<noteq> None \<longrightarrow> p \<in> range (keyToPath C))"
  by (cases e) simp_all

lemma fs_step_paths: "fs_step C c s = (c', s') \<Longrightarrow> call_paths C c \<Longrightarrow> call_paths C c'"
  by (cases c) (auto split: prod.splits sum.splits option.splits bool.splits if_splits)

text \<open>Without faults the deferred removal succeeds.\<close>

lemma os_Remove_gone: "faults s = [] \<Longrightarrow> map_of (files (snd (os_Remove n s))) n = None"
  by (simp add: os_Remove_def Let_def split: option.split)

lemma fs_step_temps:
  assumes step: "fs_step C (cs ! i) s = (c', s')" and i: "i < length cs" and quiet: "faults s = []"
    and paths: "call_paths C (cs ! i)" and owned: "temps_owned s0 (cs, s)"
  shows "temps_owned s0 (cs[i := c'], s')"
  unfolding temps_owned_def fst_conv snd_conv
proof (intro allI impI)
  fix n assume n: "HasPrefix n ''.tmp-''" "map_of (files s') n \<noteq> None"
  note t = fs_step_touches [OF step]
  have neq: "n \<noteq> keyToPath C k" "n \<noteq> keyToPath C k @ ''.meta''" for k using temp_neq_path [OF n(1)] by simp_all
  have c': "c' \<in> set (cs[i := c'])" using i by (rule set_update_memI)
  show "map_of (files s0) n \<noteq> None \<or> (\<exists>c \<in> set (cs[i := c']). tmp_of c = Some n)"
  proof (cases "tmp_of c' = Some n")
    case True
    with c' show ?thesis by blast
  next
    case False
    have here: "tmp_of (cs ! i) \<noteq> Some n"
    proof
      assume "tmp_of (cs ! i) = Some n"
      with fs_step_tmp [OF step this] False obtain res where "cs ! i = WriteClean n res" by blast
      with step os_Remove_gone [OF quiet, of n] n(2) show False by auto
    qed
    have "n \<notin> foot C (cs ! i)" using here paths neq by (cases "cs ! i") auto
    then have "map_of (files s') n = map_of (files s) n"
      using t False unfolding touches_def by (auto simp: elem_set)
    with n have "map_of (files s) n \<noteq> None" by simp
    with owned n(1) consider "map_of (files s0) n \<noteq> None" | c where "c \<in> set cs" "tmp_of c = Some n"
      unfolding temps_owned_def by auto
    then show ?thesis
    proof cases
      case (2 c)
      then have "c \<noteq> cs ! i" using here by auto
      with 2 show ?thesis using in_set_update_other by metis
    qed simp
  qed
qed

lemma fs_conc_temps:
  assumes "fs_conc C x y" "faults (snd x) = []" "list_all (call_paths C) (fst x)" "temps_owned s0 x"
  shows "faults (snd y) = [] \<and> list_all (call_paths C) (fst y) \<and> temps_owned s0 y"
  using assms
proof (induction rule: fs_conc.induct)
  case (run i cs s c s')
  then have p: "call_paths C (cs ! i)" by (simp add: list_all_length)
  have "faults s' = []" using fs_step_touches [OF run(3)] run(4) by (simp add: touches_def)
  with run fs_step_temps [OF run(3,1) _ p] fs_step_paths [OF run(3) p] show ?case
    by (simp add: list_all_update)
next
  case (orphan i cs p tmp d e s)
  have "call_paths C (cs ! i)" using orphan(1,4) by (simp add: list_all_length)
  with orphan(2) have p: "call_paths C (after_meta p tmp e)" by (cases e) simp_all
  have "\<exists>c \<in> set (cs[i := after_meta p tmp e]). tmp_of c = Some n" if "c \<in> set cs" "tmp_of c = Some n" for c n
  proof (cases "c = cs ! i")
    case True
    with that orphan(2) set_update_memI [OF orphan(1)] show ?thesis by force
  next
    case False
    with that show ?thesis using in_set_update_other by metis
  qed
  with orphan p show ?case by (simp add: temps_owned_def list_all_update) meson
qed

lemma fs_concs_temps:
  assumes "fs_concs C x y" "faults (snd x) = []" "list_all (call_paths C) (fst x)" "temps_owned s0 x"
  shows "faults (snd y) = [] \<and> list_all (call_paths C) (fst y) \<and> temps_owned s0 y"
  using assms by (induction rule: rtranclp_induct) (auto dest: fs_conc_temps)


section \<open>A read between the two steps of a metadata write\<close>

lemma head_steps:
  assumes "\<not> fs_finished c" "fs_step C c s = (c', s')" "fs_concs C (c' # cs, s') y"
  shows "fs_concs C (c # cs, s) y"
proof -
  have "fs_conc C (c # cs, s) (c' # cs, s')" using fs_conc.run [of 0 "c # cs" C s c' s'] assms(1,2) by simp
  with assms(3) show ?thesis by (rule converse_rtranclp_into_rtranclp [rotated])
qed

lemma second_steps:
  assumes "\<not> fs_finished d" "fs_step C d s = (d', s')" "fs_concs C (c # d' # cs, s') y"
  shows "fs_concs C (c # d # cs, s) y"
proof -
  have "fs_conc C (c # d # cs, s) (c # d' # cs, s')"
    using fs_conc.run [of 1 "c # d # cs" C s d' s'] assms(1,2) by simp
  with assms(3) show ?thesis by (rule converse_rtranclp_into_rtranclp [rotated])
qed

lemma os_CreateTemp_reliable:
  assumes "lfs_reliable s"
  shows "os_CreateTemp s = (Inr (drawn s (rndpos s)), put_file (drawn s (rndpos s)) [] (s\<lparr>rndpos := Suc (rndpos s)\<rparr>))"
proof -
  have "drawn s (rndpos s) \<notin> set (map fst (files s)) \<union> set (subdirs s)"
    using assms unfolding lfs_reliable_def drawn_def by blast
  then have "map_of (files s) (drawn s (rndpos s)) = None" "drawn s (rndpos s) \<notin> set (subdirs s)"
    by (auto simp: map_of_eq_None_iff)
  then show ?thesis using assms try_temp_fresh [of s 10000]
    by (simp add: os_CreateTemp_def drawn_def)
qed

text \<open>A write up to the point where its metadata file is open: the content is there, the metadata empty.\<close>

lemma write_truncates:
  assumes rel: "lfs_reliable s" and enc: "metaMarshal C m = Some d" and body: "rd_err r = None"
  obtains t s4 where
    "\<And>cs y. fs_concs C (WriteMetaData (keyToPath C k) t d None # cs, s4) y \<Longrightarrow>
      fs_concs C (WriteStart k r (Some m) # cs, s) y"
    "HasPrefix t ''.tmp-''" "map_of (files s4) t = None" "faults s4 = []"
    "map_of (files s4) (keyToPath C k) = Some (rd_data r, osclock s)"
    "map_of (files s4) (keyToPath C k @ ''.meta'') = Some ([], osclock s)"
    "rnd s4 = rnd s" "rndpos s4 = Suc (rndpos s)"
proof -
  let ?p = "keyToPath C k" and ?t = "drawn s (rndpos s)"
  define s1 where "s1 = put_file ?t [] (s\<lparr>rndpos := Suc (rndpos s)\<rparr>)"
  define s2 where "s2 = put_file ?t (rd_data r) s1"
  define s3 where "s3 = s2\<lparr>files := AList.update ?p (rd_data r, osclock s) (AList.delete ?t (files s2))\<rparr>"
  define s4 where "s4 = put_file (?p @ ''.meta'') [] s3"
  note defs = s4_def s3_def s2_def s1_def
  have pre: "HasPrefix ?t ''.tmp-''" by (simp add: drawn_def)
  note neq = temp_neq_path [OF pre, of C k] meta_neq_path [of C k k]
  have q: "faults s1 = []" "faults s2 = []" "faults s3 = []" "faults s4 = []"
    and clk: "osclock s1 = osclock s" "osclock s3 = osclock s" using rel by (simp_all add: defs put_file_def)
  have t2: "map_of (files s2) ?t = Some (rd_data r, osclock s)" by (simp add: s2_def clk)
  have w1: "fs_step C (WriteStart k r (Some m)) s = (WriteCopy ?p ?t r (Some m), s1)"
    by (simp add: os_CreateTemp_reliable [OF rel] s1_def)
  have w2: "fs_step C (WriteCopy ?p ?t r (Some m)) s1 = (WriteClose ?p ?t (Some m), s2)"
    by (simp add: io_Copy_def q body s2_def)
  have w3: "fs_step C (WriteClose ?p ?t (Some m)) s2 = (WriteRename ?p ?t (Some m), s2)"
    by (simp add: os_Close_def q)
  have w4: "fs_step C (WriteRename ?p ?t (Some m)) s2 = (WriteMeta ?p ?t (Some m), s3)"
    by (simp add: os_Rename_def q t2 s3_def)
  have w5: "fs_step C (WriteMeta ?p ?t (Some m)) s3 = (WriteMetaData ?p ?t d None, s4)"
    by (simp add: enc open_meta_def q s4_def)
  show ?thesis
  proof (rule that [of ?t s4])
    show "fs_concs C (WriteStart k r (Some m) # cs, s) y"
      if "fs_concs C (WriteMetaData ?p ?t d None # cs, s4) y" for cs y
      by (rule head_steps [OF _ w1], simp, rule head_steps [OF _ w2], simp, rule head_steps [OF _ w3], simp,
          rule head_steps [OF _ w4], simp, rule head_steps [OF _ w5], simp, rule that)
    show "map_of (files s4) ?t = None" "map_of (files s4) ?p = Some (rd_data r, osclock s)"
      using neq by (simp_all add: s4_def s3_def)
    show "map_of (files s4) (?p @ ''.meta'') = Some ([], osclock s)" by (simp add: s4_def clk)
    show "rnd s4 = rnd s" "rndpos s4 = Suc (rndpos s)" by (simp_all add: defs put_file_def)
  qed (use pre q in simp_all)
qed

text \<open>What every reader of the key finds at that point.\<close>

lemma read_truncated:
  assumes "faults s = []" "map_of (files s) (keyToPath C k) = Some (b, u)"
    and "map_of (files s) (keyToPath C k @ ''.meta'') = Some ([], v)" "metaUnmarshal C [] = None"
  shows "fs_step C (ReadStart k) s = (ReadMeta k (bytes_reader b), s)"
    "fs_step C (ReadMeta k (bytes_reader b)) s = (ReadDone k (Inl SDecodeMeta), s)"
    "LocalFS_Read C k s = (Inl SDecodeMeta, s)"
proof -
  show r: "fs_step C (ReadStart k) s = (ReadMeta k (bytes_reader b), s)"
    by (simp add: os_Open_quiet [OF assms(1,2)])
  have m: "readMeta C (keyToPath C k) s = (Inl SDecodeMeta, s)"
    by (simp add: readMeta_def os_ReadFile_def assms)
  then show "fs_step C (ReadMeta k (bytes_reader b)) s = (ReadDone k (Inl SDecodeMeta), s)" by simp
  from m show "LocalFS_Read C k s = (Inl SDecodeMeta, s)"
    by (simp add: LocalFS_Read_def os_Open_quiet [OF assms(1,2)] Let_def)
qed

lemma truncated_meta_run:
  assumes rel: "lfs_reliable s" and enc: "metaMarshal C m = Some d" and dec: "metaUnmarshal C [] = None"
    and body: "rd_err r = None"
  obtains s' where
    "fs_concs C ([WriteStart k r (Some m), ReadStart k], s) ([WriteDone None, ReadDone k (Inl SDecodeMeta)], s')"
    "content C s' k = Some (rd_data r)" "map_option fst (map_of (files s') (keyToPath C k @ ''.meta'')) = Some d"
    "rnd s' = rnd s" "rndpos s' = Suc (rndpos s)"
proof (rule write_truncates [OF rel enc body, where k = k])
  let ?p = "keyToPath C k"
  fix t s4
  assume reach: "\<And>cs y. fs_concs C (WriteMetaData ?p t d None # cs, s4) y \<Longrightarrow> fs_concs C (WriteStart k r (Some m) # cs, s) y"
    and s4: "HasPrefix t ''.tmp-''" "map_of (files s4) t = None" "faults s4 = []"
      "map_of (files s4) ?p = Some (rd_data r, osclock s)" "map_of (files s4) (?p @ ''.meta'') = Some ([], osclock s)"
      "rnd s4 = rnd s" "rndpos s4 = Suc (rndpos s)"
  note neq = temp_neq_path [OF s4(1), of C k] meta_neq_path [of C k k]
  note rd = read_truncated [OF s4(3-5) dec]
  define s5 where "s5 = put_file (?p @ ''.meta'') d s4"
  have t5: "faults s5 = []" "map_of (files s5) t = None" using s4(2,3) neq by (simp_all add: s5_def)
  have w6: "fs_step C (WriteMetaData ?p t d None) s4 = (WriteClean t None, s5)" by (simp add: s5_def)
  have w7: "fs_step C (WriteClean t None) s5 = (WriteDone None, s5)" by (simp add: os_Remove_def t5)
  have "fs_concs C ([WriteStart k r (Some m), ReadStart k], s) ([WriteDone None, ReadDone k (Inl SDecodeMeta)], s5)"
    by (rule reach, rule second_steps [OF _ rd(1)], simp, rule second_steps [OF _ rd(2)], simp,
        rule head_steps [OF _ w6], simp, rule head_steps [OF _ w7], simp, rule rtranclp.rtrancl_refl)
  then show ?thesis
  proof (rule that)
    show "content C s5 k = Some (rd_data r)" using s4(4) neq by (simp add: content_def s5_def)
  qed (use s4(6,7) in \<open>simp_all add: s5_def put_file_def\<close>)
qed

text \<open>A codec that, as \<open>encoding/json\<close> does, rejects empty input.\<close>

definition ex_json :: codec where
  "ex_json = \<lparr>sha256 = (\<lambda>b. b), metaMarshal = (\<lambda>m. Some ''{}''),
     metaUnmarshal = (\<lambda>d. if d = [] then None else Some empty_Metadata)\<rparr>"

lemma ex_json_ok: "metaMarshal ex_json m = Some ''{}''" "metaUnmarshal ex_json [] = None" "metaUnmarshal ex_json ''{}'' \<noteq> None"
  by (simp_all add: ex_json_def)

lemma ex_json_run:
  obtains s where
    "fs_concs ex_json ([WriteStart ''k'' (bytes_reader ''v'') (Some empty_Metadata), ReadStart ''k''], ex_fs)
       ([WriteDone None, ReadDone ''k'' (Inl SDecodeMeta)], s)"
    "content ex_json s ''k'' = Some ''v''" "rnd s = rnd ex_fs" "rndpos s = 1"
proof -
  have body: "rd_err (bytes_reader ''v'') = None" by simp
  show ?thesis
    by (rule truncated_meta_run [OF ex_fs_ok(2) ex_json_ok(1,2) body]) (rule that, simp_all add: ex_fs_def)
qed


section \<open>Properties\<close>

fun fs_call_start :: "fs_call \<Rightarrow> bool" where
  "fs_call_start (WriteStart k r mo) = True"
| "fs_call_start (ReadStart k) = True"
| "fs_call_start (DeleteStart k) = True"
| "fs_call_start _ = False"

lemma start_no_tmp: "fs_call_start c \<Longrightarrow> tmp_of c = None \<and> call_paths C c"
  by (cases c) simp_all

text \<open>\<open>b\<close> is a complete body that one of the calls writes under the digest of \<open>k\<close>.\<close>

definition written :: "codec \<Rightarrow> fs_call list \<Rightarrow> string \<Rightarrow> bytes \<Rightarrow> bool" where
  "written C cs p b \<longleftrightarrow>
     (\<exists>k r mo. WriteStart k r mo \<in> set cs \<and> keyToPath C k = p \<and> rd_err r = None \<and> rd_data r = b)"

lemma conc_good_start:
  assumes "list_all fs_call_start cs"
  shows "conc_good C (\<lambda>p. {b. (\<exists>t. map_of (files s) p = Some (b, t)) \<or> written C cs p b}) (cs, s)"
proof -
  have "call_good C (\<lambda>p. {b. (\<exists>t. map_of (files s) p = Some (b, t)) \<or> written C cs p b}) s c"
    if "c \<in> set cs" for c
  proof (cases c rule: fs_call.exhaust)
    case (WriteStart k r mo)
    with that show ?thesis by (auto simp: written_def)
  qed (use that assms in \<open>auto simp: list_all_iff\<close>)
  moreover have "tmp_of c = None" if "c \<in> set cs" for c
    using that assms start_no_tmp by (auto simp: list_all_iff)
  ultimately show ?thesis
    by (auto simp: conc_good_def disk_good_def list_all_iff tmps_apart_def tmps_drawn_def)
qed

text \<open>
  C11: without any lock, and whatever I/O errors occur, the content of a key is never torn: at every
  moment of every interleaving of concurrent reads, writes and deletes it is absent, what was there
  at the start, or the complete body of one write of that key, and so is every body a read delivers
  without an error. The temporary names drawn in the run are assumed to be different.
\<close>

theorem concurrent_content_atomic:
  assumes "fs_concs C (cs0, s0) (cs, s)" "list_all fs_call_start cs0"
    and "inj_on (\<lambda>i. temp_name (rnd s i)) {..<rndpos s}"
  shows "(content C s k = Some b \<longrightarrow> content C s0 k = Some b \<or> written C cs0 (keyToPath C k) b) \<and>
    (ReadDone k (Inr (bytes_reader b, mo)) \<in> set cs \<longrightarrow>
       content C s0 k = Some b \<or> written C cs0 (keyToPath C k) b)"
proof -
  have "fresh_draws s" using assms(3) by (simp add: fresh_draws_def drawn_def [abs_def])
  with fs_concs_good [OF assms(1) conc_good_start [OF assms(2)]]
  have good: "conc_good C (\<lambda>p. {b. (\<exists>t. map_of (files s0) p = Some (b, t)) \<or> written C cs0 p b}) (cs, s)"
    by simp
  then show ?thesis
    by (fastforce simp: conc_good_def disk_good_def content_def list_all_iff)
qed

theorem concurrent_content_atomic_witness:
  "\<exists>s. fs_concs ex_json ([WriteStart ''k'' (bytes_reader ''v'') (Some empty_Metadata), ReadStart ''k''], ex_fs)
      ([WriteDone None, ReadDone ''k'' (Inl SDecodeMeta)], s) \<and> content ex_json s ''k'' = Some ''v'' \<and>
    written ex_json [WriteStart ''k'' (bytes_reader ''v'') (Some empty_Metadata), ReadStart ''k'']
      (keyToPath ex_json ''k'') ''v''"
proof (rule ex_json_run)
  fix s
  assume run: "fs_concs ex_json ([WriteStart ''k'' (bytes_reader ''v'') (Some empty_Metadata), ReadStart ''k''], ex_fs)
      ([WriteDone None, ReadDone ''k'' (Inl SDecodeMeta)], s)"
    and v: "content ex_json s ''k'' = Some ''v''" and pos: "rndpos s = 1"
  have inj: "inj_on (\<lambda>i. temp_name (rnd s i)) {..<rndpos s}" by (simp add: pos inj_on_def)
  have "content ex_json ex_fs ''k'' = None" by (simp add: content_def ex_fs_def)
  with concurrent_content_atomic [OF run _ inj] v
  have "written ex_json [WriteStart ''k'' (bytes_reader ''v'') (Some empty_Metadata), ReadStart ''k'']
      (keyToPath ex_json ''k'') ''v''" by fastforce
  with run v show ?thesis by blast
qed

text \<open>
  C21: when all concurrent calls have returned, no temporary file is left that was not there before,
  also where the body could not be read or the metadata not be encoded, as long as the file
  system itself reports no error.
\<close>

theorem writers_leave_no_temps:
  assumes "fs_concs C (cs0, s0) (cs, s)" "list_all fs_call_start cs0" "faults s0 = []"
    and "list_all fs_finished cs" "HasPrefix n ''.tmp-''" "map_of (files s0) n = None"
  shows "map_of (files s) n = None"
proof -
  have "list_all (call_paths C) cs0" using assms(2) start_no_tmp by (auto simp: list_all_iff)
  then have "temps_owned s0 (cs, s)"
    using fs_concs_temps [OF assms(1), of s0] assms(3) by (simp add: temps_owned_def)
  moreover have none: "\<forall>c \<in> set cs. tmp_of c = None"
  proof
    fix c assume "c \<in> set cs"
    with assms(4) have "fs_finished c" by (simp add: list_all_iff)
    then show "tmp_of c = None" by (cases c) simp_all
  qed
  ultimately show ?thesis
    using assms(5,6) unfolding temps_owned_def fst_conv snd_conv by (metis option.distinct(1))
qed

theorem writers_leave_no_temps_witness:
  "\<exists>s. fs_concs ex_json ([WriteStart ''k'' (bytes_reader ''v'') (Some empty_Metadata), ReadStart ''k''], ex_fs)
      ([WriteDone None, ReadDone ''k'' (Inl SDecodeMeta)], s) \<and> map_of (files s) ''.tmp-0'' = None"
proof (rule ex_json_run)
  fix s
  assume run: "fs_concs ex_json ([WriteStart ''k'' (bytes_reader ''v'') (Some empty_Metadata), ReadStart ''k''], ex_fs)
      ([WriteDone None, ReadDone ''k'' (Inl SDecodeMeta)], s)"
  have "map_of (files s) ''.tmp-0'' = None"
    by (rule writers_leave_no_temps [OF run]) (simp_all add: ex_fs_def HasPrefix_def)
  with run show ?thesis by blast
qed

text \<open>
  C20: a read that overlaps a successful write of its key can fail: between truncation and writing
  the metadata file is empty, and \<open>json.Unmarshal\<close> rejects that. No I/O error is involved, the
  content was complete all the time, and whether the key could be read before does not matter.
\<close>

theorem read_fails_during_write:
  assumes "lfs_reliable s" "metaMarshal C m = Some d" "metaUnmarshal C d \<noteq> None" "metaUnmarshal C [] = None"
    and "rd_err r = None"
  shows "\<exists>s'. fs_concs C ([WriteStart k r (Some m), ReadStart k], s)
      ([WriteDone None, ReadDone k (Inl SDecodeMeta)], s') \<and> lfs_lookup C s' k = Some (rd_data r)"
proof (rule truncated_meta_run [OF assms(1,2,4,5)])
  fix s'
  assume "fs_concs C ([WriteStart k r (Some m), ReadStart k], s) ([WriteDone None, ReadDone k (Inl SDecodeMeta)], s')"
    and c: "content C s' k = Some (rd_data r)" "map_option fst (map_of (files s') (keyToPath C k @ ''.meta'')) = Some d"
  moreover have "lfs_lookup C s' k = Some (rd_data r)"
    using c assms(3) by (auto simp: content_def lfs_lookup_def split: option.splits)
  ultimately show ?thesis by blast
qed

theorem read_fails_during_write_witness:
  "\<exists>s'. fs_concs ex_json ([WriteStart ''k'' (bytes_reader ''v'') (Some empty_Metadata), ReadStart ''k''], ex_fs)
      ([WriteDone None, ReadDone ''k'' (Inl SDecodeMeta)], s') \<and> lfs_lookup ex_json s' ''k'' = Some ''v''"
  using read_fails_during_write [OF ex_fs_ok(2) ex_json_ok(1,3,2), of "bytes_reader ''v''" "''k''" empty_Metadata] by simp

text \<open>
  \<open>n\<close> concurrent calls of the backend make at most \<open>8 * n\<close> system calls, and none is stuck before all
  have returned.
\<close>

lemma fs_todo_max: "fs_todo c \<le> 8"
  by (cases c) simp_all

lemma fs_calls_return:
  assumes "(fs_conc C ^^ n) x y"
  shows "n \<le> 8 * length (fst x) \<and> ((\<nexists>z. fs_conc C y z) \<longleftrightarrow> list_all fs_finished (fst y))"
proof -
  have "n + sum_list (map fs_todo (fst y)) \<le> sum_list (map fs_todo (fst x))"
    by (rule relpow_measure [where f = "\<lambda>x. sum_list (map fs_todo (fst x))", OF fs_conc_todo assms])
  also have "\<dots> \<le> 8 * length (fst x)"
    using sum_list_mono [of "fst x" fs_todo "\<lambda>_. 8"] fs_todo_max by (simp add: sum_list_triv)
  finally show ?thesis using fs_conc_stuck by simp
qed

end
