(* ===== verification/Stampede.thy ===== *)
theory Stampede
  imports Singleflight
begin

text \<open>
  Concurrent callers of \<open>GetOrFetch\<close> (\<open>cache/singleflight.go\<close>). A caller looks in the cache, and on
  a miss enters the group: it either leads, and runs the closure, or waits for the caller that
  leads and gets the same result. The steps of the closure (second look, fetch, store) of
  different callers interleave; a call of the cache is one step here.

  \<open>singleflight.Group\<close> is the parameter \<open>group_ops\<close> over its own state \<open>'g\<close>: \<open>gEnter\<close> says whether
  the caller leads, \<open>gLeave\<close> ends the call in flight. \<open>group_contract\<close> is the documented behaviour
  of \<open>Do\<close>: one execution in flight for a key at a time, duplicates wait. \<open>hFetched\<close> records the
  keys for which a fetch was made.
\<close>

section \<open>The group\<close>

record 'g group_ops =
  gEnter :: "string \<Rightarrow> 'g \<Rightarrow> bool \<times> 'g"
  gLeave :: "string \<Rightarrow> 'g \<Rightarrow> 'g"

definition group_contract :: "'g group_ops \<Rightarrow> ('g \<Rightarrow> string set) \<Rightarrow> bool" where
  "group_contract D flying \<longleftrightarrow> (\<forall>k g.
     fst (gEnter D k g) = (k \<notin> flying g) \<and>
     flying (snd (gEnter D k g)) = insert k (flying g) \<and>
     flying (gLeave D k g) = flying g - {k})"

lemma group_contractD:
  assumes "group_contract D flying" "gEnter D k g = (lead, g')"
  shows "lead \<longleftrightarrow> k \<notin> flying g" "flying g' = insert k (flying g)"
  using assms unfolding group_contract_def by (metis fst_conv, metis snd_conv)

lemma group_leave: "group_contract D flying \<Longrightarrow> flying (gLeave D k g) = flying g - {k}"
  unfolding group_contract_def by blast


section \<open>Callers\<close>

datatype 'e caller =
    Lookup string
  | Enter string                                   \<comment> \<open>missed, about to call \<open>Do\<close>\<close>
  | Waiting string                                 \<comment> \<open>another caller leads\<close>
  | Recheck string                                 \<comment> \<open>leads: the second look\<close>
  | Fetching string                                \<comment> \<open>leads: missed again\<close>
  | Storing string bytes Meta                      \<comment> \<open>leads: has buffered the body\<close>
  | Leaving string "'e sf_err + bytes \<times> Meta"      \<comment> \<open>leads: the closure has returned\<close>
  | Finished string "'e sf_err + reader \<times> Meta"

record ('s, 'e, 'w, 'g) herd =
  hCache :: "LRUCache \<times> 's"
  hWorld :: 'w
  hGroup :: 'g
  hFetched :: "string list"
  hCallers :: "'e caller list"

fun runnable :: "'e caller \<Rightarrow> bool" where
  "runnable (Waiting k) = False"
| "runnable (Finished k r) = False"
| "runnable _ = True"

text \<open>What the callers of \<open>Do\<close> make of its result: each its own reader over the body.\<close>

fun deliver :: "'e sf_err + bytes \<times> Meta \<Rightarrow> 'e sf_err + reader \<times> Meta" where
  "deliver (Inl e) = Inl e"
| "deliver (Inr (body, meta)) = Inr (bytes_reader body, meta)"

fun wake :: "string \<Rightarrow> 'e sf_err + bytes \<times> Meta \<Rightarrow> 'e caller \<Rightarrow> 'e caller" where
  "wake k res (Waiting k') = (if k' = k then Finished k (deliver res) else Waiting k')"
| "wake k res p = p"

text \<open>The next step of caller \<open>i\<close>, whose closure is \<open>fetch\<close>.\<close>

definition caller_step ::
  "'s storage_ops \<Rightarrow> fmt \<Rightarrow> 'g group_ops \<Rightarrow> ('e, 'w) fetch \<Rightarrow> time \<Rightarrow> nat \<Rightarrow>
   ('s, 'e, 'w, 'g) herd \<Rightarrow> ('s, 'e, 'w, 'g) herd" where
  "caller_step S F D fetch now i x =
     (case hCallers x ! i of
        Lookup k \<Rightarrow>
          (case LRUCache_Get S now k (hCache x) of
             (Inr (rc, meta), cs) \<Rightarrow>
               x\<lparr>hCache := cs, hCallers := (hCallers x)[i := Finished k (Inr (rc, meta))]\<rparr>
           | (Inl _, cs) \<Rightarrow> x\<lparr>hCache := cs, hCallers := (hCallers x)[i := Enter k]\<rparr>)
      | Enter k \<Rightarrow>
          (let (lead, g) = gEnter D k (hGroup x)
           in x\<lparr>hGroup := g, hCallers := (hCallers x)[i := (if lead then Recheck k else Waiting k)]\<rparr>)
      | Recheck k \<Rightarrow>
          (case LRUCache_Get S now k (hCache x) of
             (Inr (rc, meta), cs) \<Rightarrow>
               x\<lparr>hCache := cs, hCallers := (hCallers x)[i := Leaving k
                   (case ReadAll rc of Inl e \<Rightarrow> Inl (SFRead e) | Inr body \<Rightarrow> Inr (body, meta))]\<rparr>
           | (Inl _, cs) \<Rightarrow> x\<lparr>hCache := cs, hCallers := (hCallers x)[i := Fetching k]\<rparr>)
      | Fetching k \<Rightarrow>
          (case fetch (hWorld x) of
             (res, w) \<Rightarrow>
               x\<lparr>hWorld := w, hFetched := hFetched x @ [k], hCallers := (hCallers x)[i :=
                   (case res of
                      Inl e \<Rightarrow> Leaving k (Inl (SFFetch e))
                    | Inr (r, meta) \<Rightarrow>
                        (case ReadAll r of
                           Inl e \<Rightarrow> Leaving k (Inl (SFRead e))
                         | Inr body \<Rightarrow> Storing k body meta))]\<rparr>)
      | Storing k body meta \<Rightarrow>
          x\<lparr>hCache := snd (LRUCache_Set S F k (bytes_reader body) meta (hCache x)),
            hCallers := (hCallers x)[i := Leaving k (Inr (body, meta))]\<rparr>
      | Leaving k res \<Rightarrow>
          x\<lparr>hGroup := gLeave D k (hGroup x),
            hCallers := map (wake k res) ((hCallers x)[i := Finished k (deliver res)])\<rparr>
      | Waiting k \<Rightarrow> x
      | Finished k r \<Rightarrow> x)"

text \<open>Any caller that can run may run next. \<open>T\<close> bounds the clock over the whole run.\<close>

inductive herd_step ::
  "'s storage_ops \<Rightarrow> fmt \<Rightarrow> 'g group_ops \<Rightarrow> (nat \<Rightarrow> ('e, 'w) fetch) \<Rightarrow> time \<Rightarrow>
   ('s, 'e, 'w, 'g) herd \<Rightarrow> ('s, 'e, 'w, 'g) herd \<Rightarrow> bool"
  for S F D fetch T where
  go: "i < length (hCallers x) \<Longrightarrow> runnable (hCallers x ! i) \<Longrightarrow> now \<le> T \<Longrightarrow>
     herd_step S F D fetch T x (caller_step S F D (fetch i) now i x)"

definition herd ::  "LRUCache \<times> 's \<Rightarrow> 'w \<Rightarrow> 'g \<Rightarrow> string \<Rightarrow> nat \<Rightarrow> ('s, 'e, 'w, 'g) herd" where
  "herd cs w g k n = \<lparr>hCache = cs, hWorld = w, hGroup = g, hFetched = [], hCallers = replicate n (Lookup k)\<rparr>"


section \<open>Termination\<close>

fun left :: "'e caller \<Rightarrow> nat" where
  "left (Lookup k) = 6"
| "left (Enter k) = 5"
| "left (Recheck k) = 4"
| "left (Fetching k) = 3"
| "left (Storing k b m) = 2"
| "left (Leaving k r) = 1"
| "left _ = 0"

lemma left_wake [simp]: "left (wake k res p) = left p"
  by (cases p) simp_all

lemma map_left_wake [simp]: "map (left \<circ> wake k res) ps = map left ps"
  by simp

definition herd_left :: "('s, 'e, 'w, 'g) herd \<Rightarrow> nat" where
  "herd_left x = sum_list (map left (hCallers x))"

lemma herd_left_start: "herd_left (herd cs w g k n) = 6 * n"
  by (simp add: herd_left_def herd_def sum_list_replicate)

lemma caller_step_left:
  assumes "i < length (hCallers x)" "runnable (hCallers x ! i)"
  shows "herd_left (caller_step S F D f now i x) < herd_left x"
proof -
  have less: "y < left (hCallers x ! i) \<Longrightarrow> sum_list ((map left (hCallers x))[i := y]) < sum_list (map left (hCallers x))" for y
    using assms(1) by (intro sum_list_update_less) simp_all
  show ?thesis
    using assms(2) less
    by (cases "hCallers x ! i")
       (auto simp: caller_step_def herd_left_def map_update Let_def split: prod.split sum.split)
qed

lemma herd_step_left: "herd_step S F D fetch T x y \<Longrightarrow> herd_left y < herd_left x"
  by (induction rule: herd_step.induct) (rule caller_step_left)

lemma herd_relpow_left: "(herd_step S F D fetch T ^^ n) x y \<Longrightarrow> n + herd_left y \<le> herd_left x"
  by (rule relpow_measure [OF herd_step_left])


section \<open>One leader, one fetch\<close>

fun leading :: "'e caller \<Rightarrow> bool" where
  "leading (Recheck k) = True"
| "leading (Fetching k) = True"
| "leading (Storing k b m) = True"
| "leading (Leaving k r) = True"
| "leading _ = False"

lemma leading_wake [simp]: "leading (wake k res p) = leading p"
  by (cases p) simp_all

lemma filter_leading_wake [simp]: "length (filter leading (map (wake k res) ps)) = length (filter leading ps)"
  by (induction ps) simp_all

text \<open>The key is in flight exactly while one caller leads, and nobody waits for a key that is not.\<close>

definition balanced :: "('g \<Rightarrow> string set) \<Rightarrow> string \<Rightarrow> 'g \<Rightarrow> 'e caller list \<Rightarrow> bool" where
  "balanced flying k g ps \<longleftrightarrow> length (filter leading ps) = (if k \<in> flying g then 1 else 0) \<and>
     (Waiting k \<in> set ps \<longrightarrow> k \<in> flying g)"

lemma balanced_update:
  assumes "balanced flying k g ps" "i < length ps" "leading q = leading (ps ! i)" "q \<noteq> Waiting k"
  shows "balanced flying k g (ps[i := q])"
  using assms length_filter_update [OF assms(2), of leading q] set_update_subset_insert [of ps i q]
  by (auto simp: balanced_def)

lemma balanced_enter:
  assumes "balanced flying k g ps" "i < length ps" "ps ! i = Enter k"
    and "group_contract D flying" "gEnter D k g = (lead, g')"
  shows "balanced flying k g' (ps[i := (if lead then Recheck k else Waiting k)])"
    "lead \<Longrightarrow> filter leading ps = []"
  using assms(1-3) group_contractD [OF assms(4,5)] length_filter_update [OF assms(2), of leading]
  by (auto simp: balanced_def)

lemma balanced_leave:
  assumes "balanced flying k g ps" "i < length ps" "ps ! i = Leaving k res" "group_contract D flying"
  shows "balanced flying k (gLeave D k g) (map (wake k res) (ps[i := Finished k (deliver res)]))"
proof -
  have w: "wake k res p \<noteq> Waiting k" for p by (cases p) auto
  have "length (filter leading (ps[i := Finished k (deliver res)])) + 1 = length (filter leading ps)"
    using length_filter_update [OF assms(2), of leading "Finished k (deliver res)"] assms(3) by simp
  moreover have "length (filter leading ps) \<le> 1" using assms(1) by (simp add: balanced_def)
  ultimately have "length (filter leading (map (wake k res) (ps[i := Finished k (deliver res)]))) = 0"
    unfolding filter_leading_wake by linarith
  moreover have "Waiting k \<notin> set (map (wake k res) (ps[i := Finished k (deliver res)]))"
    unfolding set_map using w by (metis imageE)
  ultimately show ?thesis by (simp only: balanced_def group_leave [OF assms(4)]) simp
qed

lemma balanced_unique:
  assumes "balanced flying k g ps" "i < length ps" "leading (ps ! i)" "p \<in> set (ps[i := q])"
  shows "p = q \<or> p \<in> set ps \<and> \<not> leading p"
  using assms(1) by (intro filter_update_unique [where P = leading, OF _ assms(2-4)]) (simp add: balanced_def)

text \<open>Every fetch delivers a complete body and metadata that stay fresh until \<open>T\<close>.\<close>

definition delivers :: "(Metadata \<Rightarrow> bool) \<Rightarrow> fmt \<Rightarrow> string \<Rightarrow> time \<Rightarrow> (nat \<Rightarrow> ('e, 'w) fetch) \<Rightarrow> bool" where
  "delivers ok F k T fetch \<longleftrightarrow> (\<forall>i w. \<exists>b m w'. fetch i w = (Inr (bytes_reader b, m), w') \<and>
     mKey m = k \<and> T \<le> ExpiresAt m \<and> ok (metaToStorageMeta F m))"

context storage_contract
begin

lemma coherent_single: "coherent {k} G cs \<Longrightarrow> G' k = G k \<Longrightarrow> coherent {k} G' cs"
  unfolding coherent_def by fastforce

definition stored :: "string \<Rightarrow> bytes \<Rightarrow> Meta \<Rightarrow> LRUCache \<times> 's \<Rightarrow> bool" where
  "stored k b m cs \<longleftrightarrow> coherent {k} [k \<mapsto> (b, m)] cs \<and> items (fst cs) k \<noteq> None"

lemma stored_hit:
  assumes "stored k b m cs" "now \<le> T" "T \<le> ExpiresAt m"
  shows "\<exists>cs'. LRUCache_Get S now k cs = (Inr (bytes_reader b, m), cs') \<and> stored k b m cs'"
proof -
  obtain c st e where cs: "cs = (c, st)" and e: "items c k = Some e"
    using assms(1) by (cases cs) (auto simp: stored_def)
  have coh: "coherent {k} [k \<mapsto> (b, m)] (c, st)" using assms(1) by (simp add: cs stored_def)
  then have m: "vals c e = m" using e by (force simp: coherent_def)
  have "\<not> After now (ExpiresAt (vals c e))" using assms(2,3) by (simp add: After_def m)
  from coherent_hit [OF coh e this] m
  have "LRUCache_Get S now k (c, st) = (Inr (bytes_reader b, m), c\<lparr>lru := MoveToFront e (lru c)\<rparr>, snd (stRead S k st))"
    by auto
  with coherent_Get [OF coh, of now k] e show ?thesis by (simp add: cs stored_def)
qed

lemma stored_expired:
  assumes "stored k b m cs" "ExpiresAt m < now"
  shows "\<exists>cs'. LRUCache_Get S now k cs = (Inl (CacheExpired k), cs')"
proof -
  obtain c st e where cs: "cs = (c, st)" and e: "items c k = Some e"
    using assms(1) by (cases cs) (auto simp: stored_def)
  have "vals c e = m" using assms(1) e by (force simp: stored_def cs coherent_def)
  with e assms(2) show ?thesis by (simp add: cs LRUCache_Get_def After_def)
qed

definition cold :: "string \<Rightarrow> LRUCache \<times> 's \<Rightarrow> bool" where
  "cold k cs \<longleftrightarrow> (\<exists>G. coherent {k} G cs) \<and> 0 < maxItems (fst cs) \<and> items (fst cs) k = None"

lemma cold_miss: "cold k cs \<Longrightarrow> LRUCache_Get S now k cs = (Inl (CacheMiss k), cs)"
  by (cases cs) (simp add: cold_def Get_absent)

lemma Set_stored:
  assumes "cold k cs" "mKey m = k" "ok_meta (metaToStorageMeta F m)"
  shows "stored k b m (snd (LRUCache_Set S F k (bytes_reader b) m cs))"
proof -
  obtain c st where cs: "cs = (c, st)" by (cases cs)
  obtain G where coh0: "coherent {k} G (c, st)" and pos: "0 < maxItems c"
    using assms(1) by (auto simp: cold_def cs)
  let ?res = "LRUCache_Set S F k (bytes_reader b) m (c, st)"
  have inv: "lru_inv c" and st: "inv st" "reliable st" using coh0 by (simp_all add: coherent_def)
  have "coherent {k} (G(k \<mapsto> (b, m))) (snd ?res)"
    using coherent_Set [OF coh0 _ assms(2,3), of b] by (simp add: separate_def)
  then have coh: "coherent {k} [k \<mapsto> (b, m)] (snd ?res)" by (rule coherent_single) simp
  have "fst (stWrite S k (bytes_reader b) (Some (metaToStorageMeta F m)) st) = None"
    by (rule write_complete [OF st assms(3)]) simp
  with Set_refines_spec [OF inv assms(2), of S F "bytes_reader b" st]
  have "cache_view (fst (snd ?res)) = spec_put (nat (maxItems c)) m (cache_view c)"
    by (cases ?res) (simp add: spec_Set_def)
  then have "spec_lookup k (cache_view (fst (snd ?res))) \<noteq> None"
    using pos assms(2) by (cases "nat (maxItems c)") (simp_all add: spec_put_def spec_lookup_def)
  moreover have "lru_wf (fst (snd ?res))" using coh by (simp add: coherent_def lru_inv_def)
  ultimately show ?thesis using coh by (simp add: stored_def spec_lookup_view cs)
qed

text \<open>The three phases: nobody has fetched, the leader has the body, the body is stored.\<close>

definition before_ok :: "('g \<Rightarrow> string set) \<Rightarrow> string \<Rightarrow> ('s, 'e, 'w, 'g) herd \<Rightarrow> bool" where
  "before_ok flying k x \<longleftrightarrow> balanced flying k (hGroup x) (hCallers x) \<and> cold k (hCache x) \<and> hFetched x = [] \<and>
     set (hCallers x) \<subseteq> {Lookup k, Enter k, Waiting k, Recheck k, Fetching k}"

definition storing_ok ::
  "fmt \<Rightarrow> ('g \<Rightarrow> string set) \<Rightarrow> string \<Rightarrow> time \<Rightarrow> bytes \<Rightarrow> Meta \<Rightarrow> ('s, 'e, 'w, 'g) herd \<Rightarrow> bool" where
  "storing_ok F flying k T b m x \<longleftrightarrow> balanced flying k (hGroup x) (hCallers x) \<and> hFetched x = [k] \<and>
     T \<le> ExpiresAt m \<and> cold k (hCache x) \<and> mKey m = k \<and> ok_meta (metaToStorageMeta F m) \<and>
     set (hCallers x) \<subseteq> {Lookup k, Enter k, Waiting k, Storing k b m} \<and> Storing k b m \<in> set (hCallers x)"

definition after_ok ::
  "('g \<Rightarrow> string set) \<Rightarrow> string \<Rightarrow> time \<Rightarrow> bytes \<Rightarrow> Meta \<Rightarrow> ('s, 'e, 'w, 'g) herd \<Rightarrow> bool" where
  "after_ok flying k T b m x \<longleftrightarrow> balanced flying k (hGroup x) (hCallers x) \<and> hFetched x = [k] \<and>
     T \<le> ExpiresAt m \<and> stored k b m (hCache x) \<and>
     set (hCallers x) \<subseteq> {Lookup k, Enter k, Waiting k, Recheck k, Leaving k (Inr (b, m)),
       Finished k (Inr (bytes_reader b, m))}"

definition herd_ok ::
  "fmt \<Rightarrow> ('g \<Rightarrow> string set) \<Rightarrow> string \<Rightarrow> time \<Rightarrow> ('s, 'e, 'w, 'g) herd \<Rightarrow> bool" where
  "herd_ok F flying k T x \<longleftrightarrow>
     before_ok flying k x \<or> (\<exists>b m. storing_ok F flying k T b m x \<or> after_ok flying k T b m x)"

lemmas herd_ok_defs = herd_ok_def before_ok_def storing_ok_def after_ok_def

lemma before_step:
  assumes D: "group_contract D flying" and fetch: "delivers ok_meta F k T fetch"
    and ok: "before_ok flying k x" and i: "i < length (hCallers x)" "runnable (hCallers x ! i)"
  shows "herd_ok F flying k T (caller_step S F D (fetch i) now i x)"
proof -
  let ?ps = "hCallers x" let ?p = "?ps ! i" let ?y = "caller_step S F D (fetch i) now i x"
  have bal: "balanced flying k (hGroup x) ?ps" and before: "cold k (hCache x)" "hFetched x = []"
      "set ?ps \<subseteq> {Lookup k, Enter k, Waiting k, Recheck k, Fetching k}"
    using ok by (simp_all add: before_ok_def)
  have upd: "set (?ps[i := q]) \<subseteq> insert q (set ?ps)" for q by (rule set_update_subset_insert)
  note same = balanced_update [OF bal i(1)]
  have miss: "LRUCache_Get S now k (hCache x) = (Inl (CacheMiss k), hCache x)" by (rule cold_miss [OF before(1)])
  from nth_mem [OF i(1)] before(3) i(2)
  consider "?p = Lookup k" | "?p = Enter k" | "?p = Recheck k" | "?p = Fetching k" by auto
  then show ?thesis
  proof cases
    case 1
    with before upd [of "Enter k"] same [of "Enter k"] show ?thesis
      by (simp add: caller_step_def miss herd_ok_def before_ok_def) blast
  next
    case 2
    obtain lead g' where g: "gEnter D k (hGroup x) = (lead, g')" by (cases "gEnter D k (hGroup x)")
    from balanced_enter(1) [OF bal i(1) 2 D g] before upd [of "if lead then Recheck k else Waiting k"]
    show ?thesis by (simp add: caller_step_def 2 g herd_ok_def before_ok_def split: if_splits) blast+
  next
    case 3
    with before upd [of "Fetching k"] same [of "Fetching k"] show ?thesis
      by (simp add: caller_step_def miss herd_ok_def before_ok_def) blast
  next
    case 4
    obtain b m w' where f: "fetch i (hWorld x) = (Inr (bytes_reader b, m), w')" "mKey m = k"
        "T \<le> ExpiresAt m" "ok_meta (metaToStorageMeta F m)"
      using fetch unfolding delivers_def by blast
    have y: "?y = x\<lparr>hWorld := w', hFetched := [k], hCallers := ?ps[i := Storing k b m]\<rparr>"
      by (simp add: caller_step_def 4 f(1) before(2))
    have "q \<in> {Lookup k, Enter k, Waiting k, Storing k b m}" if "q \<in> set (?ps[i := Storing k b m])" for q
      using balanced_unique [OF bal i(1) _ that] before(3) 4 by auto
    moreover have "Storing k b m \<in> set (?ps[i := Storing k b m])" by (rule set_update_memI [OF i(1)])
    ultimately have "storing_ok F flying k T b m ?y"
      unfolding storing_ok_def y using before(1) f(2-4) same [of "Storing k b m"] 4 by auto
    then show ?thesis unfolding herd_ok_def by blast
  qed
qed

lemma storing_step:
  assumes D: "group_contract D flying" and ok: "storing_ok F flying k T b m x"
    and i: "i < length (hCallers x)" "runnable (hCallers x ! i)"
  shows "herd_ok F flying k T (caller_step S F D f now i x)"
proof -
  let ?ps = "hCallers x" let ?p = "?ps ! i"
  have bal: "balanced flying k (hGroup x) ?ps" and storing: "hFetched x = [k]" "T \<le> ExpiresAt m"
      "cold k (hCache x)" "mKey m = k" "ok_meta (metaToStorageMeta F m)"
      "set ?ps \<subseteq> {Lookup k, Enter k, Waiting k, Storing k b m}" "Storing k b m \<in> set ?ps"
    using ok by (simp_all add: storing_ok_def)
  have upd: "set (?ps[i := q]) \<subseteq> insert q (set ?ps)" for q by (rule set_update_subset_insert)
  note same = balanced_update [OF bal i(1)]
  have miss: "LRUCache_Get S now k (hCache x) = (Inl (CacheMiss k), hCache x)" by (rule cold_miss [OF storing(3)])
  from nth_mem [OF i(1)] storing(6) i(2)
  consider "?p = Lookup k" | "?p = Enter k" | "?p = Storing k b m" by auto
  then show ?thesis
  proof cases
    case 1
    have "Storing k b m \<in> set (?ps[i := Enter k])"
      by (rule in_set_update_other [OF storing(7)]) (simp add: 1)
    with 1 storing upd [of "Enter k"] same [of "Enter k"] show ?thesis
      by (simp add: caller_step_def miss herd_ok_def storing_ok_def) blast
  next
    case 2
    obtain lead g' where g: "gEnter D k (hGroup x) = (lead, g')" by (cases "gEnter D k (hGroup x)")
    have "\<not> lead" using balanced_enter(2) [OF bal i(1) 2 D g] storing(7) by (fastforce simp: filter_empty_conv)
    moreover have "Storing k b m \<in> set (?ps[i := Waiting k])"
      by (rule in_set_update_other [OF storing(7)]) (simp add: 2)
    ultimately show ?thesis
      using balanced_enter(1) [OF bal i(1) 2 D g] storing upd [of "Waiting k"]
      by (simp add: caller_step_def 2 g herd_ok_def storing_ok_def) blast
  next
    case 3
    have "stored k b m (snd (LRUCache_Set S F k (bytes_reader b) m (hCache x)))"
      by (rule Set_stored [OF storing(3-5)])
    moreover have "q \<in> {Lookup k, Enter k, Waiting k, Leaving k (Inr (b, m))}"
      if "q \<in> set (?ps[i := Leaving k (Inr (b, m))])" for q
      using balanced_unique [OF bal i(1) _ that] storing(6) 3 by auto
    ultimately have "after_ok flying k T b m (caller_step S F D f now i x)"
      using storing(1,2) same [of "Leaving k (Inr (b, m))"] 3 by (auto simp: caller_step_def after_ok_def)
    then show ?thesis unfolding herd_ok_def by blast
  qed
qed

lemma after_step:
  assumes D: "group_contract D flying" and ok: "after_ok flying k T b m x"
    and i: "i < length (hCallers x)" "runnable (hCallers x ! i)" and now: "now \<le> T"
  shows "after_ok flying k T b m (caller_step S F D f now i x)"
proof -
  let ?ps = "hCallers x" let ?p = "?ps ! i" let ?fin = "Finished k (Inr (bytes_reader b, m))"
  have bal: "balanced flying k (hGroup x) ?ps" and after: "hFetched x = [k]" "T \<le> ExpiresAt m"
      "stored k b m (hCache x)" "set ?ps \<subseteq> {Lookup k, Enter k, Waiting k, Recheck k, Leaving k (Inr (b, m)), ?fin}"
    using ok by (simp_all add: after_ok_def)
  have upd: "set (?ps[i := q]) \<subseteq> insert q (set ?ps)" for q by (rule set_update_subset_insert)
  note same = balanced_update [OF bal i(1)]
  obtain cs' where hit: "LRUCache_Get S now k (hCache x) = (Inr (bytes_reader b, m), cs')" "stored k b m cs'"
    using stored_hit [OF after(3) now after(2)] by blast
  from nth_mem [OF i(1)] after(4) i(2)
  consider "?p = Lookup k" | "?p = Enter k" | "?p = Recheck k" | "?p = Leaving k (Inr (b, m))" by auto
  then show ?thesis
  proof cases
    case 1
    with after hit upd [of ?fin] same [of ?fin] show ?thesis by (simp add: caller_step_def after_ok_def) blast
  next
    case 2
    obtain lead g' where g: "gEnter D k (hGroup x) = (lead, g')" by (cases "gEnter D k (hGroup x)")
    from balanced_enter(1) [OF bal i(1) 2 D g] after upd [of "if lead then Recheck k else Waiting k"]
    show ?thesis by (simp add: caller_step_def 2 g after_ok_def split: if_splits) blast+
  next
    case 3
    with after hit upd [of "Leaving k (Inr (b, m))"] same [of "Leaving k (Inr (b, m))"]
    show ?thesis by (simp add: caller_step_def after_ok_def) blast
  next
    case 4
    have "wake k (Inr (b, m)) q \<in> {Lookup k, Enter k, Waiting k, Recheck k, Leaving k (Inr (b, m)), ?fin}"
      if "q \<in> set (?ps[i := ?fin])" for q
    proof -
      have "q \<in> {Lookup k, Enter k, Waiting k, Recheck k, Leaving k (Inr (b, m)), ?fin}"
        using that after(4) upd [of ?fin] by blast
      then show ?thesis by auto
    qed
    with after(1-3) balanced_leave [OF bal i(1) 4 D] show ?thesis
      by (auto simp: caller_step_def 4 after_ok_def)
  qed
qed

lemma herd_ok_step:
  assumes "group_contract D flying" "delivers ok_meta F k T fetch" "herd_ok F flying k T x"
    and "i < length (hCallers x)" "runnable (hCallers x ! i)" "now \<le> T"
  shows "herd_ok F flying k T (caller_step S F D (fetch i) now i x)"
  using assms(3) unfolding herd_ok_def [of F flying k T x]
proof (elim disjE exE)
  show "before_ok flying k x \<Longrightarrow> ?thesis" by (rule before_step [OF assms(1,2) _ assms(4,5)])
  show "storing_ok F flying k T b m x \<Longrightarrow> ?thesis" for b m by (rule storing_step [OF assms(1) _ assms(4,5)])
  show "after_ok flying k T b m x \<Longrightarrow> ?thesis" for b m
    using after_step [OF assms(1) _ assms(4-6)] unfolding herd_ok_def by blast
qed

lemma herd_ok_steps:
  assumes "(herd_step S F D fetch T)\<^sup>*\<^sup>* x y" "herd_ok F flying k T x"
    and "group_contract D flying" "delivers ok_meta F k T fetch"
  shows "herd_ok F flying k T y"
  using assms(1,2)
proof (induction rule: rtranclp_induct)
  case (step y z)
  from step.hyps(2) herd_ok_step [OF assms(3,4) step.IH [OF step.prems]] show ?case
    by (auto elim: herd_step.cases)
qed simp

lemma herd_ok_start:
  assumes "cold k cs" "k \<notin> flying g"
  shows "herd_ok F flying k T (herd cs w g k n)"
  using assms by (auto simp: herd_ok_defs herd_def balanced_def)

text \<open>When nobody can run, everybody has the one body.\<close>

lemma herd_ok_end:
  assumes "herd_ok F flying k T x" "\<forall>p \<in> set (hCallers x). \<not> runnable p" "hCallers x \<noteq> []"
  shows "\<exists>b m. hFetched x = [k] \<and> (\<forall>p \<in> set (hCallers x). p = Finished k (Inr (bytes_reader b, m)))"
proof -
  have "filter leading (hCallers x) = []"
    using assms(2) by (auto simp: filter_empty_conv elim!: leading.elims)
  then have w: "Waiting k \<notin> set (hCallers x)"
    using assms(1) by (auto simp: herd_ok_defs balanced_def split: if_splits)
  obtain p where p: "p \<in> set (hCallers x)" using assms(3) by (cases "hCallers x") auto
  show ?thesis
    using assms(1) unfolding herd_ok_defs
  proof (elim conjE disjE exE)
    assume "set (hCallers x) \<subseteq> {Lookup k, Enter k, Waiting k, Recheck k, Fetching k}"
    with p w have "runnable p" by auto
    with p assms(2) show ?thesis by blast
  next
    fix b m assume "Storing k b m \<in> set (hCallers x)"
    with assms(2) show ?thesis by auto
  next
    fix b m
    assume "hFetched x = [k]" "set (hCallers x) \<subseteq> {Lookup k, Enter k, Waiting k, Recheck k,
      Leaving k (Inr (b, m)), Finished k (Inr (bytes_reader b, m))}"
    moreover from this(2) w assms(2) have "p = Finished k (Inr (bytes_reader b, m))"
      if "p \<in> set (hCallers x)" for p
      using that by (cases p rule: caller.exhaust) fastforce+
    ultimately show ?thesis by blast
  qed
qed

end

lemma herd_stuck:
  "(\<nexists>y. herd_step S F D fetch T x y) \<longleftrightarrow> (\<forall>p \<in> set (hCallers x). \<not> runnable p)"
proof
  assume "\<nexists>y. herd_step S F D fetch T x y"
  then show "\<forall>p \<in> set (hCallers x). \<not> runnable p"
    by (metis herd_step.go in_set_conv_nth order_refl)
qed (metis herd_step.cases nth_mem)

lemma herd_can_step: "(\<exists>y. herd_step S F D fetch T x y) \<longleftrightarrow> (\<exists>p \<in> set (hCallers x). runnable p)"
  using herd_stuck by blast

lemma caller_step_length [simp]: "length (hCallers (caller_step S F D f now i x)) = length (hCallers x)"
  by (auto simp: caller_step_def Let_def split: caller.split prod.split sum.split)

lemma herd_steps_length: "(herd_step S F D fetch T)\<^sup>*\<^sup>* x y \<Longrightarrow> length (hCallers y) = length (hCallers x)"
  by (induction rule: rtranclp_induct) (auto elim: herd_step.cases)


text \<open>The balance of leaders and waiting callers, whatever cache and fetch do.\<close>

fun caller_key :: "'e caller \<Rightarrow> string" where
  "caller_key (Lookup k) = k"
| "caller_key (Enter k) = k"
| "caller_key (Waiting k) = k"
| "caller_key (Recheck k) = k"
| "caller_key (Fetching k) = k"
| "caller_key (Storing k b m) = k"
| "caller_key (Leaving k r) = k"
| "caller_key (Finished k r) = k"

definition group_ok :: "('g \<Rightarrow> string set) \<Rightarrow> string \<Rightarrow> ('s, 'e, 'w, 'g) herd \<Rightarrow> bool" where
  "group_ok flying k x \<longleftrightarrow> balanced flying k (hGroup x) (hCallers x) \<and>
     list_all (\<lambda>p. caller_key p = k) (hCallers x)"

lemma caller_key_wake [simp]: "caller_key (wake k res p) = caller_key p"
  by (cases p) simp_all

lemma group_ok_step:
  assumes ok: "group_ok flying k x" and i: "i < length (hCallers x)" "runnable (hCallers x ! i)"
    and D: "group_contract D flying"
  shows "group_ok flying k (caller_step S F D f now i x)"
proof -
  have bal: "balanced flying k (hGroup x) (hCallers x)" and keys: "list_all (\<lambda>p. caller_key p = k) (hCallers x)"
    using ok by (simp_all add: group_ok_def)
  note same = balanced_update [OF bal i(1)]
  have key: "caller_key (hCallers x ! i) = k" using keys i(1) by (simp add: list_all_length)
  have upd: "list_all (\<lambda>p. caller_key p = k) ((hCallers x)[i := q])" if "caller_key q = k" for q
    using keys that by (rule list_all_update)
  show ?thesis
  proof (cases "hCallers x ! i")
    case (Enter k')
    obtain lead g' where g: "gEnter D k (hGroup x) = (lead, g')" by (cases "gEnter D k (hGroup x)")
    from Enter key have "hCallers x ! i = Enter k" by simp
    from balanced_enter(1) [OF bal i(1) this D g] upd this show ?thesis
      by (simp add: group_ok_def caller_step_def g)
  next
    case (Leaving k' res)
    from Leaving key have "hCallers x ! i = Leaving k res" by simp
    from balanced_leave [OF bal i(1) this D] upd [of "Finished k (deliver res)"] this show ?thesis
      by (simp add: group_ok_def caller_step_def list.pred_map comp_def)
  qed (use i(2) key same upd in \<open>auto simp: group_ok_def caller_step_def split: prod.split sum.split\<close>)
qed

lemma group_ok_steps:
  assumes "(herd_step S F D fetch T)\<^sup>*\<^sup>* x y" "group_ok flying k x" "group_contract D flying"
  shows "group_ok flying k y"
  using assms(1,2)
proof (induction rule: rtranclp_induct)
  case (step y z)
  from step.hyps(2) group_ok_step [OF step.IH [OF step.prems] _ _ assms(3)] show ?case
    by (auto elim: herd_step.cases)
qed simp

lemma group_ok_start: "k \<notin> flying g \<Longrightarrow> group_ok flying k (herd cs w g k n)"
  by (auto simp: group_ok_def balanced_def herd_def list_all_iff)

lemma group_ok_end:
  assumes "group_ok flying k x"
  shows "(\<exists>p \<in> set (hCallers x). runnable p) \<or> (\<forall>p \<in> set (hCallers x). \<exists>k r. p = Finished k r)"
proof (rule disjCI)
  assume no: "\<not> (\<forall>p \<in> set (hCallers x). \<exists>k r. p = Finished k r)"
  then obtain p where p: "p \<in> set (hCallers x)" "\<forall>k r. p \<noteq> Finished k r" by blast
  show "\<exists>p \<in> set (hCallers x). runnable p"
  proof (cases "runnable p")
    case False
    then obtain k' where "p = Waiting k'" using p(2) by (cases p) auto
    moreover have "caller_key p = k" using assms p(1) by (auto simp: group_ok_def list_all_iff)
    ultimately have "Waiting k \<in> set (hCallers x)" using p(1) by simp
    then have "filter leading (hCallers x) \<noteq> []" using assms by (auto simp: group_ok_def balanced_def)
    then obtain q where "q \<in> set (hCallers x)" "leading q" by (auto simp: filter_empty_conv)
    moreover from this(2) have "runnable q" by (cases q) auto
    ultimately show ?thesis by blast
  qed (use p(1) in blast)
qed


section \<open>A caller that is alone\<close>

text \<open>Its steps amount to \<open>GetOrFetch\<close> with a \<open>Do\<close> that runs the closure.\<close>

fun caller_run ::
  "'s storage_ops \<Rightarrow> fmt \<Rightarrow> 'g group_ops \<Rightarrow> ('e, 'w) fetch \<Rightarrow> time list \<Rightarrow>
   ('s, 'e, 'w, 'g) herd \<Rightarrow> ('s, 'e, 'w, 'g) herd" where
  "caller_run S F D fetch [] x = x"
| "caller_run S F D fetch (now # ts) x = caller_run S F D fetch ts (caller_step S F D fetch now 0 x)"

lemma caller_alone:
  assumes "group_contract D flying" "k \<notin> flying g" "runs_once Do"
  shows "let x = caller_run S F D fetch [now1, now1, now2, now2, now2, now2] (herd cs w g k 1);
             res = GetOrFetch (LRUCache_ops S F) Do now1 now2 k fetch (cs, w)
         in hCallers x = [Finished k (fst res)] \<and> hCache x = fst (snd res) \<and> hWorld x = snd (snd res)"
proof -
  obtain g' where lead: "gEnter D k g = (True, g')"
    using assms(1,2) by (cases "gEnter D k g") (auto dest: group_contractD)
  obtain r1 cs1 where g1: "LRUCache_Get S now1 k cs = (r1, cs1)" by (cases "LRUCache_Get S now1 k cs")
  note defs = herd_def caller_step_def GetOrFetch_def fetch_closure_def runs_onceD [OF assms(3)] lead Let_def
  show ?thesis
  proof (cases r1)
    case (Inr a)
    with g1 show ?thesis by (cases a) (simp add: defs)
  next
    case (Inl a)
    obtain r2 cs2 where g2: "LRUCache_Get S now2 k cs1 = (r2, cs2)" by (cases "LRUCache_Get S now2 k cs1")
    show ?thesis
    proof (cases r2)
      case Inr2: (Inr a2)
      with g1 g2 Inl show ?thesis by (cases a2; cases "ReadAll (fst a2)") (simp_all add: defs)
    next
      case Inl2: (Inl a2)
      obtain r3 w3 where f: "fetch w = (r3, w3)" by (cases "fetch w")
      show ?thesis
      proof (cases r3)
        case Inr3: (Inr a3)
        with g1 g2 f Inl Inl2 show ?thesis
          by (cases a3; cases "ReadAll (fst a3)") (simp_all add: defs split_beta)
      qed (use g1 g2 f Inl Inl2 in \<open>simp add: defs\<close>)
    qed
  qed
qed


section \<open>Properties\<close>

text \<open>A group that is the set of keys in flight, and two callers whose fetch counts its calls.\<close>

definition ex_group :: "string set group_ops" where
  "ex_group = \<lparr>gEnter = (\<lambda>k g. (k \<notin> g, insert k g)), gLeave = (\<lambda>k g. g - {k})\<rparr>"

definition ex_herd_meta :: Meta where
  "ex_herd_meta = \<lparr>mKey = ''a'', WrittenAt = 0, TTL = 10, mSize = 1, mHeaders = None\<rparr>"

definition ex_herd_fetch :: "nat \<Rightarrow> (unit, nat) fetch" where
  "ex_herd_fetch i w = (Inr (bytes_reader ''x'', ex_herd_meta), w + 1)"

definition ex_herd_fmt :: fmt where
  "ex_herd_fmt = \<lparr>fmtTime = (\<lambda>_. ''t''), fmtDuration = (\<lambda>_. ''d'')\<rparr>"

abbreviation ex_herd_step ::
  "(localfs, unit, nat, string set) herd \<Rightarrow> (localfs, unit, nat, string set) herd \<Rightarrow> bool" where
  "ex_herd_step \<equiv> herd_step (LocalFS_ops ex_codec) ex_herd_fmt ex_group ex_herd_fetch 10"

lemma ex_herd_ok: "group_contract ex_group (\<lambda>g. g)" "delivers (lfs_ok_meta ex_codec) ex_herd_fmt ''a'' 10 ex_herd_fetch"
  by (simp_all add: group_contract_def ex_group_def delivers_def ex_herd_fetch_def ex_herd_meta_def
      ExpiresAt_def Add_def ex_fs_ok exI [of _ "''x''"])

text \<open>
  A schedule is a list of callers. Two callers miss, the first fetches and leaves before the second
  enters the group.
\<close>

definition run_schedule ::
  "'s storage_ops \<Rightarrow> fmt \<Rightarrow> 'g group_ops \<Rightarrow> (nat \<Rightarrow> ('e, 'w) fetch) \<Rightarrow> time \<Rightarrow> nat list \<Rightarrow>
   ('s, 'e, 'w, 'g) herd \<Rightarrow> ('s, 'e, 'w, 'g) herd" where
  "run_schedule S F D fetch now is x = fold (\<lambda>i. caller_step S F D (fetch i) now i) is x"

lemma schedule_steps:
  assumes "list_all (\<lambda>i. i < length (hCallers x)) is" "now \<le> T"
  shows "(herd_step S F D fetch T)\<^sup>*\<^sup>* x (run_schedule S F D fetch now is x)"
  using assms(1)
proof (induction "is" arbitrary: x)
  case (Cons i "is")
  have "(herd_step S F D fetch T)\<^sup>*\<^sup>* x (caller_step S F D (fetch i) now i x)"
  proof (cases "runnable (hCallers x ! i)")
    case True
    with Cons.prems assms(2) show ?thesis by (intro r_into_rtranclp herd_step.go) simp_all
  next
    case False
    then show ?thesis by (cases "hCallers x ! i") (simp_all add: caller_step_def)
  qed
  also have "(herd_step S F D fetch T)\<^sup>*\<^sup>* \<dots> (run_schedule S F D fetch now (i # is) x)"
    using Cons by (simp add: run_schedule_def)
  finally show ?case .
qed (simp add: run_schedule_def)

definition ex_late :: "nat list" where
  "ex_late = [0, 1, 0, 0, 0, 0, 0, 1, 1, 1]"

definition ex_failing_fetch :: "nat \<Rightarrow> (unit, nat) fetch" where
  "ex_failing_fetch i w = (Inl (), w + 1)"

definition ex_no_store_fetch :: "nat \<Rightarrow> (unit, nat) fetch" where
  "ex_no_store_fetch i w = (Inr (bytes_reader ''x'', ex_herd_meta\<lparr>TTL := 0\<rparr>), w + 1)"

lemma ex_late_herd: "list_all (\<lambda>i. i < length (hCallers (herd cs w g k 2))) ex_late"
  by (simp add: ex_late_def herd_def)

lemma lfs_cold: "0 < cap \<Longrightarrow> lfs_inv st \<Longrightarrow> lfs_reliable st \<Longrightarrow> lfs.cold C k (NewLRUCache cap, st)"
  using lfs.coherent_new [of cap st C "{k}" Map.empty] by (auto simp: lfs.cold_def NewLRUCache_def)

lemma refetch_after_failure:
  "\<exists>x. (herd_step (LocalFS_ops ex_codec) ex_herd_fmt ex_group ex_failing_fetch 10)\<^sup>*\<^sup>*
     (herd (NewLRUCache 5, ex_fs) 0 {} ''a'' 2) x \<and> hFetched x = [''a'', ''a'']"
proof -
  let ?x = "herd (NewLRUCache 5, ex_fs) 0 {} ''a'' 2 :: (localfs, unit, nat, string set) herd"
  have "hFetched (run_schedule (LocalFS_ops ex_codec) ex_herd_fmt ex_group ex_failing_fetch 1 ex_late ?x) = [''a'', ''a'']"
    by code_simp
  with schedule_steps [OF ex_late_herd, of "1 :: time" 10] show ?thesis by fastforce
qed

lemma refetch_after_no_store:
  "\<exists>x. (herd_step (LocalFS_ops ex_codec) ex_herd_fmt ex_group ex_no_store_fetch 10)\<^sup>*\<^sup>*
     (herd (NewLRUCache 5, ex_fs) 0 {} ''a'' 2) x \<and> hFetched x = [''a'', ''a'']"
proof -
  let ?S = "LocalFS_ops ex_codec" and ?m = "ex_herd_meta\<lparr>TTL := 0\<rparr>"
  let ?cs = "(NewLRUCache 5, ex_fs)"
  let ?x = "herd ?cs 0 {} ''a'' 2 :: (localfs, unit, nat, string set) herd"
  have cold: "lfs.cold ex_codec ''a'' ?cs" by (rule lfs_cold) (simp_all add: ex_fs_ok)
  note miss = lfs.cold_miss [OF cold]
  obtain e cs1 where set: "LRUCache_Set ?S ex_herd_fmt ''a'' (bytes_reader ''x'') ?m ?cs = (e, cs1)" by (rule prod.exhaust)
  have "lfs.stored ex_codec ''a'' ''x'' ?m cs1"
    using lfs.Set_stored [OF cold, of ?m ex_herd_fmt "''x''"] set by (simp add: ex_fs_ok ex_herd_meta_def)
  from lfs.stored_expired [OF this, of 1] obtain cs2 where
    expired: "LRUCache_Get ?S 1 ''a'' cs1 = (Inl (CacheExpired ''a''), cs2)"
    by (auto simp: ex_herd_meta_def ExpiresAt_def Add_def)
  have "hFetched (run_schedule ?S ex_herd_fmt ex_group ex_no_store_fetch 1 ex_late ?x) = [''a'', ''a'']"
    by (simp add: run_schedule_def ex_late_def herd_def caller_step_def ex_group_def ex_no_store_fetch_def
        miss set expired numeral_2_eq_2)
  with schedule_steps [OF ex_late_herd, of "1 :: time" 10] show ?thesis by fastforce
qed

text \<open>
  C18: no stampede, when the fetches succeed with lasting metadata. Any number of callers look up the
  same key in a new cache of positive capacity over a reliable disk, no call is in flight for the key,
  the group keeps its contract, and every fetch delivers a complete body with metadata that stay
  fresh until the end of the run (\<open>delivers\<close>). Then, however their steps interleave, at most one of the
  callers fetches from the origin; and once no caller can run any more, exactly one fetch was made
  and every caller has its body and metadata. Without the condition on the fetches the claim fails: after
  a failed fetch, or a response with lifetime 0, a caller that had missed before and enters the group
  after the leader left fetches again (lemmas \<open>refetch_after_failure\<close> and \<open>refetch_after_no_store\<close>).
\<close>

theorem stampede_one_fetch:
  assumes "group_contract D flying" "k \<notin> flying g" "0 < cap" "lfs_inv st" "lfs_reliable st"
    and "delivers (lfs_ok_meta C) F k T fetch"
    and "(herd_step (LocalFS_ops C) F D fetch T)\<^sup>*\<^sup>* (herd (NewLRUCache cap, st) w g k n) x" "0 < n"
  shows "length (hFetched x) \<le> 1 \<and>
    ((\<exists>y. herd_step (LocalFS_ops C) F D fetch T x y) \<or>
     hFetched x = [k] \<and> length (hCallers x) = n \<and>
       (\<exists>b m. \<forall>p \<in> set (hCallers x). p = Finished k (Inr (bytes_reader b, m))))"
proof -
  have "lfs.herd_ok C F flying k T (herd (NewLRUCache cap, st) w g k n)"
    using lfs_cold [OF assms(3-5)] assms(2) by (intro lfs.herd_ok_start)
  from lfs.herd_ok_steps [OF assms(7) this assms(1,6)]
  have ok: "lfs.herd_ok C F flying k T x" .
  have len: "length (hCallers x) = n" using herd_steps_length [OF assms(7)] by (simp add: herd_def)
  from ok have "length (hFetched x) \<le> 1" by (auto simp: lfs.herd_ok_defs)
  moreover have "\<exists>b m. hFetched x = [k] \<and> (\<forall>p \<in> set (hCallers x). p = Finished k (Inr (bytes_reader b, m)))"
    if "\<nexists>y. herd_step (LocalFS_ops C) F D fetch T x y"
    using that assms(8) len unfolding herd_stuck by (intro lfs.herd_ok_end [OF ok]) auto
  ultimately show ?thesis using len by blast
qed

theorem stampede_one_fetch_witness:
  "\<exists>x. ex_herd_step\<^sup>*\<^sup>* (herd (NewLRUCache 5, ex_fs) 0 {} ''a'' 2) x \<and> hFetched x = [''a''] \<and>
     (\<exists>b m. \<forall>p \<in> set (hCallers x). p = Finished ''a'' (Inr (bytes_reader b, m)))"
proof -
  obtain x where x: "ex_herd_step\<^sup>*\<^sup>* (herd (NewLRUCache 5, ex_fs) 0 {} ''a'' 2) x" "\<nexists>y. ex_herd_step x y"
    using measure_reaches_end [of ex_herd_step herd_left "herd (NewLRUCache 5, ex_fs) 0 {} ''a'' 2"] herd_step_left
    by blast
  from stampede_one_fetch [OF ex_herd_ok(1) _ _ ex_fs_ok(1,2) ex_herd_ok(2) x(1)] x show ?thesis by auto
qed

text \<open>
  Nobody waits for ever: \<open>n\<close> callers make at most \<open>6 * n\<close> steps in all, whatever the fetch
  does, and as long as one of them has no result some caller can run.
\<close>

lemma callers_return:
  assumes "group_contract D flying" "k \<notin> flying g" "(herd_step S F D fetch T ^^ j) (herd cs w g k n) x"
  shows "j \<le> 6 * n \<and> ((\<exists>y. herd_step S F D fetch T x y) \<or> (\<forall>p \<in> set (hCallers x). \<exists>k r. p = Finished k r))"
proof -
  from herd_relpow_left [OF assms(3)] have j: "j \<le> 6 * n" by (simp add: herd_left_start)
  from group_ok_steps [OF relpowp_imp_rtranclp [OF assms(3)] group_ok_start assms(1)] assms(2)
  have "group_ok flying k x" by blast
  from j group_ok_end [OF this] show ?thesis unfolding herd_can_step by blast
qed

end
