(* ===== verification/RateWindow.thy ===== *)
theory RateWindow
  imports RateLimit
begin

text \<open>
  The limiter of one client over a run of a domain's state (\<open>ratelimit.go\<close>): requests of all
  clients and ticks of the cleanup loop, in any order. Every request is the critical section of
  \<open>Execute\<close>, whose two clock readings are those of \<open>lastSeen\<close> and of \<open>Allow\<close>.
\<close>

section \<open>Runs\<close>

datatype limiter_event =
    Ask string time time        \<comment> \<open>key, the reading for \<open>lastSeen\<close>, the reading of \<open>Allow\<close>\<close>
  | Tick time

fun limiter_step :: "'tb tb_ops \<Rightarrow> limiter_event \<Rightarrow> 'tb perDomainState \<Rightarrow> 'tb perDomainState" where
  "limiter_step T (Ask key seen now) s = snd (rl_decide T key seen now s)"
| "limiter_step T (Tick now) s = cleanup_tick now s"

text \<open>The answers client \<open>k\<close> gets, and the times it asks.\<close>

fun answers :: "'tb tb_ops \<Rightarrow> string \<Rightarrow> limiter_event list \<Rightarrow> 'tb perDomainState \<Rightarrow> bool list" where
  "answers T k [] s = []"
| "answers T k (ev # evs) s =
     (case ev of
        Ask key seen now \<Rightarrow> if key = k then [fst (rl_decide T key seen now s)] else []
      | Tick now \<Rightarrow> []) @ answers T k evs (limiter_step T ev s)"

fun ask_times :: "string \<Rightarrow> limiter_event list \<Rightarrow> time list" where
  "ask_times k [] = []"
| "ask_times k (Ask key seen now # evs) = (if key = k then [now] else []) @ ask_times k evs"
| "ask_times k (Tick now # evs) = ask_times k evs"

text \<open>
  The clock does not turn back, and the two readings of a critical section are less than the
  idle time of the cleanup apart, by a second. The loop reads the clock before it takes the lock, so
  the reading of a tick may be older than those of the calls that got the lock before it.
\<close>

fun well_timed :: "time \<Rightarrow> limiter_event list \<Rightarrow> bool" where
  "well_timed t [] \<longleftrightarrow> True"
| "well_timed t (Ask key seen now # evs) \<longleftrightarrow>
     t \<le> seen \<and> seen \<le> now \<and> now \<le> seen + (5 * Minute - Second) \<and> well_timed now evs"
| "well_timed t (Tick now # evs) \<longleftrightarrow> well_timed (max t now) evs"

lemma ask_times_sorted:
  "well_timed t evs \<Longrightarrow> sorted (ask_times k evs) \<and> (\<forall>x \<in> set (ask_times k evs). t \<le> x)"
  by (induction t evs rule: well_timed.induct) fastforce+


section \<open>What the state of the domain knows of one client\<close>

text \<open>
  \<open>h\<close> are the times at which client \<open>k\<close> was admitted. The limiter, where there is one, stands for
  \<open>h\<close>; where there is none, nothing of \<open>h\<close> counts any more.
\<close>

definition tracks :: "float64 \<Rightarrow> string \<Rightarrow> time \<Rightarrow> 'tb perDomainState \<Rightarrow> time list \<Rightarrow> bool" where
  "tracks rate k t s h \<longleftrightarrow> ps_inv s \<and> psAlgorithm s = ''sliding_window'' \<and> psRate s = rate \<and>
     (case map_of (psLimiters s) k of
        None \<Rightarrow> recent t h = []
      | Some l \<Rightarrow> (\<exists>sw. l = SlidingWindow sw \<and> sw_abs t sw h)) \<and>
     (\<forall>x \<in> set h. x \<le> t) \<and>
     (\<forall>seen. map_of (psLastSeen s) k = Some seen \<longrightarrow> (\<forall>x \<in> set h. x \<le> seen + (5 * Minute - Second)))"

lemma recent_Nil: "recent t h = [] \<longleftrightarrow> (\<forall>x \<in> set h. x \<le> t - Second)"
  by (auto simp: recent_def filter_empty_conv not_less)

lemma tracks_later: "tracks rate k t s h \<Longrightarrow> t \<le> now \<Longrightarrow> tracks rate k now s h"
  by (fastforce simp: tracks_def recent_Nil intro: sw_abs_later split: option.splits)

lemma tracks_start:
  "stringVal cfg ''algorithm'' ''token_bucket'' = ''sliding_window'' \<Longrightarrow> floatVal cfg ''rate'' (Fin 100) = rate \<Longrightarrow>
   tracks rate k t (rl_state cfg d Map.empty) []"
  by (simp add: tracks_def rl_state_def Let_def ps_inv_def recent_def)

lemma rl_decide_frame [simp]:
  "psAlgorithm (snd (rl_decide T key seen now s)) = psAlgorithm s"
  "psRate (snd (rl_decide T key seen now s)) = psRate s"
  "map_of (psLastSeen (snd (rl_decide T key seen now s))) k =
     (if k = key then Some seen else map_of (psLastSeen s) k)"
  by (simp_all add: rl_decide_def Let_def update_conv' split: prod.split)

lemma tracks_other:
  assumes "tracks rate k t s h" "k \<noteq> key" "t \<le> now"
  shows "tracks rate k now (snd (rl_decide T key seen now s)) h"
proof -
  have "tracks rate k now s h" by (rule tracks_later [OF assms(1,3)])
  with assms(2) show ?thesis
    by (simp add: tracks_def rl_decide_inv rl_decide_other)
qed

lemma tracks_ask:
  assumes "tracks rate k t s h" "t \<le> seen" "seen \<le> now" "now \<le> seen + (5 * Minute - Second)"
  shows "fst (rl_decide T k seen now s) = spec_admits rate h now"
    and "tracks rate k now (snd (rl_decide T k seen now s))
           (if spec_admits rate h now then h @ [now] else h)"
proof -
  have tr: "tracks rate k now s h" by (rule tracks_later [OF assms(1)]) (use assms in simp)
  obtain sw where l: "(case map_of (psLimiters s) k of Some l \<Rightarrow> l | None \<Rightarrow> newLimiter T s) = SlidingWindow sw"
    and abs: "sw_abs now sw h" and rate: "swRate sw = rate"
  proof (cases "map_of (psLimiters s) k")
    case None
    with tr show ?thesis
      by (intro that [of "newSlidingWindow rate"])
         (auto simp: tracks_def newLimiter_def newSlidingWindow_def sw_abs_def recent_def)
  next
    case (Some l)
    with tr obtain sw where "l = SlidingWindow sw" "sw_abs now sw h" by (auto simp: tracks_def)
    moreover from this Some tr have "swRate sw = rate"
      by (auto simp: tracks_def ps_inv_def simp del: map_of_eq_Some_iff)
    ultimately show ?thesis using Some by (intro that [of sw]) simp_all
  qed
  have dec: "rl_decide T k seen now s = (fst (sw_Allow sw now),
      s\<lparr>psLimiters := AList.update k (SlidingWindow (snd (sw_Allow sw now))) (psLimiters s),
        psLastSeen := AList.update k seen (psLastSeen s)\<rparr>)"
    by (simp add: rl_decide_def l split: prod.split)
  note a = sw_Allow_abs [OF abs, unfolded rate]
  show "fst (rl_decide T k seen now s) = spec_admits rate h now" by (simp add: dec a(1))
  have "ps_inv (snd (rl_decide T k seen now s))"
    by (rule rl_decide_inv) (use tr in \<open>simp add: tracks_def\<close>)
  moreover have "map_of (psLimiters (snd (rl_decide T k seen now s))) k =
      Some (SlidingWindow (snd (sw_Allow sw now)))" by (simp add: dec)
  moreover have "\<forall>x \<in> set h. x \<le> t" using assms(1) by (simp add: tracks_def)
  ultimately show "tracks rate k now (snd (rl_decide T k seen now s))
      (if spec_admits rate h now then h @ [now] else h)"
    using tr a(2) assms(2-4) by (fastforce simp: tracks_def)
qed

lemma cleanup_tick_seen:
  "ps_inv s \<Longrightarrow> map_of (psLastSeen (cleanup_tick now s)) k = Some seen \<Longrightarrow> map_of (psLastSeen s) k = Some seen"
  by (auto simp: cleanup_tick_def cleanup_scan_seen simp del: map_of_eq_Some_iff split: if_splits)

lemma tracks_tick:
  assumes "tracks rate k t s h"
  shows "tracks rate k (max t now) (cleanup_tick now s) h"
proof -
  let ?t = "max t now"
  have tr: "tracks rate k ?t s h" by (rule tracks_later [OF assms]) simp
  then have inv: "ps_inv s" by (simp add: tracks_def)
  have frame: "psAlgorithm (cleanup_tick now s) = psAlgorithm s" "psRate (cleanup_tick now s) = psRate s"
    by (simp_all add: cleanup_tick_def)
  have "case map_of (psLimiters (cleanup_tick now s)) k of
      None \<Rightarrow> recent ?t h = [] | Some l \<Rightarrow> (\<exists>sw. l = SlidingWindow sw \<and> sw_abs ?t sw h)"
  proof (cases "map_of (psLastSeen s) k")
    case None
    then have "map_of (psLimiters s) k = None" using inv by (simp add: ps_inv_def)
    with None tr show ?thesis by (simp add: cleanup_tick_limiters [OF inv] tracks_def)
  next
    case (Some seen)
    then have old: "\<forall>x \<in> set h. x \<le> seen + (5 * Minute - Second)" using tr by (simp add: tracks_def)
    have present: "map_of (psLimiters s) k \<noteq> None" using Some inv by (simp add: ps_inv_def)
    show ?thesis
    proof (cases "seen < now - 5 * Minute")
      case True
      then have "recent ?t h = []" using old by (fastforce simp: recent_Nil)
      with True Some show ?thesis by (simp add: cleanup_tick_limiters [OF inv])
    next
      case False
      with Some present tr show ?thesis by (auto simp: cleanup_tick_limiters [OF inv] tracks_def)
    qed
  qed
  moreover have "\<forall>x \<in> set h. x \<le> seen + (5 * Minute - Second)"
    if "map_of (psLastSeen (cleanup_tick now s)) k = Some seen" for seen
    using cleanup_tick_seen [OF inv that] tr by (simp add: tracks_def)
  ultimately show ?thesis
    using tr frame ps_inv_cleanup [OF inv] by (simp add: tracks_def)
qed

text \<open>Along a run the client is answered as by the specification that remembers everything.\<close>

lemma answers_spec:
  "tracks rate k t s h \<Longrightarrow> well_timed t evs \<Longrightarrow> answers T k evs s = spec_run rate h (ask_times k evs)"
proof (induction evs arbitrary: t s h)
  case (Cons ev evs)
  show ?case
  proof (cases ev)
    case (Tick now)
    with Cons.prems have "tracks rate k (max t now) (cleanup_tick now s) h" "well_timed (max t now) evs"
      by (simp_all add: tracks_tick)
    from Cons.IH [OF this] show ?thesis by (simp add: Tick)
  next
    case (Ask key seen now)
    with Cons.prems have t: "t \<le> seen" "seen \<le> now" "now \<le> seen + (5 * Minute - Second)" "well_timed now evs"
      by simp_all
    show ?thesis
    proof (cases "key = k")
      case True
      note a = tracks_ask [OF Cons.prems(1) t(1-3), of T]
      show ?thesis using Cons.IH [OF a(2) t(4)] a(1) by (simp add: Ask True)
    next
      case False
      have "tracks rate k now (snd (rl_decide T key seen now s)) h"
        using tracks_other [OF Cons.prems(1)] False t by simp
      from Cons.IH [OF this t(4)] show ?thesis by (simp add: Ask False)
    qed
  qed
qed simp


section \<open>Properties\<close>

text \<open>
  C24: the state of a domain in \<open>sliding_window\<close> mode, which shares its table among all clients,
  forgets old timestamps at every call and idle clients at every cleanup, answers each client as
  the reference that knows that client only and remembers every call it admitted.
\<close>

theorem rate_limit_refines:
  assumes "stringVal cfg ''algorithm'' ''token_bucket'' = ''sliding_window''" "well_timed t evs"
  shows "answers T k evs (rl_state cfg d Map.empty) =
    spec_run (floatVal cfg ''rate'' (Fin 100)) [] (ask_times k evs)"
  by (rule answers_spec [OF tracks_start [OF assms(1)] assms(2)]) simp

definition ex_run :: "limiter_event list" where
  "ex_run = [Ask ''a'' 0 1, Ask ''b'' 2 3, Ask ''a'' 4 5, Tick (6 * Minute), Ask ''a'' (6 * Minute) (6 * Minute)]"

lemma ex_run_ok:
  "stringVal ex_limit_cfg ''algorithm'' ''token_bucket'' = ''sliding_window''" "well_timed 0 ex_run"
  "floatVal ex_limit_cfg ''rate'' (Fin 100) = Fin 1"
  by (code_simp)+

theorem rate_limit_refines_witness:
  "answers ex_tb ''a'' ex_run (rl_state ex_limit_cfg ''a.com'' Map.empty) = [True, False, True]"
proof -
  have "spec_run (floatVal ex_limit_cfg ''rate'' (Fin 100)) [] (ask_times ''a'' ex_run) = [True, False, True]"
    by code_simp
  with rate_limit_refines [OF ex_run_ok(1,2), of ex_tb "''a''" "''a.com''"] show ?thesis by (rule trans)
qed

text \<open>
  C25: in \<open>sliding_window\<close> mode (which is not the default: the token bucket allows bursts), with a
  finite rate of at most \<open>2 ^ 52\<close> per second and a clock that does not turn back, no interval of one
  second contains more admitted requests of a client than the configured rate, rounded up, whatever
  the other clients do and whenever the cleanup loop runs.
\<close>

theorem rate_limit_bound:
  assumes "stringVal cfg ''algorithm'' ''token_bucket'' = ''sliding_window''"
    and "floatVal cfg ''rate'' (Fin 100) = Fin q" "q \<le> 2 ^ 52" "well_timed t evs"
  shows "int (length (filter (\<lambda>x. u - Second < x \<and> x \<le> u)
      (admitted (ask_times k evs) (answers T k evs (rl_state cfg d Map.empty))))) \<le> max 0 \<lceil>q\<rceil>"
proof -
  have "sorted (ask_times k evs)" using ask_times_sorted [OF assms(4)] by blast
  then have "rate_bound q (spec_history (Fin q) [] (ask_times k evs))"
    by (rule spec_history_bound [OF _ rate_bound_Nil assms(3)]) simp
  moreover have "answers T k evs (rl_state cfg d Map.empty) = spec_run (Fin q) [] (ask_times k evs)"
    by (rule answers_spec [OF tracks_start [OF assms(1,2)] assms(4)])
  ultimately show ?thesis
    using admitted_spec_run [of "[]" "ask_times k evs" "Fin q"] by (simp add: rate_bound_def)
qed

theorem rate_limit_bound_witness:
  "int (length (filter (\<lambda>x. 7 - Second < x \<and> x \<le> 7)
      (admitted (ask_times ''a'' ex_run)
        (answers ex_tb ''a'' ex_run (rl_state ex_limit_cfg ''a.com'' Map.empty))))) \<le> 1"
  using rate_limit_bound [OF ex_run_ok(1,3) _ ex_run_ok(2), of 7 "''a''" ex_tb "''a.com''"] by simp

end
