(* ===== verification/Contexts.thy ===== *)
theory Contexts
  imports Server
begin

text \<open>
  Values carried by the context of a request: the logger (\<open>observe/logger.go\<close>) that
  \<open>RequestLogger\<close> puts there, and the \<open>PipelineContext\<close> that \<open>Pipeline.Execute\<close> puts there. The key
  types of the two packages are unexported structs, so they are distinct keys. A logger is the
  list of its attributes; \<open>None\<close> in a value is a nil pointer.
\<close>

section \<open>\<open>context.Context\<close>\<close>

type_synonym logger = "(string \<times> string) list"

datatype ctx_key = LoggerKey | PipelineKey | OtherKey string

datatype ctx_val = VLogger "logger option" | VPipeline "PipelineContext option" | VOther string

datatype ctx = Background | WithValue ctx ctx_key ctx_val

fun Value :: "ctx \<Rightarrow> ctx_key \<Rightarrow> ctx_val option" where
  "Value Background k = None"
| "Value (WithValue c k' v) k = (if k' = k then Some v else Value c k)"


section \<open>The accessors\<close>

definition WithLogger :: "ctx \<Rightarrow> logger option \<Rightarrow> ctx" where
  "WithLogger c l = WithValue c LoggerKey (VLogger l)"

definition FromContext :: "logger \<Rightarrow> ctx \<Rightarrow> logger" where
  "FromContext dflt c =
     (case Value c LoggerKey of Some (VLogger (Some l)) \<Rightarrow> l | _ \<Rightarrow> dflt)"

definition PipelineCtxFrom :: "ctx \<Rightarrow> PipelineContext option \<times> bool" where
  "PipelineCtxFrom c =
     (case Value c PipelineKey of Some (VPipeline p) \<Rightarrow> (p, True) | _ \<Rightarrow> (None, False))"

text \<open>\<open>logger.With\<close>, the context \<open>RequestLogger\<close> hands on, and the one \<open>Execute\<close> returns.\<close>

definition logger_With :: "logger \<Rightarrow> string \<Rightarrow> string \<Rightarrow> logger" where
  "logger_With l k v = l @ [(k, v)]"

definition RequestLogger_ctx :: "logger \<Rightarrow> string \<Rightarrow> ctx \<Rightarrow> ctx" where
  "RequestLogger_ctx dflt reqID c =
     WithLogger c (Some (logger_With (FromContext dflt c) ''request_id'' reqID))"

definition Execute_ctx ::
  "'l registry \<Rightarrow> PluginConfig list \<Rightarrow> string \<Rightarrow> ResponseWriter \<Rightarrow> Request \<Rightarrow> 'l world \<Rightarrow> ctx \<Rightarrow> ctx" where
  "Execute_ctx reg cfgs domain w r wd c =
     (case Pipeline_Execute reg cfgs domain w r wd of
        (ok, pCtx, w1, r1, wd1) \<Rightarrow> if ok then WithValue c PipelineKey (VPipeline (Some pCtx)) else c)"


section \<open>What the layers find\<close>

lemma FromContext_WithLogger:
  "FromContext dflt (WithLogger c l) = (case l of None \<Rightarrow> dflt | Some l' \<Rightarrow> l')"
  by (simp add: FromContext_def WithLogger_def split: option.split)

lemma FromContext_Background: "FromContext dflt Background = dflt"
  by (simp add: FromContext_def)

text \<open>The pipeline's value does not hide the logger, nor the logger the pipeline's value.\<close>

lemma Execute_ctx_logger:
  "FromContext dflt (Execute_ctx reg cfgs d w r wd c) = FromContext dflt c"
  by (auto simp: FromContext_def Execute_ctx_def split: prod.split)

lemma RequestLogger_ctx_pipeline: "PipelineCtxFrom (RequestLogger_ctx dflt reqID c) = PipelineCtxFrom c"
  by (simp add: PipelineCtxFrom_def RequestLogger_ctx_def WithLogger_def)

text \<open>The handler behind the middleware logs with the request's identifier, also after the pipeline.\<close>

lemma handler_logger:
  "FromContext dflt (Execute_ctx reg cfgs d w r wd (RequestLogger_ctx dflt reqID c)) =
     logger_With (FromContext dflt c) ''request_id'' reqID"
  by (simp add: Execute_ctx_logger RequestLogger_ctx_def FromContext_WithLogger)

text \<open>\<open>PipelineCtxFrom\<close> gives back what \<open>Execute\<close> returned, and nothing when it short-circuited.\<close>

lemma PipelineCtxFrom_Execute:
  assumes "Pipeline_Execute reg cfgs d w r wd = (ok, pCtx, w1, r1, wd1)"
  shows "PipelineCtxFrom (Execute_ctx reg cfgs d w r wd c) =
    (if ok then (Some pCtx, True) else PipelineCtxFrom c)"
  by (simp add: PipelineCtxFrom_def Execute_ctx_def assms)

end
