(* ===== verification/Metrics.thy ===== *)
theory Metrics
  imports Examples
begin

text \<open>
  The metrics of \<open>observe/metrics.go\<close>, read off the events of the world: a counter is the number of
  increments under its labels, a histogram the number of its observations, a gauge the value last
  set. The observed latencies are left out, and nothing ever sets \<open>CacheStorageBytes\<close>.
\<close>

section \<open>The values of the metrics\<close>

definition counter :: "event \<Rightarrow> event list \<Rightarrow> nat" where
  "counter e es = length (filter (\<lambda>x. x = e) es)"

definition RequestsTotal :: "event list \<Rightarrow> string \<Rightarrow> string \<Rightarrow> nat" where
  "RequestsTotal es domain status = counter (Requests domain status) es"

definition CacheHitsTotal :: "event list \<Rightarrow> string \<Rightarrow> nat" where
  "CacheHitsTotal es domain = counter (CacheHits domain) es"

definition CacheMissesTotal :: "event list \<Rightarrow> string \<Rightarrow> nat" where
  "CacheMissesTotal es domain = counter (CacheMisses domain) es"

definition OriginPullsTotal :: "event list \<Rightarrow> string \<Rightarrow> string \<Rightarrow> string \<Rightarrow> nat" where
  "OriginPullsTotal es domain origin status = counter (OriginPulls domain origin status) es"

definition PluginTriggeredTotal :: "event list \<Rightarrow> string \<Rightarrow> string \<Rightarrow> string \<Rightarrow> nat" where
  "PluginTriggeredTotal es domain plugin result = counter (PluginTriggered domain plugin result) es"

definition OriginPullDuration :: "event list \<Rightarrow> string \<Rightarrow> nat" where
  "OriginPullDuration es domain = counter (ObservePull domain) es"

definition RequestDuration :: "event list \<Rightarrow> string \<Rightarrow> string \<Rightarrow> nat" where
  "RequestDuration es domain cache_hit = counter (ObserveRequest domain cache_hit) es"

fun FlushRulesTotal :: "event list \<Rightarrow> string \<Rightarrow> nat \<Rightarrow> nat" where
  "FlushRulesTotal [] domain v = v"
| "FlushRulesTotal (FlushRules d k # es) domain v = FlushRulesTotal es domain (if d = domain then k else v)"
| "FlushRulesTotal (e # es) domain v = FlushRulesTotal es domain v"

lemma counter_append [simp]: "counter e (es @ es') = counter e es + counter e es'"
  by (simp add: counter_def)

lemma counter_simps [simp]: "counter e [] = 0" "counter e (x # es) = (if x = e then 1 else 0) + counter e es"
  by (simp_all add: counter_def)

lemma counter_none: "\<forall>x \<in> set es. x \<noteq> e \<Longrightarrow> counter e es = 0"
  by (simp add: counter_def filter_empty_conv)

lemma FlushRulesTotal_append:
  "FlushRulesTotal (es @ es') d v = FlushRulesTotal es' d (FlushRulesTotal es d v)"
  by (induction es d v rule: FlushRulesTotal.induct) auto


section \<open>What a request counts\<close>

text \<open>The lookups of a domain, and the requests for it that were counted with status 200.\<close>

definition lookups :: "string \<Rightarrow> event list \<Rightarrow> nat" where
  "lookups d es = CacheHitsTotal es d + CacheMissesTotal es d"

fun ok_request :: "string \<Rightarrow> event \<Rightarrow> bool" where
  "ok_request d (Requests h s) \<longleftrightarrow> stripPort h = d \<and> s = ''200''"
| "ok_request d _ \<longleftrightarrow> False"

definition ok_requests :: "string \<Rightarrow> event list \<Rightarrow> nat" where
  "ok_requests d es = length (filter (ok_request d) es)"

lemma lookups_append [simp]: "lookups d (es @ es') = lookups d es + lookups d es'"
  by (simp add: lookups_def CacheHitsTotal_def CacheMissesTotal_def)

lemma ok_requests_append [simp]: "ok_requests d (es @ es') = ok_requests d es + ok_requests d es'"
  by (simp add: ok_requests_def)

text \<open>The requests for a host, and the pulls for a domain, under whatever status.\<close>

fun is_request :: "string \<Rightarrow> event \<Rightarrow> bool" where
  "is_request h (Requests h' s) \<longleftrightarrow> h' = h"
| "is_request h _ \<longleftrightarrow> False"

fun is_pull :: "string \<Rightarrow> event \<Rightarrow> bool" where
  "is_pull d (OriginPulls d' o' s) \<longleftrightarrow> d' = d"
| "is_pull d _ \<longleftrightarrow> False"

text \<open>Every lookup, every counted request and every successful pull comes with one observation.\<close>

definition paired :: "event list \<Rightarrow> bool" where
  "paired es \<longleftrightarrow> (\<forall>d.
     RequestDuration es d ''true'' = CacheHitsTotal es d \<and>
     RequestDuration es d ''false'' = CacheMissesTotal es d \<and>
     RequestDuration es d [] = length (filter (is_request d) es) \<and>
     OriginPullDuration es d = length (filter (is_pull d) es))"

lemmas metric_defs = RequestDuration_def CacheHitsTotal_def CacheMissesTotal_def OriginPullDuration_def

lemma paired_Nil: "paired []"
  by (simp add: paired_def metric_defs)

lemma paired_append: "paired es \<Longrightarrow> paired es' \<Longrightarrow> paired (es @ es')"
  by (simp add: paired_def metric_defs)

lemma paired_events:
  "paired (served_events hit d)" "paired (pull_events d c)" "paired (request_events r w)"
  by (simp_all add: paired_def metric_defs served_events_def pull_events_def request_events_def)

text \<open>What plugins and admin calls count.\<close>

fun plain :: "event \<Rightarrow> bool" where
  "plain (PluginTriggered d p res) = True"
| "plain (FlushRules d k) = True"
| "plain _ = False"

lemma paired_plain:
  assumes "list_all plain es" shows "paired es"
proof -
  have "e \<noteq> ObserveRequest d l \<and> e \<noteq> CacheHits d \<and> e \<noteq> CacheMisses d \<and> e \<noteq> ObservePull d \<and>
      \<not> is_request d e \<and> \<not> is_pull d e" if "e \<in> set es" for e d l
    using assms that by (cases e) (auto simp: list_all_iff)
  then show ?thesis by (simp add: paired_def metric_defs counter_none filter_empty_conv)
qed

text \<open>Events that are neither lookups nor requests.\<close>

fun silent :: "event \<Rightarrow> bool" where
  "silent (CacheHits d) = False"
| "silent (CacheMisses d) = False"
| "silent (Requests h s) = False"
| "silent _ = True"

lemma plain_silent: "list_all plain es \<Longrightarrow> list_all silent es"
  by (induction es) (auto elim!: plain.elims)

lemma silent_counts:
  assumes "list_all silent es" shows "lookups d es = 0" "ok_requests d es = 0"
proof -
  have "e \<noteq> CacheHits d \<and> e \<noteq> CacheMisses d \<and> \<not> ok_request d e" if "e \<in> set es" for e
    using assms that by (cases e) (auto simp: list_all_iff)
  then show "lookups d es = 0" "ok_requests d es = 0"
    by (simp_all add: lookups_def CacheHitsTotal_def CacheMissesTotal_def counter_none
        ok_requests_def filter_empty_conv)
qed

lemma originFetch_events:
  obtains es where "wevents (snd (snd (originFetch D cfg pCtx r key (p, wd)))) = wevents wd @ es"
    "list_all silent es" "paired es"
proof -
  have "\<exists>es. wevents (snd (snd (originFetch D cfg pCtx r key (p, wd)))) = wevents wd @ es \<and>
      (es = [] \<or> (\<exists>c. es = pull_events (Domain cfg) c))"
    by (auto simp: originFetch_def Let_def time_Now_def split: prod.splits outcome.splits sum.splits)
  with paired_events(2) paired_Nil that show ?thesis by (fastforce simp: pull_events_def)
qed

lemma served_events_count:
  "ok_requests d (served_events hit d') = 0" "lookups d (served_events hit d') = (if d = d' then 1 else 0)"
  by (simp_all add: served_events_def ok_requests_def lookups_def CacheHitsTotal_def CacheMissesTotal_def)

text \<open>A request that gets past the plugins: one lookup when it is answered 200, else none.\<close>

lemma serve_cached_events:
  assumes "lru_inv (nCache n)" "runs_once (dDo D)" "wStatus w = None"
  obtains es where
    "wevents (nWorld (snd (serve_cached D cfg pCtx w r n))) = wevents (nWorld n) @ es"
    "ok_requests d es = 0" "paired es"
    "lookups d es = (if d = Domain cfg \<and> (\<exists>w'. fst (serve_cached D cfg pCtx w r n) = Done w' \<and> wStatus w' = Some 200)
       then 1 else 0)"
proof (cases "fst (first_look D cfg pCtx r n)")
  case (Inr x)
  obtain rc m where x: "x = (rc, m)" by (cases x)
  note h = serve_cached_hit [OF Inr [unfolded x], of w]
  show ?thesis
    by (rule that [of "served_events True (Domain cfg)"])
       (auto simp: h write_response_fresh(1) [OF assms(3)] served_events_count paired_events)
next
  case (Inl e)
  note m = serve_cached_miss [OF assms(1,2) Inl, of w]
  obtain res p1 wd1 where f: "fetch_look D cfg pCtx r n = (res, p1, wd1)" by (cases "fetch_look D cfg pCtx r n")
  obtain es0 where es0: "wevents wd1 = wevents (nWorld n) @ es0" "list_all silent es0" "paired es0"
    using originFetch_events [of D cfg pCtx r "serve_key D cfg pCtx r" "nPuller n" "look_world (nWorld n)"] f
    by (auto simp: fetch_look_def look_world_def)
  note s0 = silent_counts [OF es0(2), of d]
  show ?thesis
  proof (cases res)
    case (Inl err)
    have "\<not> (\<exists>w'. fst (serve_cached D cfg pCtx w r n) = Done w' \<and> wStatus w' = Some 200)"
      using m(1) http_Error_fresh [OF assms(3)] by (cases err) (auto simp: f Inl)
    then show ?thesis
      using m(3) es0 s0 by (intro that [of es0]) (simp_all add: f Inl)
  next
    case (Inr y)
    obtain rc meta where y: "y = (rc, meta)" by (cases y)
    let ?es = "served_events (indexed D cfg pCtx r n) (Domain cfg)"
    have "fst (serve_cached D cfg pCtx w r n) = Done (write_response (indexed D cfg pCtx r n) pCtx rc meta w)"
      using m(1) by (simp add: f Inr y)
    moreover have "wevents (nWorld (snd (serve_cached D cfg pCtx w r n))) = wevents (nWorld n) @ (es0 @ ?es)"
      using m(3) es0(1) by (simp add: f Inr)
    ultimately show ?thesis
      using s0 es0(3)
      by (intro that [of "es0 @ ?es"])
         (auto simp: write_response_fresh(1) [OF assms(3)] served_events_count paired_events intro: paired_append)
  qed
qed

lemma pipeline_events:
  assumes "Pipeline_Execute (plugin_registry X T) cfgs d w r wd = (ok, pCtx, w1, r1, wd1)"
  obtains es where "wevents wd1 = wevents wd @ es" "list_all plain es"
    "w1 = (if ok then w else http_Error ''Too Many Requests'' 429 w)"
proof -
  note run = assms [unfolded Pipeline_Execute_def Let_def]
  obtain es where "wevents wd1 = wevents wd @ es" "\<forall>e \<in> set es. \<exists>p res. e = PluginTriggered d p res"
    using plugins.run_frame [OF run] by blast
  moreover from this(2) have "list_all plain es" by (auto simp: list_all_iff)
  moreover have "w1 = (if ok then w else http_Error ''Too Many Requests'' 429 w)"
    using run plugins.run_pass run_plugins_reject by (cases ok) auto
  ultimately show ?thesis using that by blast
qed

lemma ServeHTTP_events:
  assumes inv: "node_inv n" and D: "runs_once (dDo D)" "dRegistry D = plugin_registry X T" and w: "wStatus w = None"
  obtains es where "wevents (nWorld (snd (ServeHTTP D r w n))) = wevents (nWorld n) @ es"
    "ok_requests d es = 0" "paired es"
    "lookups d es = (if d = stripPort (Host r) \<and>
        (\<exists>w'. fst (ServeHTTP D r w n) = Done w' \<and> wStatus w' = Some 200) then 1 else 0)"
proof (cases "nDomains n (stripPort (Host r))")
  case None
  then show ?thesis
    using http_Error_fresh [OF w] that [of "[]"] silent_counts [of "[]" d] paired_Nil
    by (simp add: ServeHTTP_unknown http_NotFound_def)
next
  case (Some cfg)
  have name: "Domain cfg = stripPort (Host r)" using inv Some by (simp add: node_inv_def)
  obtain ok pCtx w1 r1 wd1 where p:
    "Pipeline_Execute (dRegistry D) (Plugins cfg) (Domain cfg) w r (nWorld n) = (ok, pCtx, w1, r1, wd1)"
    by (metis prod_cases5)
  obtain es0 where es0: "wevents wd1 = wevents (nWorld n) @ es0" "list_all plain es0"
      "w1 = (if ok then w else http_Error ''Too Many Requests'' 429 w)"
    by (rule pipeline_events [OF p [unfolded D(2)]])
  note s0 = silent_counts [OF plain_silent [OF es0(2)], of d] and p0 = paired_plain [OF es0(2)]
  have eq: "ServeHTTP D r w n =
      (if ok then serve_cached D cfg pCtx w1 r1 (n\<lparr>nWorld := wd1\<rparr>) else (Done w1, n\<lparr>nWorld := wd1\<rparr>))"
    unfolding ServeHTTP_def Some option.case p prod.case Let_def ..
  show ?thesis
  proof (cases ok)
    case False
    then show ?thesis
      using es0 s0 p0 http_Error_fresh [OF w] by (intro that [of es0]) (simp_all add: eq)
  next
    case True
    have "lru_inv (nCache (n\<lparr>nWorld := wd1\<rparr>))" using inv by (simp add: node_inv_def)
    from serve_cached_events [OF this D(1) w, of cfg pCtx r1 d] obtain es where
      "wevents (nWorld (snd (serve_cached D cfg pCtx w r1 (n\<lparr>nWorld := wd1\<rparr>)))) = wevents wd1 @ es"
      "ok_requests d es = 0" "paired es"
      "lookups d es = (if d = Domain cfg \<and>
        (\<exists>w'. fst (serve_cached D cfg pCtx w r1 (n\<lparr>nWorld := wd1\<rparr>)) = Done w' \<and> wStatus w' = Some 200) then 1 else 0)"
      by auto
    with es0 s0 p0 True show ?thesis
      by (intro that [of "es0 @ es"]) (simp_all add: eq name paired_append)
  qed
qed

lemma show_int_200 [simp]: "show_int 200 = ''200''"
  by code_simp

lemma show_int_status: "c \<in> {200, 404, 429, 502} \<Longrightarrow> show_int c = ''200'' \<longleftrightarrow> c = 200"
proof -
  have "show_int 404 = ''404''" "show_int 429 = ''429''" "show_int 502 = ''502''" by code_simp+
  then show "c \<in> {200, 404, 429, 502} \<Longrightarrow> show_int c = ''200'' \<longleftrightarrow> c = 200" by auto
qed

text \<open>With the middleware, a request adds as many lookups as counted answers with status 200.\<close>

lemma bizHandler_events:
  assumes "node_inv n" "runs_once (dDo D)" "dRegistry D = plugin_registry X T"
  obtains es where "wevents (nWorld (snd (bizHandler D r new_writer n))) = wevents (nWorld n) @ es"
    "lookups d es = ok_requests d es" "paired es"
proof -
  let ?w = "wrapped new_writer"
  have w: "wStatus ?w = None" by (simp add: new_writer_def)
  obtain es where es: "wevents (nWorld (snd (ServeHTTP D r ?w n))) = wevents (nWorld n) @ es"
    "ok_requests d es = 0" "paired es"
    "lookups d es = (if d = stripPort (Host r) \<and>
        (\<exists>w'. fst (ServeHTTP D r ?w n) = Done w' \<and> wStatus w' = Some 200) then 1 else 0)"
    by (rule ServeHTTP_events [OF assms w])
  obtain res n1 where s: "ServeHTTP D r ?w n = (res, n1)" by (cases "ServeHTTP D r ?w n")
  show ?thesis
  proof (cases res)
    case (Crashed w1)
    then show ?thesis
      using es s by (intro that [of es]) (simp_all add: bizHandler_def Recovery_def RequestLogger_def)
  next
    case (Done w1)
    then obtain c where c: "c \<in> {200, 404, 429, 502}" "wStatus w1 = Some c" "wLogged w1 = c"
      using ServeHTTP_status [OF w assms(3), of r n] s by (auto simp: sent_as_logged_def)
    have "wevents (nWorld (snd (bizHandler D r new_writer n))) = wevents (nWorld n) @ (es @ request_events r w1)"
      using es(1) s Done by (simp add: bizHandler_def Recovery_def RequestLogger_def)
    moreover have "ok_requests d (request_events r w1) = (if d = stripPort (Host r) \<and> c = 200 then 1 else 0)"
      using show_int_status [OF c(1)] c(3) by (auto simp: ok_requests_def request_events_def)
    moreover have "lookups d (request_events r w1) = 0"
      by (simp add: lookups_def CacheHitsTotal_def CacheMissesTotal_def request_events_def)
    ultimately show ?thesis
      using es c s Done paired_append [OF es(3) paired_events(3)]
      by (intro that [of "es @ request_events r w1"]) auto
  qed
qed


section \<open>What the other events of the service count\<close>

text \<open>From \<open>n\<close> to \<open>n'\<close> no lookup and no request was counted.\<close>

definition silent_step :: "('s, 'o, 'l) node \<Rightarrow> ('s, 'o, 'l) node \<Rightarrow> bool" where
  "silent_step n n' \<longleftrightarrow> (\<exists>es. wevents (nWorld n') = wevents (nWorld n) @ es \<and> list_all plain es)"

lemma silent_step_same [simp]: "wevents (nWorld n') = wevents (nWorld n) \<Longrightarrow> silent_step n n'"
  by (simp add: silent_step_def)

lemma silent_step_rule: "silent_step n (snd (add_flush_rule D A d p w n))"
proof -
  obtain e fs st where a: "Store_AddRule (dStorage D) (dRules D) (wclock (nWorld n) (wticks (nWorld n)))
      (wclock (nWorld n) (Suc (wticks (nWorld n)))) d p (nFlush n, nStorage n) = (e, fs, st)"
    by (metis prod_cases3)
  then show ?thesis
    by (cases e) (simp_all add: add_flush_rule_def Let_def time_Now_def silent_step_def)
qed

lemma endpoint_silent: "silent_step n (snd (endpoint D A ep query body w n))"
  by (cases ep)
     (auto simp: FlushURL_def FlushPrefix_def FlushDomain_def Stat_def SingleflightCache_Delete_def Let_def
       time_Now_def silent_step_rule split: option.split list.split sum.split prod.split)

lemma other_silent: "silent_step n (hot_reload D cfg n)" "silent_step n (n\<lparr>nWorld := limiter_tick d (nWorld n)\<rparr>)"
  by (auto simp: hot_reload_def Update_def limiter_tick_def Let_def time_Now_def split: prod.split option.split)

lemma sys_step_events:
  assumes "node_inv n" "runs_once (dDo D)" "dRegistry D = plugin_registry X T"
  obtains es where "wevents (nWorld (sys_step D A ev n)) = wevents (nWorld n) @ es"
    "lookups d es = ok_requests d es" "paired es"
proof (cases "\<exists>r. ev = EvRequest r")
  case True
  then obtain r where r: "ev = EvRequest r" by blast
  show ?thesis by (rule bizHandler_events [OF assms, of r d]) (rule that, simp_all add: r)
next
  case False
  then have "silent_step n (sys_step D A ev n)"
    by (cases ev) (simp_all add: endpoint_silent other_silent)
  then obtain es where "wevents (nWorld (sys_step D A ev n)) = wevents (nWorld n) @ es" "list_all plain es"
    unfolding silent_step_def by blast
  with silent_counts [OF plain_silent] paired_plain show ?thesis by (intro that) auto
qed


section \<open>Properties\<close>

text \<open>
  C29: the metrics add up: in every state of the service that started with no event counted, for every
  domain, cache hits and misses together are the requests for that domain counted with status
  200. A request is counted under its \<open>Host\<close> header, port included. The histograms have one
  observation per hit, per miss, per successful pull and per counted request, so \<open>RequestDuration\<close>
  has two for each request that is served.
\<close>

theorem metrics_add_up:
  assumes "reachable D A n0 n" "node_inv n0" "runs_once (dDo D)" "dRegistry D = plugin_registry X T"
    and "wevents (nWorld n0) = []"
  shows "CacheHitsTotal (wevents (nWorld n)) d + CacheMissesTotal (wevents (nWorld n)) d =
      ok_requests d (wevents (nWorld n)) \<and>
    RequestDuration (wevents (nWorld n)) d ''true'' = CacheHitsTotal (wevents (nWorld n)) d \<and>
    RequestDuration (wevents (nWorld n)) d ''false'' = CacheMissesTotal (wevents (nWorld n)) d \<and>
    RequestDuration (wevents (nWorld n)) d [] = length (filter (is_request d) (wevents (nWorld n))) \<and>
    OriginPullDuration (wevents (nWorld n)) d = length (filter (is_pull d) (wevents (nWorld n)))"
proof -
  have "lookups d (wevents (nWorld n)) = ok_requests d (wevents (nWorld n)) \<and> paired (wevents (nWorld n))"
    using assms(1)
  proof induction
    case start
    with assms(5) silent_counts [of "[]" d] show ?case by (simp add: paired_Nil)
  next
    case (step n ev)
    have inv: "node_inv n" by (rule reachable_inv [OF step.hyps assms(2-4)])
    show ?case
      by (rule sys_step_events [OF inv assms(3,4), of A ev d]) (simp add: step.IH paired_append)
  qed
  then show ?thesis by (simp add: lookups_def paired_def)
qed

text \<open>A served request is observed twice in the one histogram.\<close>

lemma latency_observed_twice:
  assumes "CacheHitsTotal es d + CacheMissesTotal es d = ok_requests d es" "paired es"
  shows "RequestDuration es d ''true'' + RequestDuration es d ''false'' + RequestDuration es d [] =
    ok_requests d es + length (filter (is_request d) es)"
  using assms by (simp add: paired_def)

theorem metrics_add_up_witness:
  "let es = wevents (nWorld (sys_step (ex_deps (ex_origin 200 [])) ex_admin (EvRequest ex_req) ex_node))
   in CacheHitsTotal es ''a.com'' + CacheMissesTotal es ''a.com'' = ok_requests ''a.com'' es \<and>
      RequestDuration es ''a.com'' ''false'' = CacheMissesTotal es ''a.com''"
proof -
  have "dRegistry (ex_deps (ex_origin 200 [])) = plugin_registry ex_regexp ex_tb" "wevents (nWorld ex_node) = []"
    by (simp_all add: ex_world_def)
  from metrics_add_up [OF reachable.step [OF reachable.start] ex_node_inv ex_runs_once this]
  show ?thesis unfolding Let_def by blast
qed

text \<open>
  The gauge of the flush rules of a domain is right after an admin call that succeeded, but a
  cleanup does not set it.
\<close>

lemma gauge_after_rule:
  assumes "wStatus w = None" "wStatus (fst (add_flush_rule D A d p w n)) = Some 204"
  shows "FlushRulesTotal (wevents (nWorld (snd (add_flush_rule D A d p w n)))) d v =
    length (rules_of (nFlush (snd (add_flush_rule D A d p w n))) d)"
proof -
  obtain e fs st where a: "Store_AddRule (dStorage D) (dRules D) (wclock (nWorld n) (wticks (nWorld n)))
      (wclock (nWorld n) (Suc (wticks (nWorld n)))) d p (nFlush n, nStorage n) = (e, fs, st)"
    by (metis prod_cases3)
  show ?thesis
  proof (cases e)
    case None
    with a show ?thesis
      by (simp add: add_flush_rule_def Let_def time_Now_def FlushRulesTotal_append Store_RuleCount_def)
  next
    case (Some x)
    have "wStatus (http_Error msg 500 w) = Some 500" for msg using http_Error_fresh [OF assms(1)] by simp
    with a Some assms(2) show ?thesis by (simp add: add_flush_rule_def Let_def time_Now_def)
  qed
qed

lemma gauge_after_reload:
  "FlushRulesTotal (wevents (nWorld (hot_reload D cfg n))) d v = FlushRulesTotal (wevents (nWorld n)) d v"
  by (simp add: hot_reload_def Update_def Let_def time_Now_def split: prod.split)

end
