(* ===== verification/Lifecycle.thy ===== *)
theory Lifecycle
  imports System
begin

text \<open>
  Starting and stopping the two HTTP servers: \<open>New\<close>, \<open>Start\<close> and \<open>Shutdown\<close> of \<open>server/server.go\<close> and
  the end of \<open>main\<close> (\<open>src/cmd/server/main.go\<close>). An \<open>http.Server\<close> is its address, its phase and the
  number of requests in progress, with the documented behaviour of \<open>ListenAndServe\<close> and \<open>Shutdown\<close>:
  shutting down closes the listener at once, waits for the requests in progress, and gives up when
  its context has expired. Whether an address can be bound is the parameter \<open>bind\<close>.

  The main goroutine, the two goroutines of \<open>Start\<close> and the requests run concurrently; the next
  action of any of them may come at any time.
\<close>

section \<open>Servers\<close>

datatype serve_phase = Unstarted | Listening | ListenFailed | Draining | Closed

record http_server =
  hsAddr :: string
  hsPhase :: serve_phase
  hsActive :: nat

record Servers =
  biz :: http_server
  adm :: http_server

definition New_Servers :: "Config \<Rightarrow> Servers" where
  "New_Servers cfg =
     \<lparr>biz = \<lparr>hsAddr = srvAddr (cfgServer cfg), hsPhase = Unstarted, hsActive = 0\<rparr>,
      adm = \<lparr>hsAddr = admAddr (cfgAdmin cfg), hsPhase = Unstarted, hsActive = 0\<rparr>\<rparr>"

datatype serve_err = ErrServerClosed | ListenError string | CtxExpired

text \<open>What is logged at level error.\<close>

datatype error_log = ServeError string serve_err | ShutdownError string serve_err

text \<open>\<open>ListenAndServe\<close> up to the point where it accepts requests; \<open>None\<close> says that it does.\<close>

definition ListenAndServe :: "(string \<Rightarrow> bool) \<Rightarrow> http_server \<Rightarrow> serve_err option \<times> http_server" where
  "ListenAndServe bind s =
     (if hsPhase s = Unstarted then
        (if bind (hsAddr s) then (None, s\<lparr>hsPhase := Listening\<rparr>)
         else (Some (ListenError (hsAddr s)), s\<lparr>hsPhase := ListenFailed\<rparr>))
      else (Some ErrServerClosed, s))"

text \<open>A goroutine of \<open>Start\<close>: \<open>ErrServerClosed\<close> is not an error.\<close>

definition serve :: "(string \<Rightarrow> bool) \<Rightarrow> string \<Rightarrow> http_server \<Rightarrow> error_log list \<times> http_server" where
  "serve bind name s =
     (case ListenAndServe bind s of
        (None, s1) \<Rightarrow> ([], s1)
      | (Some e, s1) \<Rightarrow> (if e \<noteq> ErrServerClosed then [ServeError name e] else [], s1))"

text \<open>\<open>http.Server.Shutdown\<close>: its beginning, and its return, where it can return.\<close>

definition begin_Shutdown :: "http_server \<Rightarrow> http_server" where
  "begin_Shutdown s = s\<lparr>hsPhase := Draining\<rparr>"

definition end_Shutdown :: "bool \<Rightarrow> http_server \<Rightarrow> (serve_err option \<times> http_server) option" where
  "end_Shutdown expired s =
     (if hsActive s = 0 then Some (None, s\<lparr>hsPhase := Closed\<rparr>)
      else if expired then Some (Some CtxExpired, s) else None)"

section \<open>The process\<close>

datatype main_stage = Serving | StopBiz time | StopAdm time | Exited

record process =
  prServers :: Servers
  prMain :: main_stage
  prLog :: "error_log list"

definition start_process :: "Config \<Rightarrow> process" where
  "start_process cfg = \<lparr>prServers = New_Servers cfg, prMain = Serving, prLog = []\<rparr>"

text \<open>The returns of the two calls in \<open>Shutdown\<close>: an error is logged, and the next call begins.\<close>

definition shutdown_log :: "string \<Rightarrow> serve_err option \<Rightarrow> error_log list" where
  "shutdown_log name e = (case e of None \<Rightarrow> [] | Some x \<Rightarrow> [ShutdownError name x])"

definition Servers_Shutdown_step :: "time \<Rightarrow> process \<Rightarrow> process option" where
  "Servers_Shutdown_step now p =
     (case prMain p of
        StopBiz deadline \<Rightarrow>
          (case end_Shutdown (deadline \<le> now) (biz (prServers p)) of
             None \<Rightarrow> None
           | Some (e, s) \<Rightarrow>
               Some \<lparr>prServers = \<lparr>biz = s, adm = begin_Shutdown (adm (prServers p))\<rparr>,
                     prMain = StopAdm deadline, prLog = prLog p @ shutdown_log ''biz'' e\<rparr>)
      | StopAdm deadline \<Rightarrow>
          (case end_Shutdown (deadline \<le> now) (adm (prServers p)) of
             None \<Rightarrow> None
           | Some (e, s) \<Rightarrow>
               Some \<lparr>prServers = (prServers p)\<lparr>adm := s\<rparr>, prMain = Exited,
                     prLog = prLog p @ shutdown_log ''admin'' e\<rparr>)
      | _ \<Rightarrow> None)"

text \<open>\<open>sig := <-quit\<close>, the context of 30 seconds, and the call of \<open>Shutdown\<close>.\<close>

definition main_signal :: "time \<Rightarrow> process \<Rightarrow> process option" where
  "main_signal now p =
     (if prMain p = Serving then
        Some (p\<lparr>prServers := (prServers p)\<lparr>biz := begin_Shutdown (biz (prServers p))\<rparr>,
                prMain := StopBiz (Add now (30 * Second))\<rparr>)
      else None)"

fun accept :: "http_server \<Rightarrow> http_server option" where
  "accept s = (if hsPhase s = Listening then Some (s\<lparr>hsActive := Suc (hsActive s)\<rparr>) else None)"

fun finish :: "http_server \<Rightarrow> http_server option" where
  "finish s = (if 0 < hsActive s then Some (s\<lparr>hsActive := hsActive s - 1\<rparr>) else None)"

datatype life_action =
    ServeBiz | ServeAdm                 \<comment> \<open>a goroutine of \<open>Start\<close> runs\<close>
  | AcceptBiz | AcceptAdm | FinishBiz | FinishAdm
  | Signal time | ShutdownReturns time

fun life_step :: "(string \<Rightarrow> bool) \<Rightarrow> life_action \<Rightarrow> process \<Rightarrow> process option" where
  "life_step bind ServeBiz p =
     (case serve bind ''biz'' (biz (prServers p)) of
        (l, s) \<Rightarrow> Some (p\<lparr>prServers := (prServers p)\<lparr>biz := s\<rparr>, prLog := prLog p @ l\<rparr>))"
| "life_step bind ServeAdm p =
     (case serve bind ''admin'' (adm (prServers p)) of
        (l, s) \<Rightarrow> Some (p\<lparr>prServers := (prServers p)\<lparr>adm := s\<rparr>, prLog := prLog p @ l\<rparr>))"
| "life_step bind AcceptBiz p =
     map_option (\<lambda>s. p\<lparr>prServers := (prServers p)\<lparr>biz := s\<rparr>\<rparr>) (accept (biz (prServers p)))"
| "life_step bind AcceptAdm p =
     map_option (\<lambda>s. p\<lparr>prServers := (prServers p)\<lparr>adm := s\<rparr>\<rparr>) (accept (adm (prServers p)))"
| "life_step bind FinishBiz p =
     map_option (\<lambda>s. p\<lparr>prServers := (prServers p)\<lparr>biz := s\<rparr>\<rparr>) (finish (biz (prServers p)))"
| "life_step bind FinishAdm p =
     map_option (\<lambda>s. p\<lparr>prServers := (prServers p)\<lparr>adm := s\<rparr>\<rparr>) (finish (adm (prServers p)))"
| "life_step bind (Signal now) p = main_signal now p"
| "life_step bind (ShutdownReturns now) p = Servers_Shutdown_step now p"

inductive lives :: "(string \<Rightarrow> bool) \<Rightarrow> process \<Rightarrow> life_action list \<Rightarrow> process \<Rightarrow> bool" for bind where
  lives_start: "lives bind p [] p"
| lives_step: "lives bind p as p1 \<Longrightarrow> life_step bind a p1 = Some p2 \<Longrightarrow> lives bind p (as @ [a]) p2"

text \<open>The run of a list of actions, where every action is possible.\<close>

fun life_run :: "(string \<Rightarrow> bool) \<Rightarrow> life_action list \<Rightarrow> process \<Rightarrow> process option" where
  "life_run bind [] p = Some p"
| "life_run bind (a # as) p = (case life_step bind a p of None \<Rightarrow> None | Some p1 \<Rightarrow> life_run bind as p1)"

lemma life_run_append:
  "life_run bind (as @ bs) p = (case life_run bind as p of None \<Rightarrow> None | Some p1 \<Rightarrow> life_run bind bs p1)"
  by (induction as arbitrary: p) (auto split: option.split)

lemma lives_iff: "lives bind p as p' \<longleftrightarrow> life_run bind as p = Some p'"
proof
  show "lives bind p as p' \<Longrightarrow> life_run bind as p = Some p'"
    by (induction rule: lives.induct) (simp_all add: life_run_append)
  show "life_run bind as p = Some p' \<Longrightarrow> lives bind p as p'"
  proof (induction as arbitrary: p' rule: rev_induct)
    case (snoc a as)
    then show ?case by (auto simp: life_run_append split: option.splits intro: lives_step)
  qed (simp add: lives_start)
qed


section \<open>Invariant\<close>

text \<open>
  Once its shutdown began a server accepts nothing; when the shutdown returned without an error,
  nothing is in progress.
\<close>

definition stopping :: "http_server \<Rightarrow> bool" where
  "stopping s \<longleftrightarrow> hsPhase s = Draining \<or> hsPhase s = Closed"

definition drained :: "string \<Rightarrow> http_server \<Rightarrow> error_log list \<Rightarrow> bool" where
  "drained name s l \<longleftrightarrow> stopping s \<and> (ShutdownError name CtxExpired \<in> set l \<or> hsPhase s = Closed \<and> hsActive s = 0)"

fun stage_ok :: "main_stage \<Rightarrow> Servers \<Rightarrow> error_log list \<Rightarrow> bool" where
  "stage_ok Serving v l \<longleftrightarrow> True"
| "stage_ok (StopBiz d) v l \<longleftrightarrow> stopping (biz v)"
| "stage_ok (StopAdm d) v l \<longleftrightarrow> drained ''biz'' (biz v) l \<and> stopping (adm v)"
| "stage_ok Exited v l \<longleftrightarrow> drained ''biz'' (biz v) l \<and> drained ''admin'' (adm v) l"

lemma stopping_serve: "stopping s \<Longrightarrow> serve bind name s = ([], s)"
  by (auto simp: stopping_def serve_def ListenAndServe_def)

lemma stopping_accept: "stopping s \<Longrightarrow> accept s = None"
  by (auto simp: stopping_def)

lemma stopping_finish: "finish s = Some s' \<Longrightarrow> stopping s' = stopping s \<and> hsPhase s' = hsPhase s \<and> hsActive s' < hsActive s"
  by (auto simp: stopping_def split: if_splits)

lemma drained_finish: "finish s = Some s' \<Longrightarrow> drained name s l \<Longrightarrow> drained name s' l"
  using stopping_finish [of s s'] by (auto simp: drained_def)

lemma drained_append: "drained name s l \<Longrightarrow> drained name s (l @ l')"
  by (auto simp: drained_def)

lemma drained_stopping: "drained name s l \<Longrightarrow> stopping s"
  by (simp add: drained_def)

lemma end_drained:
  "end_Shutdown x s = Some (e, s') \<Longrightarrow> stopping s \<Longrightarrow> drained name s' (l @ shutdown_log name e)"
  by (auto simp: end_Shutdown_def drained_def stopping_def shutdown_log_def split: if_splits)

lemma begin_stopping [simp]: "stopping (begin_Shutdown s)"
  by (simp add: begin_Shutdown_def stopping_def)

lemma life_step_ok:
  assumes "life_step bind a p = Some p'" "stage_ok (prMain p) (prServers p) (prLog p)"
  shows "stage_ok (prMain p') (prServers p') (prLog p')"
proof (cases a)
  case ServeBiz
  with assms show ?thesis
    by (cases "prMain p") (auto simp: stopping_serve drained_append drained_stopping split: prod.splits)
next
  case ServeAdm
  with assms show ?thesis
    by (cases "prMain p") (auto simp: stopping_serve drained_append drained_stopping split: prod.splits)
next
  case AcceptBiz
  with assms show ?thesis
    by (cases "prMain p") (auto simp del: accept.simps simp: stopping_accept drained_stopping)
next
  case AcceptAdm
  with assms show ?thesis
    by (cases "prMain p") (auto simp del: accept.simps simp: stopping_accept drained_stopping)
next
  case FinishBiz
  with assms show ?thesis
    by (cases "prMain p") (auto simp del: finish.simps simp: drained_finish dest: stopping_finish)
next
  case FinishAdm
  with assms show ?thesis
    by (cases "prMain p") (auto simp del: finish.simps simp: drained_finish dest: stopping_finish)
next
  case (Signal now)
  with assms show ?thesis by (auto simp: main_signal_def split: if_splits)
next
  case (ShutdownReturns now)
  with assms show ?thesis
    by (auto simp: Servers_Shutdown_step_def drained_append end_drained
        split: main_stage.splits option.splits)
qed

lemma lives_ok: "lives bind p as p' \<Longrightarrow> stage_ok (prMain p) (prServers p) (prLog p) \<Longrightarrow>
  stage_ok (prMain p') (prServers p') (prLog p')"
  by (induction rule: lives.induct) (auto intro: life_step_ok)

text \<open>Once the shutdown of a server began it stays so, and its requests become fewer.\<close>

lemma stopping_stays:
  assumes "life_step bind a p = Some p'" "stage_ok (prMain p) (prServers p) (prLog p)" "stopping (biz (prServers p))"
  shows "stopping (biz (prServers p')) \<and> hsActive (biz (prServers p')) \<le> hsActive (biz (prServers p))"
proof (cases a)
  case AcceptBiz
  with assms show ?thesis by (simp del: accept.simps add: stopping_accept)
next
  case FinishBiz
  with assms stopping_finish show ?thesis by (fastforce simp del: finish.simps)
qed (use assms in \<open>auto simp: stopping_serve main_signal_def Servers_Shutdown_step_def end_Shutdown_def stopping_def
      begin_Shutdown_def simp del: accept.simps finish.simps split: prod.splits if_splits main_stage.splits option.splits\<close>)


section \<open>Properties\<close>

text \<open>
  C16: shutting down is graceful: in every run of the process, when \<open>main\<close> has returned from
  \<open>Shutdown\<close> without a logged error, both servers are closed and every request they accepted is
  answered; and from any moment of the shutdown on, two returns at or after the deadline end it.
\<close>

theorem graceful_shutdown:
  assumes "lives bind (start_process cfg) as p"
  shows "(prMain p = Exited \<longrightarrow>
      ShutdownError ''biz'' CtxExpired \<in> set (prLog p) \<or> ShutdownError ''admin'' CtxExpired \<in> set (prLog p) \<or>
      hsPhase (biz (prServers p)) = Closed \<and> hsActive (biz (prServers p)) = 0 \<and>
      hsPhase (adm (prServers p)) = Closed \<and> hsActive (adm (prServers p)) = 0) \<and>
    (\<forall>d t. prMain p = StopBiz d \<longrightarrow> d \<le> t \<longrightarrow>
      (\<exists>p'. life_run bind [ShutdownReturns t, ShutdownReturns t] p = Some p' \<and> prMain p' = Exited))"
proof (intro conjI impI allI)
  have ok: "stage_ok (prMain p) (prServers p) (prLog p)"
    by (rule lives_ok [OF assms]) (simp add: start_process_def)
  then show "ShutdownError ''biz'' CtxExpired \<in> set (prLog p) \<or> ShutdownError ''admin'' CtxExpired \<in> set (prLog p) \<or>
      hsPhase (biz (prServers p)) = Closed \<and> hsActive (biz (prServers p)) = 0 \<and>
      hsPhase (adm (prServers p)) = Closed \<and> hsActive (adm (prServers p)) = 0" if "prMain p = Exited"
    using that by (auto simp: drained_def)
  show "\<exists>p'. life_run bind [ShutdownReturns t, ShutdownReturns t] p = Some p' \<and> prMain p' = Exited"
    if "prMain p = StopBiz d" "d \<le> t" for d t
    using that by (simp add: Servers_Shutdown_step_def end_Shutdown_def)
qed

definition ex_life :: "life_action list" where
  "ex_life = [ServeBiz, ServeAdm, AcceptBiz, Signal 5, AcceptAdm, FinishBiz, ShutdownReturns 6, FinishAdm, ShutdownReturns 7]"

theorem graceful_shutdown_witness:
  "\<exists>p. lives (\<lambda>_. True) (start_process ex_config) ex_life p \<and> prMain p = Exited \<and>
    hsActive (biz (prServers p)) = 0 \<and> hsActive (adm (prServers p)) = 0"
proof -
  have "map_option (\<lambda>p. (prMain p, prLog p)) (life_run (\<lambda>_. True) ex_life (start_process ex_config)) = Some (Exited, [])"
    by code_simp
  then obtain p where p: "life_run (\<lambda>_. True) ex_life (start_process ex_config) = Some p" "prMain p = Exited" "prLog p = []"
    by auto
  then have "lives (\<lambda>_. True) (start_process ex_config) ex_life p" by (simp add: lives_iff)
  from graceful_shutdown [OF this] this p show ?thesis by auto
qed

text \<open>
  An address that cannot be bound is only logged: \<open>main\<close> goes on without that server.
\<close>

lemma bind_failure_keeps_running:
  assumes "\<not> bind (srvAddr (cfgServer cfg))"
  shows "life_run bind [ServeBiz] (start_process cfg) =
    Some (start_process cfg\<lparr>prServers := (New_Servers cfg)\<lparr>biz := (biz (New_Servers cfg))\<lparr>hsPhase := ListenFailed\<rparr>\<rparr>,
      prLog := [ServeError ''biz'' (ListenError (srvAddr (cfgServer cfg)))]\<rparr>)"
  using assms by (simp add: start_process_def New_Servers_def serve_def ListenAndServe_def)

text \<open>
  The two calls share one context: when the business server uses up the 30 seconds, the requests
  of the admin server get no time at all.
\<close>

lemma no_grace_for_admin:
  assumes "prMain p = StopBiz d" "d \<le> t" "0 < hsActive (biz (prServers p))" "0 < hsActive (adm (prServers p))"
  shows "\<exists>p'. life_run bind [ShutdownReturns t, ShutdownReturns t] p = Some p' \<and>
    prLog p' = prLog p @ [ShutdownError ''biz'' CtxExpired, ShutdownError ''admin'' CtxExpired] \<and>
    hsActive (adm (prServers p')) = hsActive (adm (prServers p))"
  using assms by (simp add: Servers_Shutdown_step_def end_Shutdown_def begin_Shutdown_def shutdown_log_def)

end
