(* ===== verification/Reload.thy ===== *)
theory Reload
  imports Examples
begin

text \<open>
  The goroutine of \<open>main\<close> that runs \<open>config.Watch\<close> with the hot-reload callback, beside the handlers:
  the loop of \<open>Watch\<close> (\<open>config/loader.go\<close>) is cut into its turns, and requests, admin calls and
  limiter ticks come between them. A loop that has ended, or never started, reloads no more.
\<close>

section \<open>The loop of Watch, one turn at a time\<close>

text \<open>The state of \<open>onChange\<close>, and whether the loop is running.\<close>

definition Watch_turn ::
  "(bytes \<Rightarrow> Config option) \<Rightarrow> string \<Rightarrow> (Config \<Rightarrow> 'a \<Rightarrow> 'a) \<Rightarrow> watch_event \<Rightarrow> 'a \<times> bool \<Rightarrow> 'a \<times> bool" where
  "Watch_turn yaml path onChange e = (\<lambda>(s, running).
     if \<not> running then (s, False)
     else (case e of
             ChannelClosed \<Rightarrow> (s, False)
           | FsError \<Rightarrow> (s, True)
           | SigHup b \<Rightarrow> (reload yaml path onChange b s, True)
           | FsEvent wr cr b \<Rightarrow>
               (if wr \<or> cr then reload yaml path onChange b s else s, True)))"

lemma Watch_turn_simps:
  "Watch_turn yaml path f e (s, False) = (s, False)"
  "Watch_turn yaml path f ChannelClosed (s, r) = (s, False)"
  "Watch_turn yaml path f FsError (s, True) = (s, True)"
  "Watch_turn yaml path f (SigHup b) (s, True) = (reload yaml path f b s, True)"
  "Watch_turn yaml path f (FsEvent wr cr b) (s, True) = (if wr \<or> cr then reload yaml path f b s else s, True)"
  by (simp_all add: Watch_turn_def)

lemma Watch_turn_ended: "fold (Watch_turn yaml path f) es (s, False) = (s, False)"
  by (induction es) (simp_all add: Watch_turn_simps)

lemma Watch_turns: "Watch yaml path f es s = fst (fold (Watch_turn yaml path f) es (s, True))"
proof (induction es arbitrary: s)
  case (Cons e es)
  then show ?case by (cases e) (simp_all add: Watch_turn_simps Watch_turn_ended)
qed simp

text \<open>The configuration an event of the watcher puts in force, if any.\<close>

fun file_of :: "watch_event \<Rightarrow> bytes option" where
  "file_of (FsEvent wr cr b) = (if wr \<or> cr then b else None)"
| "file_of (SigHup b) = b"
| "file_of _ = None"

definition loaded :: "(bytes \<Rightarrow> Config option) \<Rightarrow> watch_event \<Rightarrow> Config option" where
  "loaded yaml e = (case file_of e of None \<Rightarrow> None | Some b \<Rightarrow> map_option Defaults (yaml b))"

lemma loaded_ok: "loaded yaml e = Some cfg \<Longrightarrow> config_ok cfg"
  by (auto simp: loaded_def Defaults_config_ok split: option.splits)

lemma Watch_turn_running:
  "Watch_turn yaml path onChange e (s, True) =
     (case loaded yaml e of None \<Rightarrow> s | Some cfg \<Rightarrow> onChange cfg s, e \<noteq> ChannelClosed)"
  by (cases e) (auto simp: Watch_turn_def loaded_def reload_def Load_def split: option.split)


section \<open>The process\<close>

datatype proc_event =
    Serve sys_event
  | Turn watch_event

definition proc_step ::
  "('s, 'o, 'tb limits) deps \<Rightarrow> admin \<Rightarrow> (bytes \<Rightarrow> Config option) \<Rightarrow> string \<Rightarrow> proc_event \<Rightarrow>
   ('s, 'o, 'tb limits) node \<times> bool \<Rightarrow> ('s, 'o, 'tb limits) node \<times> bool" where
  "proc_step D A yaml path pe = (\<lambda>(n, running).
     case pe of
       Serve ev \<Rightarrow> (sys_step D A ev n, running)
     | Turn e \<Rightarrow> Watch_turn yaml path (hot_reload D) e (n, running))"

text \<open>Reloads come from the watcher only.\<close>

definition served_only :: "proc_event list \<Rightarrow> bool" where
  "served_only pes \<longleftrightarrow> (\<forall>ev. Serve ev \<in> set pes \<longrightarrow> \<not> is_reload ev)"

lemma served_only_simps [simp]:
  "served_only []"
  "served_only (Serve ev # pes) \<longleftrightarrow> \<not> is_reload ev \<and> served_only pes"
  "served_only (Turn e # pes) \<longleftrightarrow> served_only pes"
  by (auto simp: served_only_def)

text \<open>The specification: the last content of the file that loaded while the loop was running.\<close>

fun in_force :: "(bytes \<Rightarrow> Config option) \<Rightarrow> proc_event list \<Rightarrow> bool \<Rightarrow> Config \<Rightarrow> Config" where
  "in_force yaml [] running cfg = cfg"
| "in_force yaml (Serve ev # pes) running cfg = in_force yaml pes running cfg"
| "in_force yaml (Turn e # pes) running cfg =
     (if \<not> running then cfg
      else in_force yaml pes (e \<noteq> ChannelClosed) (case loaded yaml e of None \<Rightarrow> cfg | Some cfg' \<Rightarrow> cfg'))"

lemma in_force_ended [simp]: "in_force yaml pes False cfg = cfg"
proof (induction pes)
  case (Cons pe pes)
  then show ?case by (cases pe) simp_all
qed simp

lemma in_force_ok: "config_ok cfg \<Longrightarrow> config_ok (in_force yaml pes running cfg)"
  by (induction yaml pes running cfg rule: in_force.induct) (auto simp: loaded_ok split: option.splits)


section \<open>What each event does to the domain table\<close>

lemma bizHandler_nDomains: "nDomains (snd (bizHandler D r w n)) = nDomains n"
proof -
  obtain es where "snd (bizHandler D r w n) =
     (let n1 = snd (ServeHTTP D r (wrapped w) n)
      in n1\<lparr>nWorld := emits es (nWorld n1)\<rparr>)"
    using bizHandler_node by blast
  moreover have "nDomains (snd (ServeHTTP D r v n)) = nDomains n" for v
    by (auto simp: ServeHTTP_def Let_def serve_cached_frame split: option.split prod.split)
  ultimately show ?thesis by (simp add: Let_def)
qed

lemma endpoint_nDomains: "nDomains (snd (endpoint D A ep query body w n)) = nDomains n"
  by (cases ep) (auto simp: FlushURL_def FlushPrefix_def FlushDomain_def Stat_def Let_def time_Now_def
      add_flush_rule_state split: option.split list.split sum.split prod.split)

lemma sys_step_nDomains: "\<not> is_reload ev \<Longrightarrow> nDomains (sys_step D A ev n) = nDomains n"
  by (cases ev) (simp_all add: bizHandler_nDomains endpoint_nDomains)

lemma hot_reload_nDomains: "nDomains (hot_reload D cfg n) = domain_table (cfgDomains cfg) Map.empty"
  by (auto simp: hot_reload_def Let_def time_Now_def Update_def split: prod.split)

definition table_of :: "Config \<Rightarrow> string \<rightharpoonup> DomainConfig" where
  "table_of cfg = domain_table (cfgDomains cfg) Map.empty"

lemma table_of_ok:
  assumes "config_ok cfg" "table_of cfg d = Some c" shows "Domain c = d \<and> domain_ok c"
proof -
  from assms(2) have "find (\<lambda>c. Domain c = d) (rev (cfgDomains cfg)) = Some c"
    by (simp add: table_of_def domain_table_find)
  then have "c \<in> set (cfgDomains cfg)" "Domain c = d"
    by (auto simp: find_Some_iff rev_nth)
  with assms(1) show ?thesis by (simp add: config_ok_def list_all_iff)
qed

lemma proc_table:
  assumes "served_only pes" "nDomains n = table_of cfg"
  shows "nDomains (fst (fold (proc_step D A yaml path) pes (n, running))) = table_of (in_force yaml pes running cfg)"
  using assms
proof (induction pes arbitrary: n running cfg)
  case (Cons pe pes)
  show ?case
  proof (cases pe)
    case (Serve ev)
    with Cons.prems Cons.IH [of "sys_step D A ev n" cfg running] show ?thesis
      by (simp add: proc_step_def sys_step_nDomains)
  next
    case (Turn e)
    show ?thesis
    proof (cases running)
      case True
      define n1 where "n1 = (case loaded yaml e of None \<Rightarrow> n | Some cfg' \<Rightarrow> hot_reload D cfg' n)"
      have "nDomains n1 = table_of (case loaded yaml e of None \<Rightarrow> cfg | Some cfg' \<Rightarrow> cfg')"
        using Cons.prems(2) by (simp add: n1_def hot_reload_nDomains table_of_def split: option.split)
      from Cons.IH [OF _ this, of "e \<noteq> ChannelClosed"] Cons.prems(1) True Turn show ?thesis
        by (simp add: proc_step_def Watch_turn_running flip: n1_def)
    next
      case False
      with Cons.IH [of n cfg False] Cons.prems Turn show ?thesis
        by (simp add: proc_step_def Watch_turn_def)
    qed
  qed
qed simp

text \<open>A turn whose file does not load leaves the service as it is, and ends the loop only if a channel closed.\<close>

lemma bad_file_keeps_service:
  assumes "loaded yaml e = None"
  shows "proc_step D A yaml path (Turn e) (n, running) = (n, running \<and> e \<noteq> ChannelClosed)"
  using assms by (cases running) (simp_all add: proc_step_def Watch_turn_running Watch_turn_simps)


section \<open>Properties\<close>

text \<open>
  C15: after any interleaving of requests, admin calls and limiter ticks with the turns of the
  watcher, the domain table is the one of the configuration in force: the last content of the file
  that loaded while the watcher was running, else the one of the start. Every domain the
  handlers can see in it is filed under its own name and complete: positive timeout and default
  lifetime, no negative retry count.
\<close>

theorem config_in_force:
  assumes "startup D0 AC yaml readfile path init o1 wd = Some (cfg, D, A, n0)" "served_only pes"
    and "fold (proc_step D A yaml path) pes (n0, running) = (n, running')"
  shows "nDomains n = table_of (in_force yaml pes running cfg) \<and>
    (\<forall>d c. nDomains n d = Some c \<longrightarrow> Domain c = d \<and> domain_ok c)"
proof -
  note s = startup_SomeD [OF assms(1)]
  have "nDomains n0 = table_of cfg"
    using s(1) by (auto simp: boot_def Let_def Update_def table_of_def split: if_splits option.splits prod.splits)
  from proc_table [OF assms(2) this, of D A yaml path running] assms(3)
  have "nDomains n = table_of (in_force yaml pes running cfg)" by simp
  with table_of_ok [OF in_force_ok [OF s(2)]] show ?thesis by auto
qed

definition ex_yaml :: "bytes \<Rightarrow> Config option" where
  "ex_yaml b = (if b = ''one'' then Some (ex_config\<lparr>cfgDomains := [ex_domain]\<rparr>)
     else if b = ''two'' then Some (ex_config\<lparr>cfgDomains := [ex_domain\<lparr>Domain := ''b.com'', DefaultTTL := 0\<rparr>]\<rparr>)
     else None)"

definition ex_turns :: "proc_event list" where
  "ex_turns = [Serve (EvRequest ex_req), Turn (FsEvent True False (Some ''two'')), Serve (EvLimiterTick ''a.com''),
     Turn (SigHup (Some ''broken'')), Turn ChannelClosed, Turn (SigHup (Some ''one''))]"

theorem config_in_force_witness:
  "\<exists>cfg D A n0 n. startup (ex_deps ex_down) (aCodec ex_admin) ex_yaml (\<lambda>_. Some ''one'') ''config.yaml''
      (\<lambda>_. Some ex_fs) () ex_world = Some (cfg, D, A, n0) \<and>
    fst (fold (proc_step D A ex_yaml ''config.yaml'') ex_turns (n0, True)) = n \<and>
    nDomains n ''a.com'' = None \<and> map_option DefaultTTL (nDomains n ''b.com'') = Some Hour"
proof -
  let ?start = "startup (ex_deps ex_down) (aCodec ex_admin) ex_yaml (\<lambda>_. Some ''one'') ''config.yaml''
      (\<lambda>_. Some ex_fs) () ex_world"
  obtain cfg D A n0 where b: "?start = Some (cfg, D, A, n0)"
    using ex_load by (auto simp: startup_def Load_def ex_yaml_def ex_config_def Defaults_def default_str_def boot_def Let_def)
  have so: "served_only ex_turns" by (simp add: ex_turns_def)
  obtain n r where n: "fold (proc_step D A ex_yaml ''config.yaml'') ex_turns (n0, True) = (n, r)"
    by (cases "fold (proc_step D A ex_yaml ''config.yaml'') ex_turns (n0, True)")
  have force: "in_force ex_yaml ex_turns True cfg =
      Defaults (ex_config\<lparr>cfgDomains := [ex_domain\<lparr>Domain := ''b.com'', DefaultTTL := 0\<rparr>]\<rparr>)"
    by (simp add: ex_turns_def loaded_def ex_yaml_def)
  have "nDomains n = table_of (in_force ex_yaml ex_turns True cfg)"
    using config_in_force [OF b so n] by blast
  then have "nDomains n ''a.com'' = None" "map_option DefaultTTL (nDomains n ''b.com'') = Some Hour"
    by (simp_all add: force table_of_def Defaults_def ex_config_def ex_domain_def Defaults_domain_def)
  with b n show ?thesis by auto
qed

end
