(* ===== verification/Crash.thy ===== *)
theory Crash
  imports LocalFSConc Examples Provenance
begin

text \<open>
  The process dies while calls of the storage are in progress: the disk stays as the system calls
  made so far leave it, the rest of the state is gone, and \<open>main\<close> starts again on that disk
  (\<open>storage/localfs.go\<close>, \<open>flush/store.go\<close>, \<open>src/cmd/server/main.go\<close>). Only the death of the process
  is modelled: what was written is there after the restart.
\<close>

section \<open>The disk after a crash\<close>

definition crashed :: "codec \<Rightarrow> fs_call list \<Rightarrow> localfs \<Rightarrow> localfs \<Rightarrow> bool" where
  "crashed C cs s s' \<longleftrightarrow> (\<exists>cs'. fs_concs C (cs, s) (cs', s'))"

text \<open>The content of a key is what it was or the complete body of a write that had begun.\<close>

lemma crash_content:
  assumes "crashed C cs s s'" "list_all fs_call_start cs" "fresh_draws s'" "content C s' k = Some b"
  shows "content C s k = Some b \<or> written C cs (keyToPath C k) b"
proof -
  obtain cs' where run: "fs_concs C (cs, s) (cs', s')" using assms(1) by (auto simp: crashed_def)
  have "conc_good C (\<lambda>p. {b. (\<exists>t. map_of (files s) p = Some (b, t)) \<or> written C cs p b}) (cs', s')"
    by (rule fs_concs_good [OF run conc_good_start [OF assms(2)]]) (simp add: assms(3))
  with assms(4) show ?thesis by (fastforce simp: conc_good_def disk_good_def content_def)
qed

text \<open>No system call leaves two entries of one name.\<close>

lemma crash_lfs_inv:
  assumes "crashed C cs s s'" "lfs_inv s" shows "lfs_inv s'"
proof -
  have one: "fs_conc C x y \<Longrightarrow> lfs_inv (snd x) \<Longrightarrow> lfs_inv (snd y)" for x y
    by (induction rule: fs_conc.induct) (auto dest: fs_step_touches simp: touches_def)
  have "fs_concs C x y \<Longrightarrow> lfs_inv (snd x) \<Longrightarrow> lfs_inv (snd y)" for x y
    by (induction rule: rtranclp_induct) (use one in blast)+
  with assms show ?thesis by (fastforce simp: crashed_def)
qed

text \<open>
  The flush rules can be lost: between the truncation and the write of its metadata the file of the
  rules cannot be read, and \<open>Load\<close> takes that for a store without rules.
\<close>

lemma crash_in_persist_loses_rules:
  assumes "lfs_reliable s" "metaMarshal C rules_metadata = Some d" "metaUnmarshal C [] = None"
  shows "\<exists>s'. crashed C [WriteStart persistKey (bytes_reader data) (Some rules_metadata)] s s' \<and>
    content C s' persistKey = Some data \<and>
    Store_Load (LocalFS_ops C) J (New, s') = (None, New, s') \<and>
    rnd s' = rnd s \<and> rndpos s' = Suc (rndpos s)"
proof (rule write_truncates [OF assms(1,2), where r = "bytes_reader data" and k = persistKey])
  fix t s4
  assume run: "\<And>cs y. fs_concs C (WriteMetaData (keyToPath C persistKey) t d None # cs, s4) y \<Longrightarrow>
      fs_concs C (WriteStart persistKey (bytes_reader data) (Some rules_metadata) # cs, s) y"
    and s4: "faults s4 = []" "map_of (files s4) (keyToPath C persistKey) = Some (rd_data (bytes_reader data), osclock s)"
      "map_of (files s4) (keyToPath C persistKey @ ''.meta'') = Some ([], osclock s)"
    and rnd: "rnd s4 = rnd s" "rndpos s4 = Suc (rndpos s)"
  have "crashed C [WriteStart persistKey (bytes_reader data) (Some rules_metadata)] s s4"
    unfolding crashed_def using run [OF rtranclp.rtrancl_refl, of "[]"] by blast
  moreover have "Store_Load (LocalFS_ops C) J (New, s4) = (None, New, s4)"
    by (simp add: Store_Load_def LocalFS_ops_def read_truncated(3) [OF s4 assms(3)])
  ultimately show ?thesis using s4(2) rnd by (auto simp: content_def)
qed simp


section \<open>The restart\<close>

text \<open>
  \<open>main\<close> starts with an empty index and leaves every content file where it is. As only indexed keys
  are evicted, the files of the run before stay until their keys are written again.
\<close>

lemma boot_node:
  assumes "boot D init cfg o1 wd = Some (D1, n)" "dStorage D = LocalFS_ops C"
    and "init (stRootDir (cfgStorage cfg)) = Some s"
  shows "nStorage n = snd (LocalFS_Read C persistKey s)" "nCache n = NewLRUCache (MaxItems (cfgCache cfg))"
    "dStorage D1 = dStorage D" "dDo D1 = dDo D" "dRegistry D1 = dRegistry D"
  using assms by (auto simp: boot_def Let_def Update_def NewHandler_def Store_Load_def LocalFS_ops_def
      split: if_splits prod.splits sum.splits option.splits)

lemma boot_keeps_disk:
  assumes "boot D init cfg o1 wd = Some (D1, n)" "dStorage D = LocalFS_ops C"
    and "init (stRootDir (cfgStorage cfg)) = Some s"
  shows "cache_view (nCache n) = [] \<and> (\<forall>k. content C (nStorage n) k = content C s k)"
proof -
  have "content C (nStorage n) k = content C s k" for k
    unfolding boot_node(1) [OF assms] by (rule content_touches [OF LocalFS_Read_touches]) simp
  then show ?thesis by (simp add: boot_node(2) [OF assms])
qed

text \<open>
  Whatever the disk does later, every entry of the index is that of a request of the new run; and when
  the disk works, so is every body.
\<close>

lemma restart_index:
  assumes "boot D init cfg o1 wd = Some (D1, n)" "dStorage D = LocalFS_ops C"
    and "init (stRootDir (cfgStorage cfg)) = Some s" "node_inv n"
    and "runs_once (dDo D)" "dRegistry D = plugin_registry X T"
    and "reach ok K D1 A n tr n'" "entry_of n' k = Some m"
  shows "\<exists>b. origin_entry D1 tr k b m"
proof -
  have D1: "runs_once (dDo D1)" "dRegistry D1 = plugin_registry X T"
    using assms(5,6) boot_node(4,5) [OF assms(1-3)] by simp_all
  have "index_ok D1 tr n'"
    by (rule reach_index_ok [OF assms(7,4) D1]) (use boot_keeps_disk [OF assms(1-3)] in simp)
  moreover have "lru_inv (nCache n')" using reach_inv [OF assms(7,4) D1] by (simp add: node_inv_def)
  ultimately show ?thesis by (rule index_entry [OF _ _ assms(8)])
qed

lemma restart_content:
  assumes boot: "boot D init cfg o1 wd = Some (D1, n)" "dStorage D = LocalFS_ops C"
      "init (stRootDir (cfgStorage cfg)) = Some s" "config_ok cfg"
    and D: "runs_once (dDo D)" "dRegistry D = plugin_registry X T" and disk: "lfs_inv s" "lfs_reliable s"
    and keys: "inj_on (keyToPath C) (insert persistKey K)" "persistKey \<notin> K"
    and run: "reach (lfs_ok_meta C) K D1 A n tr n'"
    and req: "fst (bizHandler D1 r new_writer n') = Done w'" "wStatus w' = Some 200"
  shows "\<exists>cfg' pCtx r1 n1 m. passed D1 r n' = Some (cfg', pCtx, r1, n1) \<and>
    origin_entry D1 (tr @ [(n', EvRequest r)]) (serve_key D1 cfg' pCtx r1) (wBody w') m"
proof -
  note b = boot_node [OF boot(1-3)]
  have D1: "dStorage D1 = LocalFS_ops C" "runs_once (dDo D1)" "dRegistry D1 = plugin_registry X T"
    using b(3-5) boot(2) D by simp_all
  have st: "lfs_inv (nStorage n)" "lfs_reliable (nStorage n)"
    using lfs.read_inv [OF disk(1), of C persistKey] lfs.read_reliable [OF disk, of C persistKey]
    by (simp_all add: b(1) LocalFS_ops_def)
  have cap: "0 \<le> MaxItems (cfgCache cfg)" using boot(4) by (simp add: config_ok_def)
  have w: "wStatus new_writer = None" "wBody new_writer = []" by (simp_all add: new_writer_def)
  have good: "lfs.content_ok C D1 K tr n'" by (rule reach_content [OF D1(1,2) b(2) cap st keys run])
  show ?thesis
  proof (rule lfs.served_source [OF D1 good req])
    fix cfg' pCtx r1 n1 b m hit
    assume pass: "passed D1 r n' = Some (cfg', pCtx, r1, n1)"
      and w': "w' = write_response hit pCtx (bytes_reader b) m new_writer"
      and "fetched_in D1 r n' = Some (serve_key D1 cfg' pCtx r1, b, m) \<or>
        origin_entry D1 tr (serve_key D1 cfg' pCtx r1) b m \<and> entry_of n' (serve_key D1 cfg' pCtx r1) = Some m \<and>
          \<not> After (look_time n1) (ExpiresAt m)"
    then have "origin_entry D1 (tr @ [(n', EvRequest r)]) (serve_key D1 cfg' pCtx r1) b m"
      by (auto intro: origin_entry_now origin_entry_mono)
    moreover have "wBody w' = b" using write_response_fresh(2) [OF w(1)] w(2) by (simp add: w')
    ultimately show ?thesis using pass by blast
  qed
qed


section \<open>Properties\<close>

text \<open>
  C10: the service survives a crash, and starts cold: the process may die between any two system calls of
  any number of concurrent storage calls, with any I/O errors before. A service that starts on that
  disk meets the invariant of the whole service and finds under every key the old content or the
  complete body of a write that had begun. It does not use that content, although section 1.3 of
  \<open>doc/design.md\<close> has the index rebuilt from the disk: its first lookup of any key misses, in every
  state of the new run, whatever the disk does, every entry of the index was fetched by a request of
  the new run, and while the disk works every body it answers 200 with was fetched in the new run
  under the key of the request. The temporary names drawn before the crash are assumed to be
  different, and for the last part the names drawn after it to be free and the keys in use to have
  distinct digests.
\<close>

theorem restart_after_crash:
  assumes crash: "crashed C cs s s'" "list_all fs_call_start cs" "inj_on (\<lambda>i. temp_name (rnd s' i)) {..<rndpos s'}"
      "lfs_inv s"
    and start: "boot D init cfg o1 wd = Some (D1, n)" "dStorage D = LocalFS_ops C"
      "init (stRootDir (cfgStorage cfg)) = Some s'" "config_ok cfg" "limits_inv (wlimits wd)"
    and D: "runs_once (dDo D)" "dRegistry D = plugin_registry X T"
  shows "node_inv n \<and> (\<forall>dc pCtx r. \<exists>e. fst (first_look D1 dc pCtx r n) = Inl e) \<and>
    (\<forall>k b. content C (nStorage n) k = Some b \<longrightarrow> content C s k = Some b \<or> written C cs (keyToPath C k) b) \<and>
    (\<forall>A tr n' k m. reach (\<lambda>_. True) UNIV D1 A n tr n' \<and> entry_of n' k = Some m \<longrightarrow>
       (\<exists>b. origin_entry D1 tr k b m)) \<and>
    (lfs_reliable s' \<longrightarrow> (\<forall>K A tr n' r w'.
       inj_on (keyToPath C) (insert persistKey K) \<and> persistKey \<notin> K \<and> reach (lfs_ok_meta C) K D1 A n tr n' \<and>
       fst (bizHandler D1 r new_writer n') = Done w' \<and> wStatus w' = Some 200 \<longrightarrow>
       (\<exists>cfg' pCtx r1 n1 m. passed D1 r n' = Some (cfg', pCtx, r1, n1) \<and>
          origin_entry D1 (tr @ [(n', EvRequest r)]) (serve_key D1 cfg' pCtx r1) (wBody w') m)))"
proof -
  note k = boot_keeps_disk [OF start(1-3)]
  have inv: "node_inv n" by (rule boot_inv [OF start(1,4,5)])
  then have lru: "lru_inv (nCache n)" by (simp add: node_inv_def)
  have "entry_of n key = None" for key
    using k spec_lookup_view [of "nCache n" key] lru by (simp add: entry_of_def lru_inv_def spec_lookup_def)
  then have cold: "\<exists>e. fst (first_look D1 dc pCtx r n) = Inl e" for dc pCtx r
    by (intro first_look_stale [OF lru]) simp
  have "fresh_draws s'" using crash(3) by (simp add: fresh_draws_def drawn_def [abs_def])
  note disk = crash_content [OF crash(1,2) this]
  show ?thesis
  proof (intro conjI allI impI; (elim conjE)?)
    show "content C s k = Some b \<or> written C cs (keyToPath C k) b" if "content C (nStorage n) k = Some b" for k b
      using that k by (intro disk) simp
    show "\<exists>cfg' pCtx r1 n1 m. passed D1 r n' = Some (cfg', pCtx, r1, n1) \<and>
        origin_entry D1 (tr @ [(n', EvRequest r)]) (serve_key D1 cfg' pCtx r1) (wBody w') m"
      if "lfs_reliable s'" "inj_on (keyToPath C) (insert persistKey K)" "persistKey \<notin> K"
        "reach (lfs_ok_meta C) K D1 A n tr n'" "fst (bizHandler D1 r new_writer n') = Done w'" "wStatus w' = Some 200"
      for K A tr n' r w'
      by (rule restart_content [OF start(1-4) D crash_lfs_inv [OF crash(1,4)] that])
  qed (use inv cold restart_index [OF start(1-3) inv D] in blast)+
qed

definition ex_persist :: "fs_call list" where
  "ex_persist = [WriteStart persistKey (bytes_reader ''rules'') (Some rules_metadata)]"

theorem restart_after_crash_witness:
  "\<exists>s' D1 n. crashed ex_json ex_persist ex_fs s' \<and> content ex_json s' persistKey = Some ''rules'' \<and>
    boot ((ex_deps ex_down)\<lparr>dStorage := LocalFS_ops ex_json\<rparr>) (\<lambda>_. Some s') (Defaults ex_config) () ex_world = Some (D1, n) \<and>
    node_inv n \<and> rules_of (nFlush n) ''a.com'' = [] \<and> content ex_json (nStorage n) persistKey = Some ''rules''"
proof -
  let ?D = "(ex_deps ex_down)\<lparr>dStorage := LocalFS_ops ex_json\<rparr>" and ?cfg = "Defaults ex_config"
  obtain s' where s': "crashed ex_json ex_persist ex_fs s'" "content ex_json s' persistKey = Some ''rules''"
      "Store_Load (LocalFS_ops ex_json) (dRules ?D) (New, s') = (None, New, s')" "rnd s' = rnd ex_fs" "rndpos s' = 1"
    using crash_in_persist_loses_rules [OF ex_fs_ok(2) ex_json_ok(1,2), of "''rules''" "dRules ?D"]
    by (auto simp: ex_persist_def ex_fs_def)
  obtain D1 n where b: "boot ?D (\<lambda>_. Some s') ?cfg () ex_world = Some (D1, n)"
      and n: "nFlush n = New" "nStorage n = s'"
    using s'(3) by (simp add: boot_def Let_def Defaults_def default_str_def ex_config_def Update_def NewHandler_def)
  have "list_all fs_call_start ex_persist" "inj_on (\<lambda>i. temp_name (rnd s' i)) {..<rndpos s'}"
    "dStorage ?D = LocalFS_ops ex_json" "limits_inv (wlimits ex_world)"
    "runs_once (dDo ?D)" "dRegistry ?D = plugin_registry ex_regexp ex_tb"
    using ex_runs_once by (simp_all add: ex_persist_def s'(5) inj_on_def limits_inv_def ex_world_def)
  from restart_after_crash [OF s'(1) this(1,2) ex_fs_ok(1) b this(3) refl Defaults_config_ok this(4-6)] s'(1,2) b n
  show ?thesis by (auto simp: rules_of_def New_def)
qed

end
