(* ===== verification/ServiceConc.thy ===== *)
theory ServiceConc
  imports LRUConc Stampede FetchRace
begin

text \<open>
  The running service with overlapping requests. Each request is a goroutine that goes through
  \<open>ServeHTTP\<close> (\<open>domain/router.go\<close>) and \<open>GetOrFetch\<close> (\<open>cache/singleflight.go\<close>) in turns: one turn is
  a critical section under a mutex of the code, one call of the storage, one entry into or exit
  from the \<open>singleflight\<close> group, the exchange with the origin, or a stretch that touches no shared
  state. \<open>FlushURL\<close> (\<open>admin/handler.go\<close>) is a goroutine of the same kind. The other admin calls,
  hot reloads and limiter ticks are single steps between them (what \<open>AddRule\<close> and \<open>Cleanup\<close> do to
  each other is in FlushRace). The plugins of a request run in its first turn; the state they share
  is that of the rate limiter, which is behind its own mutex.

  The calls of the cache are those of LRUConc, the group is that of Stampede, and the closure of
  \<open>originFetch\<close> is split as in FetchRace.
\<close>

section \<open>Goroutines\<close>

text \<open>What a request has once its plugins let it pass.\<close>

record visit =
  vCfg :: DomainConfig
  vCtx :: PipelineContext
  vReq :: Request
  vW :: ResponseWriter
  vHit :: bool             \<comment> \<open>\<open>cacheHit\<close>\<close>

datatype stage =
    Arrived
  | Checking visit                          \<comment> \<open>step 3: \<open>Stat\<close>\<close>
  | Matching visit Meta                     \<comment> \<open>there is an entry: look for a rule\<close>
  | Evicting visit call                     \<comment> \<open>a newer rule: \<open>Delete\<close>\<close>
  | Peeking visit                           \<comment> \<open>step 4: \<open>Stat\<close> for \<open>X-Cache\<close>\<close>
  | Looking visit call                      \<comment> \<open>the first \<open>Get\<close>\<close>
  | Entering visit                          \<comment> \<open>missed, about to call \<open>Do\<close>\<close>
  | Joined visit                            \<comment> \<open>waits for the goroutine that leads\<close>
  | Again visit call                        \<comment> \<open>leads: the second \<open>Get\<close>\<close>
  | Pulling visit                           \<comment> \<open>leads: about to ask the origin\<close>
  | Stamping visit Response                 \<comment> \<open>leads: the origin has answered\<close>
  | Saving visit bytes Meta call            \<comment> \<open>leads: \<open>Set\<close>\<close>
  | Closing visit "fetch_err sf_err + bytes \<times> Meta"    \<comment> \<open>leads: the closure has returned\<close>
  | Replying visit "fetch_err sf_err + reader \<times> Meta"  \<comment> \<open>step 5\<close>
  | Answered "visit option" served

datatype adm_stage =
    AdmStart bytes
  | AdmDelete string call
  | AdmDone "string option" ResponseWriter

datatype go = Biz Request stage | Adm adm_stage

record ('s, 'o, 'l, 'g) service =
  sNode :: "('s, 'o, 'l) node"
  sGroup :: 'g
  sGos :: "go list"

definition key_of :: "('s, 'o, 'l) deps \<Rightarrow> visit \<Rightarrow> string" where
  "key_of D v = serve_key D (vCfg v) (vCtx v) (vReq v)"


section \<open>Turns\<close>

text \<open>A turn of a call of the cache; only the lookup of \<open>Get\<close> reads the clock.\<close>

fun call_time :: "call \<Rightarrow> 'l world \<Rightarrow> time \<times> 'l world" where
  "call_time (GetLookup k) wd = time_Now wd"
| "call_time c wd = (fst (time_Now wd), wd)"

definition cache_turn :: "('s, 'o, 'l) deps \<Rightarrow> call \<Rightarrow> ('s, 'o, 'l) node \<Rightarrow> call \<times> ('s, 'o, 'l) node" where
  "cache_turn D c n =
     (let (now, wd) = call_time c (nWorld n);
          (c1, ca, st) = call_step (dStorage D) (dFmt D) now c (nCache n, nStorage n)
      in (c1, n\<lparr>nCache := ca, nStorage := st, nWorld := wd\<rparr>))"

text \<open>The handler has returned \<open>res\<close>: what the middleware around it does then.\<close>

definition answer ::
  "Request \<Rightarrow> visit option \<Rightarrow> served \<Rightarrow> ('s, 'o, 'l) node \<times> 'g \<Rightarrow> stage \<times> ('s, 'o, 'l) node \<times> 'g" where
  "answer r vo res = (\<lambda>(n, g).
     case Recovery (RequestLogger (\<lambda>_ _ m. (res, m))) r new_writer n of
       (out, n1) \<Rightarrow> (Answered vo out, n1, g))"

text \<open>Step 5 and its error branches.\<close>

definition respond ::
  "visit \<Rightarrow> fetch_err sf_err + reader \<times> Meta \<Rightarrow> ('s, 'o, 'l) node \<Rightarrow> served \<times> ('s, 'o, 'l) node" where
  "respond v res n =
     (case res of
        Inl (SFFetch FetchPanic) \<Rightarrow> (Crashed (vW v), n)
      | Inl _ \<Rightarrow> (Done (http_Error ''Bad Gateway'' 502 (vW v)), n)
      | Inr (rc, meta) \<Rightarrow>
          (Done (write_response (vHit v) (vCtx v) rc meta (vW v)),
           n\<lparr>nWorld := emits (served_events (vHit v) (Domain (vCfg v))) (nWorld n)\<rparr>))"

fun go_step ::
  "('s, 'o, 'l) deps \<Rightarrow> 'g group_ops \<Rightarrow> Request \<Rightarrow> stage \<Rightarrow> ('s, 'o, 'l) node \<times> 'g \<Rightarrow>
   stage \<times> ('s, 'o, 'l) node \<times> 'g" where
  "go_step D Gr r Arrived (n, g) =
     (case nDomains n (stripPort (Host r)) of
        None \<Rightarrow> answer r None (Done (http_NotFound (wrapped new_writer))) (n, g)
      | Some cfg \<Rightarrow>
          (case Pipeline_Execute (dRegistry D) (Plugins cfg) (Domain cfg) (wrapped new_writer) r (nWorld n) of
             (ok, pCtx, w1, r1, wd1) \<Rightarrow>
               (if ok
                then (Checking \<lparr>vCfg = cfg, vCtx = pCtx, vReq = r1, vW = w1, vHit = False\<rparr>, n\<lparr>nWorld := wd1\<rparr>, g)
                else answer r None (Done w1) (n\<lparr>nWorld := wd1\<rparr>, g))))"
| "go_step D Gr r (Checking v) (n, g) =
     (case SingleflightCache_Stat (dCache D) (key_of D v) (nCache n, nStorage n) of
        Inl _ \<Rightarrow> (Peeking v, n, g)
      | Inr meta \<Rightarrow> (Matching v meta, n, g))"
| "go_step D Gr r (Matching v meta) (n, g) =
     (case Store_Match (Domain (vCfg v)) (RewrittenPath (vCtx v)) (nFlush n) of
        None \<Rightarrow> (Peeking v, n, g)
      | Some rule \<Rightarrow>
          (if After (rCreatedAt rule) (WrittenAt meta) then Evicting v (DelIndex (key_of D v)) else Peeking v, n, g))"
| "go_step D Gr r (Evicting v c) (n, g) =
     (case cache_turn D c n of (c1, n1) \<Rightarrow> (if finished c1 then Peeking v else Evicting v c1, n1, g))"
| "go_step D Gr r (Peeking v) (n, g) =
     (let hit = (case SingleflightCache_Stat (dCache D) (key_of D v) (nCache n, nStorage n) of
                   Inl _ \<Rightarrow> False | Inr _ \<Rightarrow> True)
      in (Looking (v\<lparr>vHit := hit\<rparr>) (GetLookup (key_of D v)), n, g))"
| "go_step D Gr r (Looking v c) (n, g) =
     (case cache_turn D c n of
        (GetDone k (Inr (rc, meta)), n1) \<Rightarrow> (Replying v (Inr (rc, meta)), n1, g)
      | (c1, n1) \<Rightarrow> (if finished c1 then Entering v else Looking v c1, n1, g))"
| "go_step D Gr r (Entering v) (n, g) =
     (case gEnter Gr (key_of D v) g of
        (lead, g1) \<Rightarrow> (if lead then Again v (GetLookup (key_of D v)) else Joined v, n, g1))"
| "go_step D Gr r (Again v c) (n, g) =
     (case cache_turn D c n of
        (GetDone k (Inr (rc, meta)), n1) \<Rightarrow>
          (Closing v (case ReadAll rc of Inl e \<Rightarrow> Inl (SFRead e) | Inr body \<Rightarrow> Inr (body, meta)), n1, g)
      | (c1, n1) \<Rightarrow> (if finished c1 then Pulling v else Again v c1, n1, g))"
| "go_step D Gr r (Pulling v) (n, g) =
     (case fetch_pull D (vCfg v) (vCtx v) (vReq v) (nPuller n) of
        (out, p1) \<Rightarrow>
          (case out of
             Panicked \<Rightarrow> Closing v (Inl (SFFetch FetchPanic))
           | Failed e \<Rightarrow> Closing v (Inl (SFFetch (FetchPull e)))
           | Returned resp \<Rightarrow> Stamping v resp, n\<lparr>nPuller := p1\<rparr>, g))"
| "go_step D Gr r (Stamping v resp) (n, g) =
     (case fetch_meta D (vCfg v) (key_of D v) resp (nWorld n) of
        (res, wd1) \<Rightarrow>
          (case res of
             Inl e \<Rightarrow> Closing v (Inl (SFFetch e))
           | Inr (rd, meta) \<Rightarrow>
               (case ReadAll rd of
                  Inl e \<Rightarrow> Closing v (Inl (SFRead e))
                | Inr body \<Rightarrow> Saving v body meta (SetWrite (key_of D v) (bytes_reader body) meta)),
           n\<lparr>nWorld := wd1\<rparr>, g))"
| "go_step D Gr r (Saving v body meta c) (n, g) =
     (case cache_turn D c n of
        (c1, n1) \<Rightarrow> (if finished c1 then Closing v (Inr (body, meta)) else Saving v body meta c1, n1, g))"
| "go_step D Gr r (Closing v res) (n, g) = (Replying v (deliver res), n, gLeave Gr (key_of D v) g)"
| "go_step D Gr r (Replying v res) (n, g) =
     (case respond v res n of (out, n1) \<Rightarrow> answer r (Some v) out (n1, g))"
| "go_step D Gr r (Joined v) x = (Joined v, x)"
| "go_step D Gr r (Answered vo out) x = (Answered vo out, x)"

text \<open>\<open>FlushURL\<close>: decode, delete the entry, answer.\<close>

fun adm_step ::
  "('s, 'o, 'l) deps \<Rightarrow> admin \<Rightarrow> adm_stage \<Rightarrow> ('s, 'o, 'l) node \<Rightarrow> adm_stage \<times> ('s, 'o, 'l) node" where
  "adm_step D A (AdmStart body) n =
     (case decURL (aCodec A) body of
        None \<Rightarrow> (AdmDone None (http_Error ''bad request: url required'' 400 new_writer), n)
      | Some url \<Rightarrow>
          if url = [] then (AdmDone None (http_Error ''bad request: url required'' 400 new_writer), n)
          else (case parseURL (aCodec A) url of
                  None \<Rightarrow> (AdmDone None (http_Error ''bad request: invalid url'' 400 new_writer), n)
                | Some parsed \<Rightarrow> (AdmDelete (admin_key D A parsed) (DelIndex (admin_key D A parsed)), n)))"
| "adm_step D A (AdmDelete k c) n =
     (case cache_turn D c n of
        (c1, n1) \<Rightarrow> (if finished c1 then AdmDone (Some k) (WriteHeader 204 new_writer) else AdmDelete k c1, n1))"
| "adm_step D A (AdmDone ko w) n = (AdmDone ko w, n)"

text \<open>When the leader leaves the group, those that joined it get its result.\<close>

fun release :: "('s, 'o, 'l) deps \<Rightarrow> stage \<Rightarrow> go \<Rightarrow> go" where
  "release D (Closing v res) (Biz r (Joined v')) =
     (if key_of D v' = key_of D v then Biz r (Replying v' (deliver res)) else Biz r (Joined v'))"
| "release D s p = p"

definition service_turn ::
  "('s, 'o, 'l) deps \<Rightarrow> admin \<Rightarrow> 'g group_ops \<Rightarrow> nat \<Rightarrow> ('s, 'o, 'l, 'g) service \<Rightarrow> ('s, 'o, 'l, 'g) service" where
  "service_turn D A Gr i x =
     (case sGos x ! i of
        Biz r s \<Rightarrow>
          (case go_step D Gr r s (sNode x, sGroup x) of
             (s1, n1, g1) \<Rightarrow>
               x\<lparr>sNode := n1, sGroup := g1, sGos := map (release D s) ((sGos x)[i := Biz r s1])\<rparr>)
      | Adm s \<Rightarrow>
          (case adm_step D A s (sNode x) of
             (s1, n1) \<Rightarrow> x\<lparr>sNode := n1, sGos := (sGos x)[i := Adm s1]\<rparr>))"

fun can_run :: "go \<Rightarrow> bool" where
  "can_run (Biz r (Joined v)) = False"
| "can_run (Biz r (Answered vo out)) = False"
| "can_run (Adm (AdmDone ko w)) = False"
| "can_run _ = True"

text \<open>The events that stay atomic.\<close>

fun atomic_event :: "sys_event \<Rightarrow> bool" where
  "atomic_event (EvRequest r) = False"
| "atomic_event (EvAdmin ep query body) = (ep \<noteq> EpFlushURL)"
| "atomic_event _ = True"

inductive service_step ::
  "('s, 'o, 'tb limits) deps \<Rightarrow> admin \<Rightarrow> 'g group_ops \<Rightarrow>
   ('s, 'o, 'tb limits, 'g) service \<Rightarrow> ('s, 'o, 'tb limits, 'g) service \<Rightarrow> bool"
  for D A Gr where
  turn: "i < length (sGos x) \<Longrightarrow> can_run (sGos x ! i) \<Longrightarrow> service_step D A Gr x (service_turn D A Gr i x)"
| request: "service_step D A Gr x (x\<lparr>sGos := sGos x @ [Biz r Arrived]\<rparr>)"
| flush: "service_step D A Gr x (x\<lparr>sGos := sGos x @ [Adm (AdmStart body)]\<rparr>)"
| event: "atomic_event ev \<Longrightarrow> service_step D A Gr x (x\<lparr>sNode := sys_step D A ev (sNode x)\<rparr>)"

abbreviation service_run ::
  "('s, 'o, 'tb limits) deps \<Rightarrow> admin \<Rightarrow> 'g group_ops \<Rightarrow>
   ('s, 'o, 'tb limits, 'g) service \<Rightarrow> ('s, 'o, 'tb limits, 'g) service \<Rightarrow> bool" where
  "service_run D A Gr \<equiv> (service_step D A Gr)\<^sup>*\<^sup>*"

text \<open>The service before the first request.\<close>

definition idle :: "('s, 'o, 'l) node \<Rightarrow> 'g \<Rightarrow> ('s, 'o, 'l, 'g) service" where
  "idle n g = \<lparr>sNode = n, sGroup = g, sGos = []\<rparr>"


section \<open>Termination\<close>

text \<open>The turns a goroutine still needs at most.\<close>

fun go_left :: "go \<Rightarrow> nat" where
  "go_left (Biz r Arrived) = 23"
| "go_left (Biz r (Checking v)) = 22"
| "go_left (Biz r (Matching v m)) = 21"
| "go_left (Biz r (Evicting v c)) = 18 + todo c"
| "go_left (Biz r (Peeking v)) = 17"
| "go_left (Biz r (Looking v c)) = 13 + todo c"
| "go_left (Biz r (Entering v)) = 12"
| "go_left (Biz r (Joined v)) = 1"
| "go_left (Biz r (Again v c)) = 8 + todo c"
| "go_left (Biz r (Pulling v)) = 7"
| "go_left (Biz r (Stamping v resp)) = 6"
| "go_left (Biz r (Saving v b m c)) = 3 + todo c"
| "go_left (Biz r (Closing v res)) = 2"
| "go_left (Biz r (Replying v res)) = 1"
| "go_left (Biz r (Answered vo out)) = 0"
| "go_left (Adm (AdmStart body)) = 4"
| "go_left (Adm (AdmDelete k c)) = 1 + todo c"
| "go_left (Adm (AdmDone ko w)) = 0"

lemma go_left_release [simp]: "go_left (release D s p) = go_left p"
  by (cases "(D, s, p)" rule: release.cases) simp_all

lemma call_step_finished: "finished c \<Longrightarrow> call_step S F now c cs = (c, cs)"
  by (cases cs; cases c) simp_all

lemma cache_turnE:
  assumes "cache_turn D c n = (c1, n1)"
  obtains now where "call_step (dStorage D) (dFmt D) now c (nCache n, nStorage n) = (c1, nCache n1, nStorage n1)"
    "nDomains n1 = nDomains n" "nFlush n1 = nFlush n" "nPuller n1 = nPuller n"
    "wlimits (nWorld n1) = wlimits (nWorld n)" "wevents (nWorld n1) = wevents (nWorld n)"
proof -
  obtain now wd where t: "call_time c (nWorld n) = (now, wd)" by (cases "call_time c (nWorld n)")
  have "wlimits wd = wlimits (nWorld n)" "wevents wd = wevents (nWorld n)"
    using t by (cases c; auto simp: time_Now_def)+
  with assms t that show ?thesis by (auto simp: cache_turn_def split: prod.splits)
qed

lemma cache_turn_todo:
  assumes "cache_turn D c n = (c1, n1)"
  shows "finished c1 \<or> todo c1 < todo c"
proof (cases "finished c")
  case True
  with assms show ?thesis by (simp add: cache_turn_def call_step_finished split: prod.splits)
next
  case False
  from assms obtain now where
    "call_step (dStorage D) (dFmt D) now c (nCache n, nStorage n) = (c1, nCache n1, nStorage n1)"
    by (rule cache_turnE)
  with call_step_todo [OF False, of "dStorage D" "dFmt D" now "(nCache n, nStorage n)"] show ?thesis by simp
qed

lemma answer_stage: "fst (answer r vo res x) = Answered vo (fst (Recovery (RequestLogger (\<lambda>_ _ m. (res, m))) r new_writer (fst x)))"
  by (cases x) (simp add: answer_def split: prod.split)

lemma go_step_left:
  assumes "can_run (Biz r s)"
  shows "go_left (Biz r (fst (go_step D Gr r s x))) < go_left (Biz r s)"
proof -
  obtain n g where x: "x = (n, g)" by (cases x)
  have turn: "cache_turn D c n = (c1, n1) \<Longrightarrow> \<not> finished c1 \<Longrightarrow> todo c1 < todo c" for c c1 n1
    using cache_turn_todo by blast
  show ?thesis
  proof (cases s)
    case Arrived
    then show ?thesis by (auto simp: x answer_stage split: option.split prod.split)
  next
    case (Looking v c)
    obtain c1 n1 where t: "cache_turn D c n = (c1, n1)" by (cases "cache_turn D c n")
    with turn [OF t] Looking show ?thesis by (auto simp: x split: call.split sum.split)
  next
    case (Again v c)
    obtain c1 n1 where t: "cache_turn D c n = (c1, n1)" by (cases "cache_turn D c n")
    with turn [OF t] Again show ?thesis by (auto simp: x split: call.split sum.split)
  next
    case (Replying v res)
    then show ?thesis by (auto simp: x answer_stage split: prod.split)
  qed (use assms turn in \<open>auto simp: x Let_def split: sum.split option.split prod.split outcome.split\<close>)
qed

lemma adm_step_left: "can_run (Adm s) \<Longrightarrow> go_left (Adm (fst (adm_step D A s n))) < go_left (Adm s)"
  using cache_turn_todo by (cases s) (fastforce split: option.split prod.split)+

definition service_left :: "('s, 'o, 'l, 'g) service \<Rightarrow> nat" where
  "service_left x = sum_list (map go_left (sGos x))"

lemma map_go_left_release [simp]: "map (go_left \<circ> release D s) ps = map go_left ps"
  by simp

lemma service_turn_left:
  assumes "i < length (sGos x)" "can_run (sGos x ! i)"
  shows "service_left (service_turn D A Gr i x) < service_left x"
proof -
  have less: "go_left p < go_left (sGos x ! i) \<Longrightarrow>
      sum_list ((map go_left (sGos x))[i := go_left p]) < sum_list (map go_left (sGos x))" for p
    using assms(1) by (intro sum_list_update_less) simp_all
  show ?thesis
  proof (cases "sGos x ! i")
    case (Biz r s)
    with assms(2) less go_step_left [of r s D Gr "(sNode x, sGroup x)"] show ?thesis
      by (auto simp: service_turn_def service_left_def map_update split: prod.split)
  next
    case (Adm s)
    with assms(2) less adm_step_left [of s D A "sNode x"] show ?thesis
      by (auto simp: service_turn_def service_left_def map_update split: prod.split)
  qed
qed

lemma go_left_max: "go_left p \<le> 23"
  by (cases p rule: go_left.cases) (simp_all add: todo_max [THEN order_trans])


section \<open>One leader per key\<close>

lemma key_of_hit [simp]: "key_of D (v\<lparr>vHit := h\<rparr>) = key_of D v"
  by (simp add: key_of_def)

text \<open>The key for which a goroutine runs the closure of \<open>Do\<close>, or waits for its result.\<close>

fun leads :: "('s, 'o, 'l) deps \<Rightarrow> go \<Rightarrow> string option" where
  "leads D (Biz r (Again v c)) = Some (key_of D v)"
| "leads D (Biz r (Pulling v)) = Some (key_of D v)"
| "leads D (Biz r (Stamping v resp)) = Some (key_of D v)"
| "leads D (Biz r (Saving v b m c)) = Some (key_of D v)"
| "leads D (Biz r (Closing v res)) = Some (key_of D v)"
| "leads D p = None"

fun waits :: "('s, 'o, 'l) deps \<Rightarrow> go \<Rightarrow> string option" where
  "waits D (Biz r (Joined v)) = Some (key_of D v)"
| "waits D p = None"

definition led :: "('s, 'o, 'l) deps \<Rightarrow> ('g \<Rightarrow> string set) \<Rightarrow> 'g \<Rightarrow> go list \<Rightarrow> bool" where
  "led D flying g ps \<longleftrightarrow> (\<forall>k.
     length (filter (\<lambda>p. leads D p = Some k) ps) = (if k \<in> flying g then 1 else 0) \<and>
     (\<forall>p \<in> set ps. waits D p = Some k \<longrightarrow> k \<in> flying g))"

lemma leads_release [simp]: "leads D (release D s p) = leads D p"
  by (cases "(D, s, p)" rule: release.cases) simp_all

lemma waits_release: "waits D (release D s p) = Some k \<Longrightarrow> waits D p = Some k"
  by (cases "(D, s, p)" rule: release.cases) (auto split: if_splits)

lemma comp_leads_release [simp]: "(\<lambda>p. leads D p = Some k) \<circ> release D s = (\<lambda>p. leads D p = Some k)"
  by (rule ext) simp

text \<open>A turn within its own role changes neither the roles nor the group.\<close>

lemma go_step_role:
  assumes "can_run (Biz r s)" "go_step D Gr r s (n, g) = (s1, n1, g1)"
    and "\<And>v. s \<noteq> Entering v" "\<And>v res. s \<noteq> Closing v res"
  shows "leads D (Biz r s1) = leads D (Biz r s) \<and> waits D (Biz r s1) = None \<and> g1 = g"
proof -
  have a: "\<exists>out n'. answer r vo res (m, g) = (Answered vo out, n', g)" for vo res and m :: "('a, 'b, 'c) node"
    by (simp add: answer_def split: prod.split)
  show ?thesis
  proof (cases s)
    case Arrived
    with assms(2) a show ?thesis by (auto split: option.splits prod.splits if_splits) (metis Pair_inject leads.simps waits.simps)+
  next
    case (Looking v c)
    with assms(2) show ?thesis by (auto split: prod.splits call.splits sum.splits if_splits)
  next
    case (Again v c)
    with assms(2) show ?thesis by (auto split: prod.splits call.splits sum.splits if_splits)
  next
    case (Replying v res)
    obtain out n2 where "respond v res n = (out, n2)" by (cases "respond v res n")
    with Replying assms(2) a [of "Some v" out n2] show ?thesis by auto
  qed (use assms in \<open>auto simp: Let_def split: sum.splits option.splits prod.splits outcome.splits if_splits\<close>)
qed

lemma led_same:
  assumes "led D flying g ps" "i < length ps" "leads D p = leads D (ps ! i)" "waits D p = None"
  shows "led D flying g (ps[i := p])"
  using assms length_filter_update [OF assms(2), of "\<lambda>p. leads D p = Some k" p for k]
  by (auto simp: led_def dest!: set_update_subset_insert [THEN subsetD])

lemma led_snoc: "led D flying g ps \<Longrightarrow> leads D p = None \<Longrightarrow> waits D p = None \<Longrightarrow> led D flying g (ps @ [p])"
  by (simp add: led_def)

lemma led_enter:
  assumes ok: "led D flying g ps" and i: "i < length ps" "ps ! i = Biz r (Entering v)"
    and e: "group_contract Gr flying" "gEnter Gr (key_of D v) g = (lead, g')"
  shows "led D flying g' (ps[i := Biz r (if lead then Again v c else Joined v)])"
  using ok group_contractD [OF e]
    length_filter_update [OF i(1), of "\<lambda>p. leads D p = Some k" "Biz r (if lead then Again v c else Joined v)" for k]
  by (auto simp: i led_def split: if_splits dest!: set_update_subset_insert [THEN subsetD])

lemma led_flying:
  assumes "led D flying g ps" "i < length ps" "leads D (ps ! i) = Some k"
  shows "k \<in> flying g"
proof (rule ccontr)
  assume "k \<notin> flying g"
  moreover have "length (filter (\<lambda>p. leads D p = Some k) ps) = (if k \<in> flying g then 1 else 0)"
    using assms(1) unfolding led_def by blast
  ultimately have "filter (\<lambda>p. leads D p = Some k) ps = []" by simp
  with assms(2,3) show False by (auto simp: filter_empty_conv)
qed

lemma led_leave:
  assumes ok: "led D flying g ps" and i: "i < length ps" "ps ! i = Biz r (Closing v res)"
    and Gr: "group_contract Gr flying"
  shows "led D flying (gLeave Gr (key_of D v) g)
    (map (release D (Closing v res)) (ps[i := Biz r (Replying v res')]))"
proof -
  let ?k = "key_of D v" let ?ps = "ps[i := Biz r (Replying v res')]"
  have at: "leads D (ps ! i) = Some ?k" by (simp add: i)
  have mem: "waits D p = Some k \<Longrightarrow> p \<in> set ?ps \<Longrightarrow> p \<in> set ps" for p k
    by (auto dest!: set_update_subset_insert [THEN subsetD])
  have gone: "waits D (release D (Closing v res) p) \<noteq> Some ?k" for p
    by (cases "(D, Closing v res, p)" rule: release.cases) auto
  have "length (filter (\<lambda>p. leads D p = Some k) ?ps) = (if k \<in> flying (gLeave Gr ?k g) then 1 else 0)" for k
    using length_filter_update [OF i(1), of "\<lambda>p. leads D p = Some k" "Biz r (Replying v res')"] ok at
      led_flying [OF ok i(1) at] by (auto simp: led_def group_leave [OF Gr] split: if_splits)
  moreover have "k \<in> flying (gLeave Gr ?k g)" if "p \<in> set ?ps" "waits D (release D (Closing v res) p) = Some k" for p k
    using ok mem [OF waits_release [OF that(2)] that(1)] waits_release [OF that(2)] gone [of p] that(2)
    by (auto simp: led_def group_leave [OF Gr])
  ultimately show ?thesis by (auto simp: led_def)
qed

lemma release_other: "(\<And>v res. s \<noteq> Closing v res) \<Longrightarrow> map (release D s) ps = ps"
proof (rule map_idI)
  fix p assume "\<And>v res. s \<noteq> Closing v res"
  then show "release D s p = p" by (cases "(D, s, p)" rule: release.cases) auto
qed

lemma led_turn:
  assumes ok: "led D flying (sGroup x) (sGos x)" and i: "i < length (sGos x)" "can_run (sGos x ! i)"
    and Gr: "group_contract Gr flying"
  shows "led D flying (sGroup (service_turn D A Gr i x)) (sGos (service_turn D A Gr i x))"
proof (cases "sGos x ! i")
  case (Adm s)
  have "leads D (Adm t) = None" "waits D (Adm t) = None" for t by simp_all
  with Adm led_same [OF ok i(1)] show ?thesis by (simp add: service_turn_def split: prod.split)
next
  case (Biz r s)
  obtain s1 n1 g1 where g: "go_step D Gr r s (sNode x, sGroup x) = (s1, n1, g1)"
    by (cases "go_step D Gr r s (sNode x, sGroup x)")
  have y: "service_turn D A Gr i x =
      x\<lparr>sNode := n1, sGroup := g1, sGos := map (release D s) ((sGos x)[i := Biz r s1])\<rparr>"
    by (simp add: service_turn_def Biz g)
  consider (enter) v where "s = Entering v" | (close) v res where "s = Closing v res"
    | (other) "\<And>v. s \<noteq> Entering v" "\<And>v res. s \<noteq> Closing v res" by (cases s) auto
  then show ?thesis
  proof cases
    case other
    have "leads D (Biz r s1) = leads D (sGos x ! i)" "waits D (Biz r s1) = None" "g1 = sGroup x"
      using go_step_role [OF _ g other] i(2) Biz by simp_all
    with led_same [OF ok i(1)] release_other [OF other(2), where D = D] show ?thesis by (simp add: y)
  next
    case enter
    obtain lead g' where e: "gEnter Gr (key_of D v) (sGroup x) = (lead, g')" by (cases "gEnter Gr (key_of D v) (sGroup x)")
    with led_enter [OF ok i(1) _ Gr e, of r "GetLookup (key_of D v)"] Biz g enter show ?thesis
      by (auto simp: y release_other)
  next
    case close
    with led_leave [OF ok i(1) _ Gr, of r v res] Biz g show ?thesis by (auto simp: y)
  qed
qed


lemma led_step:
  assumes "service_step D A Gr x y" "group_contract Gr flying" "led D flying (sGroup x) (sGos x)"
  shows "led D flying (sGroup y) (sGos y)"
  using assms(1)
proof cases
  case (turn i)
  with led_turn assms(2,3) show ?thesis by blast
next
  case (request r)
  with led_snoc [OF assms(3), of "Biz r Arrived"] show ?thesis by simp
next
  case (flush body)
  with led_snoc [OF assms(3), of "Adm (AdmStart body)"] show ?thesis by simp
qed (use assms(3) in simp)

lemma led_run:
  assumes "service_run D A Gr x y" "group_contract Gr flying" "led D flying (sGroup x) (sGos x)"
  shows "led D flying (sGroup y) (sGos y)"
  using assms(1,3) by (induction rule: rtranclp_induct) (auto intro: led_step [OF _ assms(2)])

lemma led_idle: "flying g = {} \<Longrightarrow> led D flying (sGroup (idle n g)) (sGos (idle n g))"
  by (simp add: led_def idle_def)

text \<open>Two goroutines that lead for the same key are the same.\<close>

lemma led_unique:
  assumes "led D flying g ps" "i < length ps" "j < length ps" "leads D (ps ! i) = Some k" "leads D (ps ! j) = Some k"
  shows "i = j"
proof (rule ccontr)
  assume "i \<noteq> j"
  let ?P = "\<lambda>p. leads D p = Some k"
  have "length (filter ?P ps) \<le> 1" using assms(1) by (simp add: led_def)
  moreover have "card {i, j} \<le> card {l. l < length ps \<and> ?P (ps ! l)}"
    by (rule card_mono) (use assms in auto)
  ultimately show False using \<open>i \<noteq> j\<close> by (simp add: length_filter_conv_card)
qed

fun settled :: "go \<Rightarrow> bool" where
  "settled (Biz r (Answered vo out)) = True"
| "settled (Adm (AdmDone ko w)) = True"
| "settled _ = False"

lemma leader_can_run: "leads D p = Some k \<Longrightarrow> can_run p"
  by (cases "(D, p)" rule: leads.cases) simp_all

lemma led_progress:
  assumes "led D flying g ps" "p \<in> set ps" "\<not> settled p"
  shows "\<exists>i < length ps. can_run (ps ! i)"
proof (cases "can_run p")
  case True
  with assms(2) show ?thesis by (auto simp: in_set_conv_nth)
next
  case False
  with assms(3) obtain k where "waits D p = Some k" by (cases p rule: can_run.cases) auto
  with assms(1,2) have "length (filter (\<lambda>p. leads D p = Some k) ps) = 1" by (auto simp: led_def)
  then have "filter (\<lambda>p. leads D p = Some k) ps \<noteq> []" by auto
  then obtain q where "q \<in> set ps" "leads D q = Some k" by (auto simp: filter_empty_conv)
  with leader_can_run show ?thesis by (metis in_set_conv_nth)
qed


section \<open>The invariant of the service\<close>

text \<open>The calls of the cache a goroutine makes in its stages.\<close>

definition get_call :: "string \<Rightarrow> call \<Rightarrow> bool" where
  "get_call k c \<longleftrightarrow> c = GetLookup k \<or> (\<exists>m. c = GetRead k m) \<or> (\<exists>e. c = GetEvict k e)"

definition del_call :: "string \<Rightarrow> call \<Rightarrow> bool" where
  "del_call k c \<longleftrightarrow> c = DelIndex k \<or> c = DelStore k"

definition set_call :: "string \<Rightarrow> bytes \<Rightarrow> Meta \<Rightarrow> call \<Rightarrow> bool" where
  "set_call k b m c \<longleftrightarrow> mKey m = k \<and> (c = SetWrite k (bytes_reader b) m \<or> c = SetIndex k (bytes_reader b) m)"

lemmas call_defs = get_call_def del_call_def set_call_def

lemma calls_ok:
  "get_call k c \<Longrightarrow> call_ok c" "del_call k c \<Longrightarrow> call_ok c" "set_call k b m c \<Longrightarrow> call_ok c"
  by (auto simp: call_defs)

fun go_ok :: "('s, 'o, 'l) deps \<Rightarrow> go \<Rightarrow> bool" where
  "go_ok D (Biz r (Evicting v c)) = del_call (key_of D v) c"
| "go_ok D (Biz r (Looking v c)) = get_call (key_of D v) c"
| "go_ok D (Biz r (Again v c)) = get_call (key_of D v) c"
| "go_ok D (Biz r (Saving v b m c)) = set_call (key_of D v) b m c"
| "go_ok D (Adm (AdmDelete k c)) = del_call k c"
| "go_ok D p = True"

lemma go_ok_release [simp]: "go_ok D (release D s p) = go_ok D p"
  by (cases "(D, s, p)" rule: release.cases) simp_all

text \<open>The middleware and the counters change only the metrics.\<close>

lemma emits_none: "\<exists>es. n = n\<lparr>nWorld := emits es (nWorld n)\<rparr>"
  by (rule exI [of _ "[]"]) (simp add: emits_def)

lemma answer_node:
  "answer r vo res (n, g) = (s1, n1, g1) \<Longrightarrow> (\<exists>es. n1 = n\<lparr>nWorld := emits es (nWorld n)\<rparr>) \<and> g1 = g"
  using emits_none by (cases res) (auto simp: answer_def Recovery_def RequestLogger_def)

lemma respond_node: "respond v res n = (out, n1) \<Longrightarrow> \<exists>es. n1 = n\<lparr>nWorld := emits es (nWorld n)\<rparr>"
  using emits_none by (auto simp: respond_def split: sum.splits sf_err.splits fetch_err.splits)

lemma cache_turn_inv:
  assumes "cache_turn D c n = (c1, n1)" "node_inv n" "call_ok c"
  shows "node_inv n1 \<and> maxItems (nCache n1) = maxItems (nCache n)"
proof -
  obtain now where t: "call_step (dStorage D) (dFmt D) now c (nCache n, nStorage n) = (c1, nCache n1, nStorage n1)"
    "nDomains n1 = nDomains n" "nFlush n1 = nFlush n" "wlimits (nWorld n1) = wlimits (nWorld n)"
    by (rule cache_turnE [OF assms(1)])
  from call_step_inv [OF _ assms(3) t(1)] assms(2) t(2-4) show ?thesis by (simp add: node_inv_def)
qed

text \<open>A turn of each kind of call.\<close>

lemma get_turn:
  assumes "get_call k c" "cache_turn D c n = (c1, n1)" "node_inv n"
  shows "node_inv n1 \<and> maxItems (nCache n1) = maxItems (nCache n) \<and>
    (if finished c1 then \<exists>res. c1 = GetDone k res else get_call k c1)"
proof -
  obtain now where "call_step (dStorage D) (dFmt D) now c (nCache n, nStorage n) = (c1, nCache n1, nStorage n1)"
    by (rule cache_turnE [OF assms(2)])
  with assms(1) have "if finished c1 then \<exists>res. c1 = GetDone k res else get_call k c1"
    by (auto simp: get_call_def split: prod.splits sum.splits)
  with cache_turn_inv [OF assms(2,3) calls_ok(1) [OF assms(1)]] show ?thesis by simp
qed

lemma del_turn:
  assumes "del_call k c" "cache_turn D c n = (c1, n1)" "node_inv n"
  shows "node_inv n1 \<and> maxItems (nCache n1) = maxItems (nCache n) \<and>
    (if finished c1 then \<exists>e. c1 = DelDone k e else del_call k c1)"
proof -
  obtain now where "call_step (dStorage D) (dFmt D) now c (nCache n, nStorage n) = (c1, nCache n1, nStorage n1)"
    by (rule cache_turnE [OF assms(2)])
  with assms(1) have "if finished c1 then \<exists>e. c1 = DelDone k e else del_call k c1"
    by (auto simp: del_call_def split: prod.splits)
  with cache_turn_inv [OF assms(2,3) calls_ok(2) [OF assms(1)]] show ?thesis by simp
qed

lemma set_turn:
  assumes "set_call k b m c" "cache_turn D c n = (c1, n1)" "node_inv n"
  shows "node_inv n1 \<and> maxItems (nCache n1) = maxItems (nCache n) \<and>
    (if finished c1 then \<exists>e. c1 = SetDone k (bytes_reader b) m e else set_call k b m c1)"
proof -
  obtain now where "call_step (dStorage D) (dFmt D) now c (nCache n, nStorage n) = (c1, nCache n1, nStorage n1)"
    by (rule cache_turnE [OF assms(2)])
  with assms(1) have "if finished c1 then \<exists>e. c1 = SetDone k (bytes_reader b) m e else set_call k b m c1"
    by (auto simp: set_call_def split: prod.splits option.splits)
  with cache_turn_inv [OF assms(2,3) calls_ok(3) [OF assms(1)]] show ?thesis by simp
qed

lemma fetch_meta_limits: "wlimits (snd (fetch_meta D cfg key resp wd)) = wlimits wd"
  by (auto simp: fetch_meta_def Let_def time_Now_def split: sum.split)


lemma node_inv_emits [simp]: "node_inv (n\<lparr>nWorld := emits es (nWorld n)\<rparr>) = node_inv n"
  by (simp add: node_inv_def)

definition step_ok :: "('s, 'o, 'tb limits) deps \<Rightarrow> ('s, 'o, 'tb limits) node \<Rightarrow> Request \<Rightarrow> stage \<times> ('s, 'o, 'tb limits) node \<times> 'g \<Rightarrow> bool" where
  "step_ok D n r y \<longleftrightarrow> (case y of (s1, n1, g1) \<Rightarrow>
     node_inv n1 \<and> maxItems (nCache n1) = maxItems (nCache n) \<and> go_ok D (Biz r s1))"

lemma answer_ok:
  assumes "node_inv m" "maxItems (nCache m) = maxItems (nCache n)"
  shows "step_ok D n r (answer r vo res (m, g))"
proof -
  obtain s1 n1 g1 where a: "answer r vo res (m, g) = (s1, n1, g1)" by (cases "answer r vo res (m, g)")
  from answer_node [OF a] answer_stage [of r vo res "(m, g)"] assms show ?thesis
    by (auto simp: step_ok_def a)
qed

lemma arrived_ok:
  assumes "node_inv n" "dRegistry D = plugin_registry X T"
  shows "step_ok D n r (go_step D Gr r Arrived (n, g))"
proof (cases "nDomains n (stripPort (Host r))")
  case None
  with answer_ok [OF assms(1) refl] show ?thesis by simp
next
  case (Some cfg)
  obtain ok pCtx w1 r1 wd1 where p: "Pipeline_Execute (dRegistry D) (Plugins cfg) (Domain cfg)
      (wrapped new_writer) r (nWorld n) = (ok, pCtx, w1, r1, wd1)"
    by (metis prod_cases5)
  then have "limits_inv (wlimits wd1)"
    using run_plugins_limits_inv assms unfolding Pipeline_Execute_def Let_def node_inv_def by metis
  then have inv: "node_inv (n\<lparr>nWorld := wd1\<rparr>)" using assms(1) by (simp add: node_inv_def)
  have "step_ok D n r (answer r None (Done w1) (n\<lparr>nWorld := wd1\<rparr>, g))" by (rule answer_ok [OF inv]) simp
  moreover have "step_ok D n r (Checking v, n\<lparr>nWorld := wd1\<rparr>, g)" for v using inv by (simp add: step_ok_def)
  ultimately show ?thesis using Some p by simp
qed

lemma go_step_ok:
  assumes "node_inv n" "go_ok D (Biz r s)" "dRegistry D = plugin_registry X T"
  shows "step_ok D n r (go_step D Gr r s (n, g))"
proof (cases s)
  case Arrived
  with arrived_ok [OF assms(1,3)] show ?thesis by simp
next
  case (Evicting v c)
  obtain c1 n2 where t: "cache_turn D c n = (c1, n2)" by (cases "cache_turn D c n")
  with Evicting assms(2) del_turn [OF _ t assms(1), where k = "key_of D v"] show ?thesis
    by (auto simp: step_ok_def split: if_splits)
next
  case (Looking v c)
  obtain c1 n2 where t: "cache_turn D c n = (c1, n2)" by (cases "cache_turn D c n")
  with Looking assms(2) get_turn [OF _ t assms(1), where k = "key_of D v"] show ?thesis
    by (auto simp: step_ok_def split: if_splits call.splits sum.splits)
next
  case (Again v c)
  obtain c1 n2 where t: "cache_turn D c n = (c1, n2)" by (cases "cache_turn D c n")
  with Again assms(2) get_turn [OF _ t assms(1), where k = "key_of D v"] show ?thesis
    by (auto simp: step_ok_def split: if_splits call.splits sum.splits)
next
  case (Stamping v resp)
  obtain res wd1 where m: "fetch_meta D (vCfg v) (key_of D v) resp (nWorld n) = (res, wd1)"
    by (cases "fetch_meta D (vCfg v) (key_of D v) resp (nWorld n)")
  have "wlimits wd1 = wlimits (nWorld n)" using fetch_meta_limits [of D "vCfg v" "key_of D v" resp "nWorld n"] m by simp
  with Stamping assms(1) m fetch_meta_Inr(3) show ?thesis
    by (auto simp: step_ok_def node_inv_def set_call_def split: sum.splits)
next
  case (Saving v b m c)
  obtain c1 n2 where t: "cache_turn D c n = (c1, n2)" by (cases "cache_turn D c n")
  with Saving assms(2) set_turn [OF _ t assms(1), where k = "key_of D v" and b = b and m = m] show ?thesis
    by (auto simp: step_ok_def split: if_splits)
next
  case (Replying v res)
  obtain out n2 where o: "respond v res n = (out, n2)" by (cases "respond v res n")
  then have "node_inv n2" "maxItems (nCache n2) = maxItems (nCache n)"
    using respond_node [OF o] assms(1) by auto
  from answer_ok [OF this] Replying o show ?thesis by simp
qed (use assms in \<open>auto simp: step_ok_def get_call_def del_call_def node_inv_def Let_def
      split: sum.splits option.splits prod.splits outcome.splits\<close>)

lemma go_step_inv:
  assumes "go_step D Gr r s (n, g) = (s1, n1, g1)" "node_inv n" "go_ok D (Biz r s)" "dRegistry D = plugin_registry X T"
  shows "node_inv n1 \<and> maxItems (nCache n1) = maxItems (nCache n) \<and> go_ok D (Biz r s1)"
  using go_step_ok [OF assms(2-4), of Gr g] by (simp add: assms(1) step_ok_def)

lemma adm_step_inv:
  assumes "adm_step D A s n = (s1, n1)" "node_inv n" "go_ok D (Adm s)"
  shows "node_inv n1 \<and> maxItems (nCache n1) = maxItems (nCache n) \<and> go_ok D (Adm s1)"
proof (cases s)
  case (AdmDelete k c)
  obtain c1 n2 where t: "cache_turn D c n = (c1, n2)" by (cases "cache_turn D c n")
  with AdmDelete assms del_turn [OF _ t assms(2), of k] show ?thesis
    by (auto split: if_splits)
qed (use assms in \<open>auto simp: del_call_def split: option.splits if_splits\<close>)

lemma atomic_event_inv:
  assumes "atomic_event ev" "node_inv n"
  shows "node_inv (sys_step D A ev n) \<and> nCache (sys_step D A ev n) = nCache n"
proof (cases ev)
  case (EvAdmin ep query body)
  with assms have "nCache (snd (endpoint D A ep query body new_writer n)) = nCache n"
    by (cases ep) (auto simp: FlushPrefix_def FlushDomain_def Stat_def add_flush_rule_state Let_def time_Now_def
        split: option.split list.split sum.split)
  with EvAdmin endpoint_inv [OF assms(2)] show ?thesis by simp
next
  case (EvReload cfg)
  have "nCache (hot_reload D cfg n) = nCache n"
    by (auto simp: hot_reload_def Update_def Let_def time_Now_def split: prod.split)
  with EvReload hot_reload_inv [OF assms(2)] show ?thesis by simp
next
  case (EvLimiterTick d)
  have "limits_inv (wlimits (limiter_tick d (nWorld n)))"
    using assms(2) by (intro limiter_tick_inv) (simp add: node_inv_def)
  with EvLimiterTick assms(2) show ?thesis by (simp add: node_inv_def)
qed (use assms in simp)

definition service_inv :: "('s, 'o, 'tb limits) deps \<Rightarrow> int \<Rightarrow> ('s, 'o, 'tb limits, 'g) service \<Rightarrow> bool" where
  "service_inv D cap x \<longleftrightarrow> node_inv (sNode x) \<and> maxItems (nCache (sNode x)) = cap \<and> list_all (go_ok D) (sGos x)"

lemma service_step_inv:
  assumes "service_step D A Gr x y" "dRegistry D = plugin_registry X T" "service_inv D cap x"
  shows "service_inv D cap y"
  using assms(1)
proof cases
  case (turn i)
  have ok: "go_ok D (sGos x ! i)" using assms(3) turn(2) by (simp add: service_inv_def list_all_length)
  have upd: "list_all (go_ok D) ((sGos x)[i := p])" if "go_ok D p" for p
    using assms(3) that by (simp add: service_inv_def list_all_update)
  show ?thesis
  proof (cases "sGos x ! i")
    case (Biz r s)
    obtain s1 n1 g1 where g: "go_step D Gr r s (sNode x, sGroup x) = (s1, n1, g1)"
      by (cases "go_step D Gr r s (sNode x, sGroup x)")
    from go_step_inv [OF g _ _ assms(2)] ok assms(3) upd [of "Biz r s1"] Biz g turn(1) show ?thesis
      by (simp add: service_turn_def service_inv_def list.pred_map comp_def)
  next
    case (Adm s)
    obtain s1 n1 where g: "adm_step D A s (sNode x) = (s1, n1)" by (cases "adm_step D A s (sNode x)")
    from adm_step_inv [OF g] ok assms(3) upd [of "Adm s1"] Adm g turn(1) show ?thesis
      by (simp add: service_turn_def service_inv_def)
  qed
next
  case (event ev)
  with assms(3) atomic_event_inv [OF event(2), of "sNode x" D A] show ?thesis by (simp add: service_inv_def)
qed (use assms(3) in \<open>simp_all add: service_inv_def\<close>)

lemma service_run_inv:
  assumes "service_run D A Gr x y" "dRegistry D = plugin_registry X T" "service_inv D cap x"
  shows "service_inv D cap y"
  using assms(1,3) by (induction rule: rtranclp_induct) (auto intro: service_step_inv [OF _ assms(2)])



section \<open>Where the bodies of concurrent answers come from\<close>

text \<open>The key a goroutine works for; it keeps it to the end.\<close>

fun go_key :: "('s, 'o, 'l) deps \<Rightarrow> go \<Rightarrow> string option" where
  "go_key D (Biz r Arrived) = None"
| "go_key D (Biz r (Checking v)) = Some (key_of D v)"
| "go_key D (Biz r (Matching v m)) = Some (key_of D v)"
| "go_key D (Biz r (Evicting v c)) = Some (key_of D v)"
| "go_key D (Biz r (Peeking v)) = Some (key_of D v)"
| "go_key D (Biz r (Looking v c)) = Some (key_of D v)"
| "go_key D (Biz r (Entering v)) = Some (key_of D v)"
| "go_key D (Biz r (Joined v)) = Some (key_of D v)"
| "go_key D (Biz r (Again v c)) = Some (key_of D v)"
| "go_key D (Biz r (Pulling v)) = Some (key_of D v)"
| "go_key D (Biz r (Stamping v resp)) = Some (key_of D v)"
| "go_key D (Biz r (Saving v b m c)) = Some (key_of D v)"
| "go_key D (Biz r (Closing v res)) = Some (key_of D v)"
| "go_key D (Biz r (Replying v res)) = Some (key_of D v)"
| "go_key D (Biz r (Answered vo out)) = map_option (key_of D) vo"
| "go_key D (Adm (AdmStart body)) = None"
| "go_key D (Adm (AdmDelete k c)) = Some k"
| "go_key D (Adm (AdmDone ko w)) = ko"

definition service_keys :: "('s, 'o, 'l) deps \<Rightarrow> ('s, 'o, 'l, 'g) service \<Rightarrow> string set" where
  "service_keys D x = {k. \<exists>p \<in> set (sGos x). go_key D p = Some k}"

lemma go_key_release [simp]: "go_key D (release D s p) = go_key D p"
  by (cases "(D, s, p)" rule: release.cases) simp_all

lemma go_step_key:
  assumes "go_key D (Biz r s) = Some k"
  shows "go_key D (Biz r (fst (go_step D Gr r s x))) = Some k"
proof -
  obtain n g where x: "x = (n, g)" by (cases x)
  show ?thesis
    using assms
    by (cases s) (auto simp: x Let_def answer_stage split: sum.split option.split prod.split call.split outcome.split)
qed

lemma adm_step_key: "go_key D (Adm s) = Some k \<Longrightarrow> go_key D (Adm (fst (adm_step D A s n))) = Some k"
  by (cases s) (auto split: prod.split)

lemma keys_update:
  assumes "i < length ps" "\<And>k. f (ps ! i) = Some k \<Longrightarrow> f p = Some k"
  shows "{k. \<exists>q \<in> set ps. f q = Some k} \<subseteq> {k. \<exists>q \<in> set (ps[i := p]). f q = Some k}"
proof (rule subsetI, elim CollectE bexE)
  fix k q assume q: "q \<in> set ps" "f q = Some k"
  show "k \<in> {k. \<exists>q \<in> set (ps[i := p]). f q = Some k}"
  proof (cases "q = ps ! i")
    case True
    with q assms set_update_memI [of i ps p] show ?thesis by auto
  next
    case False
    with q in_set_update_other [of q ps i p] show ?thesis by auto
  qed
qed

lemma service_keys_step: "service_step D A Gr x y \<Longrightarrow> service_keys D x \<subseteq> service_keys D y"
proof (induction rule: service_step.induct)
  case (turn i x)
  show ?case
  proof (cases "sGos x ! i")
    case (Biz r s)
    obtain s1 n1 g1 where g: "go_step D Gr r s (sNode x, sGroup x) = (s1, n1, g1)"
      by (cases "go_step D Gr r s (sNode x, sGroup x)")
    have "go_key D (sGos x ! i) = Some k \<Longrightarrow> go_key D (Biz r s1) = Some k" for k
      using go_step_key [of D r s k Gr "(sNode x, sGroup x)"] Biz g by simp
    from keys_update [of i "sGos x" "go_key D", OF turn(1) this] show ?thesis
      by (simp add: service_keys_def service_turn_def Biz g)
  next
    case (Adm s)
    obtain s1 n1 where g: "adm_step D A s (sNode x) = (s1, n1)" by (cases "adm_step D A s (sNode x)")
    have "go_key D (sGos x ! i) = Some k \<Longrightarrow> go_key D (Adm s1) = Some k" for k
      using adm_step_key [of D s k A "sNode x"] Adm g by simp
    from keys_update [of i "sGos x" "go_key D", OF turn(1) this] show ?thesis
      by (simp add: service_keys_def service_turn_def Adm g)
  qed
qed (auto simp: service_keys_def)

text \<open>The visit of a request: what \<open>ServeHTTP\<close> has once the plugins let it pass.\<close>

definition visits :: "('s, 'o, 'l) deps \<Rightarrow> Request \<Rightarrow> ('s, 'o, 'l) node \<Rightarrow> visit \<Rightarrow> bool" where
  "visits D r n v \<longleftrightarrow> nDomains n (stripPort (Host r)) = Some (vCfg v) \<and>
     (\<exists>wd1. Pipeline_Execute (dRegistry D) (Plugins (vCfg v)) (Domain (vCfg v)) (wrapped new_writer) r (nWorld n) =
        (True, vCtx v, vW v, vReq v, wd1))"

text \<open>
  What was served is traced back to turns of the run: \<open>H\<close> is a set of turns, each the state it was made
  in and the goroutine that made it. \<open>turns_made\<close> are those of a run.
\<close>

type_synonym ('s, 'o, 'l, 'g) turns = "(('s, 'o, 'l, 'g) service \<times> nat) set"

definition turns_made ::
  "('s, 'o, 'tb limits) deps \<Rightarrow> admin \<Rightarrow> 'g group_ops \<Rightarrow> ('s, 'o, 'tb limits, 'g) service \<Rightarrow>
   ('s, 'o, 'tb limits, 'g) service \<Rightarrow> ('s, 'o, 'tb limits, 'g) turns" where
  "turns_made D A Gr x y = {(z, i). service_run D A Gr x z \<and> i < length (sGos z) \<and> can_run (sGos z ! i) \<and>
     service_run D A Gr (service_turn D A Gr i z) y}"

lemma turns_made_mono: "service_run D A Gr y z \<Longrightarrow> turns_made D A Gr x y \<subseteq> turns_made D A Gr x z"
  by (auto simp: turns_made_def intro: rtranclp_trans)

text \<open>The first turn of the request found its domain, and the plugins made the visit of it.\<close>

definition admitted :: "('s, 'o, 'l) deps \<Rightarrow> ('s, 'o, 'l, 'g) turns \<Rightarrow> Request \<Rightarrow> visit \<Rightarrow> bool" where
  "admitted D H r v \<longleftrightarrow> Domain (vCfg v) = stripPort (Host r) \<and>
     (\<exists>x i. (x, i) \<in> H \<and> sGos x ! i = Biz r Arrived \<and> visits D r (sNode x) v)"

lemma visits_hit [simp]: "visits D r n (v\<lparr>vHit := h\<rparr>) = visits D r n v"
  by (simp add: visits_def)

lemma admitted_hit [simp]: "admitted D H r (v\<lparr>vHit := h\<rparr>) = admitted D H r v"
  by (simp add: admitted_def)

text \<open>A turn of the request pulled \<open>resp\<close> from the origins of its domain, in the state the puller was in.\<close>

definition pulled :: "('s, 'o, 'l) deps \<Rightarrow> ('s, 'o, 'l, 'g) turns \<Rightarrow> Request \<Rightarrow> visit \<Rightarrow> Response \<Rightarrow> bool" where
  "pulled D H r v resp \<longleftrightarrow> admitted D H r v \<and>
     (\<exists>x i p. (x, i) \<in> H \<and> sGos x ! i = Biz r (Pulling v) \<and>
        fetch_pull D (vCfg v) (vCtx v) (vReq v) (nPuller (sNode x)) = (Returned resp, p))"

text \<open>Body and metadata of an entry that was fetched under the key \<open>k\<close>.\<close>

definition fetched_for :: "('s, 'o, 'l) deps \<Rightarrow> ('s, 'o, 'l, 'g) turns \<Rightarrow> string \<Rightarrow> bytes \<Rightarrow> Meta \<Rightarrow> bool" where
  "fetched_for D H k b m \<longleftrightarrow>
     (\<exists>r v resp. pulled D H r v resp \<and> key_of D v = k \<and> RespBody resp = bytes_reader b \<and>
        mHeaders m = Some (RespHeader resp))"

lemma turns_mono:
  assumes "H \<subseteq> H'"
  shows "admitted D H r v \<Longrightarrow> admitted D H' r v" "pulled D H r v resp \<Longrightarrow> pulled D H' r v resp"
    "fetched_for D H k b m \<Longrightarrow> fetched_for D H' k b m"
proof -
  show a: "admitted D H r v \<Longrightarrow> admitted D H' r v" for r v
    using assms unfolding admitted_def by blast
  show p: "pulled D H r v resp \<Longrightarrow> pulled D H' r v resp" for r v resp
    using assms a unfolding pulled_def by blast
  show "fetched_for D H k b m \<Longrightarrow> fetched_for D H' k b m"
    using p unfolding fetched_for_def by blast
qed

text \<open>Bodies and metadata that were fetched for a key.\<close>

definition bodies :: "('s, 'o, 'l) deps \<Rightarrow> ('s, 'o, 'l, 'g) turns \<Rightarrow> string \<Rightarrow> bytes set" where
  "bodies D H k = {b. \<exists>m. fetched_for D H k b m}"

definition metas :: "('s, 'o, 'l) deps \<Rightarrow> ('s, 'o, 'l, 'g) turns \<Rightarrow> string \<Rightarrow> Meta set" where
  "metas D H k = {m. \<exists>b. fetched_for D H k b m}"

lemma bodies_metas: "fetched_for D H k b m \<Longrightarrow> b \<in> bodies D H k \<and> m \<in> metas D H k"
  unfolding bodies_def metas_def by blast

lemma bodies_mono: "H \<subseteq> H' \<Longrightarrow> bodies D H k \<subseteq> bodies D H' k"
  and metas_mono: "H \<subseteq> H' \<Longrightarrow> metas D H k \<subseteq> metas D H' k"
  unfolding bodies_def metas_def by (blast intro: turns_mono(3))+

definition visit_ok :: "('s, 'o, 'l) deps \<Rightarrow> ('s, 'o, 'l, 'g) turns \<Rightarrow> string set \<Rightarrow> Request \<Rightarrow> visit \<Rightarrow> bool" where
  "visit_ok D H K r v \<longleftrightarrow> key_of D v \<in> K \<and> vW v = wrapped new_writer \<and> admitted D H r v"

lemma visit_ok_hit [simp]: "visit_ok D H K r (v\<lparr>vHit := h\<rparr>) = visit_ok D H K r v"
  by (simp add: visit_ok_def)

text \<open>
  \<open>T\<close> holds the keys that a goroutine of this run has written. What the disk holds for the others is
  of an earlier run and may be anything; the index has no entry for them.
\<close>

definition seen_bodies :: "('s, 'o, 'l) deps \<Rightarrow> ('s, 'o, 'l, 'g) turns \<Rightarrow> string set \<Rightarrow> string \<Rightarrow> bytes set" where
  "seen_bodies D H T k = (if k \<in> T then bodies D H k else UNIV)"

definition seen_metas :: "('s, 'o, 'l) deps \<Rightarrow> ('s, 'o, 'l, 'g) turns \<Rightarrow> string set \<Rightarrow> string \<Rightarrow> Meta set" where
  "seen_metas D H T k = (if k \<in> T then metas D H k else {})"

lemmas seen_defs = seen_bodies_def seen_metas_def

abbreviation safe_call :: "('s, 'o, 'l) deps \<Rightarrow> ('s, 'o, 'l, 'g) turns \<Rightarrow> string set \<Rightarrow> string set \<Rightarrow> call \<Rightarrow> bool" where
  "safe_call D H K T \<equiv> call_safe K (seen_bodies D H T) (seen_metas D H T)"

lemma safe_call_mono: "safe_call D H K T c \<Longrightarrow> T \<subseteq> T' \<Longrightarrow> safe_call D H K T' c"
  by (cases "(K, seen_bodies D H T, seen_metas D H T, c)" rule: call_safe.cases)
     (auto simp: seen_defs split: if_splits)

lemma safe_call_turns: "safe_call D H K T c \<Longrightarrow> H \<subseteq> H' \<Longrightarrow> safe_call D H' K T c"
  using bodies_mono [of H H' D] metas_mono [of H H' D]
  by (cases "(K, seen_bodies D H T, seen_metas D H T, c)" rule: call_safe.cases)
     (fastforce simp: seen_defs split: if_splits)+

fun go_safe :: "('s, 'o, 'l) deps \<Rightarrow> ('s, 'o, 'l, 'g) turns \<Rightarrow> string set \<Rightarrow> string set \<Rightarrow> go \<Rightarrow> bool" where
  "go_safe D H K T (Biz r (Checking v)) = visit_ok D H K r v"
| "go_safe D H K T (Biz r (Matching v m)) = visit_ok D H K r v"
| "go_safe D H K T (Biz r (Evicting v c)) = visit_ok D H K r v"
| "go_safe D H K T (Biz r (Peeking v)) = visit_ok D H K r v"
| "go_safe D H K T (Biz r (Looking v c)) = (visit_ok D H K r v \<and> safe_call D H K T c)"
| "go_safe D H K T (Biz r (Entering v)) = visit_ok D H K r v"
| "go_safe D H K T (Biz r (Joined v)) = visit_ok D H K r v"
| "go_safe D H K T (Biz r (Again v c)) = (visit_ok D H K r v \<and> safe_call D H K T c)"
| "go_safe D H K T (Biz r (Pulling v)) = visit_ok D H K r v"
| "go_safe D H K T (Biz r (Stamping v resp)) = (visit_ok D H K r v \<and>
     pulled D H r v resp)"
| "go_safe D H K T (Biz r (Saving v b m c)) = (visit_ok D H K r v \<and> fetched_for D H (key_of D v) b m \<and>
     (c = SetIndex (key_of D v) (bytes_reader b) m \<longrightarrow> key_of D v \<in> T))"
| "go_safe D H K T (Biz r (Closing v res)) = (visit_ok D H K r v \<and> (\<forall>b m. res = Inr (b, m) \<longrightarrow> b \<in> bodies D H (key_of D v)))"
| "go_safe D H K T (Biz r (Replying v res)) = (visit_ok D H K r v \<and>
     (\<forall>rc m. res = Inr (rc, m) \<longrightarrow> rd_err rc = None \<and> rd_data rc \<in> bodies D H (key_of D v)))"
| "go_safe D H K T (Biz r (Answered vo out)) = (\<forall>w. out = Done w \<and> wStatus w = Some 200 \<longrightarrow>
     (\<exists>v. vo = Some v \<and> admitted D H r v \<and> wBody w \<in> bodies D H (key_of D v)))"
| "go_safe D H K T p = True"

lemma deliver_bytes: "deliver res = Inr (rc, m) \<longleftrightarrow> (\<exists>b. res = Inr (b, m) \<and> rc = bytes_reader b)"
  by (cases res rule: deliver.cases) auto

lemma go_safe_release:
  "go_safe D H K T (Biz r0 s) \<Longrightarrow> go_safe D H K T p \<Longrightarrow> go_safe D H K T (release D s p)"
  by (cases "(D, s, p)" rule: release.cases) (auto simp: deliver_bytes)

lemma go_safe_mono: "go_safe D H K T p \<Longrightarrow> T \<subseteq> T' \<Longrightarrow> go_safe D H K T' p"
  by (cases "(D, H, K, T, p)" rule: go_safe.cases) (auto intro: safe_call_mono)

lemma visit_ok_turns: "visit_ok D H K r v \<Longrightarrow> H \<subseteq> H' \<Longrightarrow> visit_ok D H' K r v"
  using turns_mono(1) by (auto simp: visit_ok_def)

lemma go_safe_turns:
  assumes "go_safe D H K T p" "H \<subseteq> H'" shows "go_safe D H' K T p"
  using assms(1) bodies_mono [OF assms(2), of D, THEN subsetD] turns_mono [OF assms(2)]
    safe_call_turns [OF _ assms(2)] visit_ok_turns [OF _ assms(2)]
  by (cases "(D, H, K, T, p)" rule: go_safe.cases) auto

text \<open>An answer with status 200 is the one of the handler.\<close>

lemma answer_200:
  assumes "answer r vo res (n, g) = (s1, n1, g1)" "\<And>w. res = Crashed w \<Longrightarrow> wStatus w = None"
  obtains out where "s1 = Answered vo out" "\<And>w. out = Done w \<Longrightarrow> wStatus w = Some 200 \<Longrightarrow> res = Done w"
  using assms http_Error_fresh
  by (cases res) (auto simp: answer_def Recovery_def RequestLogger_def)

context storage_contract
begin

definition store_ok :: "('s, 'o, 'l) deps \<Rightarrow> ('s, 'o, 'l, 'g) turns \<Rightarrow> string set \<Rightarrow> string set \<Rightarrow> ('s, 'o, 'l) node \<Rightarrow> bool" where
  "store_ok D H K T n \<longleftrightarrow> lru_inv (nCache n) \<and> meta_safe (seen_metas D H T) (nCache n) \<and> inv (nStorage n) \<and>
     reliable (nStorage n) \<and> body_safe lookup K (seen_bodies D H T) (nStorage n)"

lemma read_whole:
  assumes "inv st" "reliable st" "fst (stRead S k st) = Inr (rd, mo)"
  shows "rd_err rd = None"
proof (cases "lookup st k")
  case None
  with read_missing [OF assms(1) None] assms(3) show ?thesis by auto
next
  case (Some b)
  with read_complete [OF assms(1,2) Some] assms(3) show ?thesis by auto
qed

lemma evict_reliable:
  assumes "inv st \<and> reliable st"
  shows "inv (snd (evictLocked S (c, st))) \<and> reliable (snd (evictLocked S (c, st)))"
  by (rule evictLocked_storage [where P = "\<lambda>s. inv s \<and> reliable s"])
     (use assms delete_inv delete_reliable in auto)

lemma call_step_reliable:
  assumes "inv st" "reliable st" "call_step S F now c (ca, st) = (c1, ca1, st1)"
  shows "reliable st1"
proof (cases c)
  case (SetIndex k r m)
  with assms(3) have "set_index S k m (ca, st) = (ca1, st1)" by simp
  with assms(1,2) evict_reliable [of st "inserted k m ca"] show ?thesis
    by (cases "items ca k") (simp_all add: set_index_new, simp add: set_index_def)
next
  case (GetRead k m)
  with assms read_reliable [OF assms(1,2), of k] show ?thesis
    by (cases "stRead S k st") (auto split: sum.splits)
next
  case (SetWrite k r m)
  with assms write_reliable [OF assms(1,2), of k r "Some (metaToStorageMeta F m)"] show ?thesis
    by (cases "stWrite S k r (Some (metaToStorageMeta F m)) st") (auto split: option.splits)
next
  case (DelStore k)
  with assms delete_reliable [OF assms(1,2), of k] show ?thesis by (cases "stDelete S k st") auto
qed (use assms in \<open>auto split: prod.splits sum.splits\<close>)

lemma turn_safe:
  assumes "store_ok D H K T n" "dStorage D = S" "separate K" "safe_call D H K T c" "cache_turn D c n = (c1, n1)"
  shows "store_ok D H K T n1 \<and> safe_call D H K T c1"
    and "get_call k0 c \<Longrightarrow> c1 = GetDone k (Inr (rc, m)) \<Longrightarrow> rd_err rc = None"
proof -
  obtain now where t: "call_step S (dFmt D) now c (nCache n, nStorage n) = (c1, nCache n1, nStorage n1)"
    using assms(2) by (auto intro: cache_turnE [OF assms(5)])
  have n: "lru_inv (nCache n)" "meta_safe (seen_metas D H T) (nCache n)" "inv (nStorage n)" "reliable (nStorage n)"
    "body_safe lookup K (seen_bodies D H T) (nStorage n)" using assms(1) by (simp_all add: store_ok_def)
  show "store_ok D H K T n1 \<and> safe_call D H K T c1"
    using call_step_safe [OF n(1-3,5) assms(3,4) t] call_step_reliable [OF n(3,4) t] by (simp add: store_ok_def)
  assume "get_call k0 c" "c1 = GetDone k (Inr (rc, m))"
  with t obtain m0 x where "stRead S k0 (nStorage n) = (Inr (rc, x), nStorage n1)"
    by (auto simp: get_call_def split: prod.splits sum.splits)
  with read_whole [OF n(3,4), of k0 rc x] show "rd_err rc = None" by simp
qed

lemma persist_ok:
  assumes "inv st" "reliable st" "separate (insert persistKey K)" "persistKey \<notin> K"
  shows "inv (snd (persist S J rs st)) \<and> reliable (snd (persist S J rs st)) \<and>
    (\<forall>k \<in> K. lookup (snd (persist S J rs st)) k = lookup st k)"
proof (cases "marshalRules J rs")
  case (Some data)
  let ?w = "stWrite S persistKey (bytes_reader data) (Some rules_metadata) st"
  have "snd (persist S J rs st) = snd ?w" by (simp add: persist_def Some split: prod.split option.split)
  moreover have "lookup (snd ?w) k = lookup st k" if "k \<in> K" for k
    using assms(3,4) that by (intro write_frame [OF assms(1)]) (auto simp: separate_def)
  ultimately show ?thesis using write_inv [OF assms(1)] write_reliable [OF assms(1,2)] by simp
qed (use assms in \<open>simp add: persist_def\<close>)

lemma store_ok_persist:
  assumes "store_ok D H K T n" "separate (insert persistKey K)" "persistKey \<notin> K" "nCache n' = nCache n"
    and "nStorage n' = nStorage n \<or> nStorage n' = snd (persist S J rs (nStorage n))"
  shows "store_ok D H K T n'"
  using assms persist_ok [of "nStorage n" K J rs] by (auto simp: store_ok_def body_safe_def)

end

lemma atomic_event_storage:
  assumes "atomic_event ev"
  obtains rs where "nStorage (sys_step D A ev n) = nStorage n \<or>
    nStorage (sys_step D A ev n) = snd (persist (dStorage D) (dRules D) rs (nStorage n))"
proof (cases ev)
  case (EvAdmin ep query body)
  have "\<exists>rs. nStorage (snd (add_flush_rule D A d p new_writer n)) = snd (persist (dStorage D) (dRules D) rs (nStorage n))" for d p
    by (auto simp: add_flush_rule_def Let_def time_Now_def Store_AddRule_def split: prod.split option.split)
      (metis snd_conv)+
  with EvAdmin assms that show ?thesis
    by (cases ep) (fastforce simp: FlushPrefix_def FlushDomain_def Stat_def Let_def time_Now_def
        split: option.splits list.splits sum.splits)+
next
  case (EvReload cfg)
  have "\<exists>rs. nStorage (hot_reload D cfg n) = snd (persist (dStorage D) (dRules D) rs (nStorage n))"
    by (auto simp: hot_reload_def Update_def Let_def time_Now_def Store_Cleanup_def split: prod.split) (metis snd_conv)
  with EvReload that show ?thesis by auto
next
  case (EvLimiterTick d)
  with that show ?thesis by simp
qed (use assms in simp)

lemma fetch_meta_entry:
  assumes "fetch_meta D (vCfg v) (key_of D v) resp wd = (Inr (rd, m), wd1)" "pulled D H r v resp"
  obtains b where "rd = bytes_reader b" "fetched_for D H (key_of D v) b m" "mKey m = key_of D v"
proof -
  obtain b where r: "ReadAll (RespBody resp) = Inr b" and b: "rd = bytes_reader b" "mHeaders m = Some (RespHeader resp)"
    using assms(1) by (auto simp: fetch_meta_def Let_def time_Now_def split: sum.splits)
  from r have "RespBody resp = bytes_reader b" by (simp add: ReadAll_Inr)
  with b assms(2) have "fetched_for D H (key_of D v) b m" unfolding fetched_for_def by blast
  with b fetch_meta_Inr(3) [OF assms(1)] that show ?thesis by blast
qed

context storage_contract
begin

text \<open>The stages in which more than the call at hand matters.\<close>

lemma arrived_safe:
  assumes g: "go_step D Gr r Arrived (n, g) = (s1, n1, g1)" and ok: "store_ok D H K T n" and inv: "node_inv n"
    and D: "dRegistry D = plugin_registry X R" and key: "\<And>k. go_key D (Biz r s1) = Some k \<Longrightarrow> k \<in> K"
    and turn: "(x, i) \<in> H" "sNode x = n" "sGos x ! i = Biz r Arrived"
  shows "store_ok D H K T n1 \<and> go_safe D H K T (Biz r s1)"
proof (cases "nDomains n (stripPort (Host r))")
  case None
  with g have a: "answer r None (Done (http_NotFound (wrapped new_writer))) (n, g) = (s1, n1, g1)" by simp
  from answer_200 [OF a] obtain out where "s1 = Answered None out"
    "\<And>w. out = Done w \<Longrightarrow> wStatus w = Some 200 \<Longrightarrow> http_NotFound (wrapped new_writer) = w" by auto
  with answer_node [OF a] ok http_Error_fresh [of "wrapped new_writer"] show ?thesis
    by (auto simp: store_ok_def http_NotFound_def new_writer_def)
next
  case (Some cfg)
  have frame: "store_ok D H K T (n\<lparr>nWorld := wd\<rparr>)" for wd using ok by (simp add: store_ok_def)
  obtain ok pCtx w1 r1 wd1 where p: "Pipeline_Execute (dRegistry D) (Plugins cfg) (Domain cfg)
      (wrapped new_writer) r (nWorld n) = (ok, pCtx, w1, r1, wd1)"
    by (metis prod_cases5)
  note run = p [unfolded Pipeline_Execute_def Let_def D]
  show ?thesis
  proof (cases ok)
    case True
    then have t: "ok = True" by simp
    have "w1 = wrapped new_writer" by (rule plugins.run_pass [OF run [unfolded t]])
    moreover have "Domain cfg = stripPort (Host r)" using inv Some by (simp add: node_inv_def)
    moreover have "admitted D H r \<lparr>vCfg = cfg, vCtx = pCtx, vReq = r1, vW = w1, vHit = False\<rparr>"
      using p t Some turn calculation(2) by (auto simp: admitted_def visits_def)
    ultimately show ?thesis using Some p t g key frame by (auto simp: visit_ok_def)
  next
    case False
    then have f: "ok = False" by simp
    from Some p f g have a: "answer r None (Done w1) (n\<lparr>nWorld := wd1\<rparr>, g) = (s1, n1, g1)" by simp
    from answer_200 [OF a] obtain out where "s1 = Answered None out"
      "\<And>w. out = Done w \<Longrightarrow> wStatus w = Some 200 \<Longrightarrow> w1 = w" by auto
    with answer_node [OF a] frame [of wd1] http_Error_fresh [of "wrapped new_writer"]
      run_plugins_reject [OF run [unfolded f]] show ?thesis
      by (auto simp: store_ok_def new_writer_def)
  qed
qed

lemma get_safe:
  assumes "store_ok D H K T n" "dStorage D = S" "separate K" "node_inv n" "get_call k c" "safe_call D H K T c"
    and "cache_turn D c n = (c1, n1)"
  shows "store_ok D H K T n1 \<and> (if finished c1
    then \<exists>res. c1 = GetDone k res \<and> (\<forall>rc m. res = Inr (rc, m) \<longrightarrow> rd_err rc = None \<and> rd_data rc \<in> bodies D H k)
    else safe_call D H K T c1)"
  using turn_safe [OF assms(1-3,6,7)] get_turn [OF assms(5,7,4)] assms(5)
  by (auto simp: seen_defs split: sum.splits if_splits)

text \<open>A write that succeeds adds its key to those written.\<close>

lemma store_ok_written:
  assumes "store_ok D H K T n" "separate K" "k \<in> K" "rd_err r = None \<longrightarrow> rd_data r \<in> bodies D H k"
    and "stWrite S k r mo (nStorage n) = (e, st)" "e = None \<longrightarrow> T' = insert k T" "e \<noteq> None \<longrightarrow> T' = T"
    and "nCache n' = nCache n" "nStorage n' = st"
  shows "store_ok D H K T' n'"
proof -
  let ?st = "nStorage n"
  have ok: "inv ?st" "reliable ?st" "body_safe lookup K (seen_bodies D H T) ?st" "lru_inv (nCache n)"
    "meta_safe (seen_metas D H T) (nCache n)" using assms(1) by (simp_all add: store_ok_def)
  have r: "rd_err r = None \<longrightarrow> rd_data r \<in> seen_bodies D H T k" using assms(4) by (simp add: seen_bodies_def)
  have w: "inv st" "body_safe lookup K (seen_bodies D H T) st" "reliable st"
    using body_safe_write [OF ok(1,3) assms(2,3) r, of mo] write_reliable [OF ok(1,2), of k r mo] assms(5) by simp_all
  have new: "b \<in> bodies D H k" if "e = None" "lookup st k = Some b" for b
    using write_sound [OF ok(1), of k r mo b] write_reader [OF ok(1), of k r mo] assms(4,5) that by simp
  have "body_safe lookup K (seen_bodies D H T') st"
    using w(2) new assms(6,7) by (cases e) (auto simp: body_safe_def seen_bodies_def)
  moreover have "meta_safe (seen_metas D H T') (nCache n)"
    using ok(5) assms(6,7) by (cases e) (auto simp: meta_safe_def seen_metas_def split: if_splits)
  ultimately show ?thesis using w ok(4) assms(8,9) by (simp add: store_ok_def)
qed

lemma saving_safe:
  assumes g: "go_step D Gr r (Saving v b m c) (n, g) = (s1, n1, g1)"
    and ok: "store_ok D H K T n" "go_safe D H K T (Biz r (Saving v b m c))" "go_ok D (Biz r (Saving v b m c))"
    and D: "dStorage D = S" "separate K"
  shows "\<exists>T'. T \<subseteq> T' \<and> store_ok D H K T' n1 \<and> go_safe D H K T' (Biz r s1)"
proof -
  let ?k = "key_of D v" let ?r = "bytes_reader b"
  obtain c1 n2 where t: "cache_turn D c n = (c1, n2)" by (cases "cache_turn D c n")
  have v: "visit_ok D H K r v" "fetched_for D H ?k b m" and k: "?k \<in> K" and bm: "b \<in> bodies D H ?k" "m \<in> metas D H ?k"
    using ok(2) bodies_metas [of D H ?k b m] by (auto simp: visit_ok_def)
  from ok(3) consider "c = SetWrite ?k ?r m" | "c = SetIndex ?k ?r m" and "mKey m = ?k" by (auto simp: set_call_def)
  then show ?thesis
  proof cases
    case 1
    obtain e st where w: "stWrite S ?k ?r (Some (metaToStorageMeta (dFmt D) m)) (nStorage n) = (e, st)"
      by (cases "stWrite S ?k ?r (Some (metaToStorageMeta (dFmt D) m)) (nStorage n)")
    have n2: "nCache n2 = nCache n" "nStorage n2 = st" "if e = None then c1 = SetIndex ?k ?r m else \<exists>ce. c1 = SetDone ?k ?r m ce"
      using t 1 w D(1) by (auto simp: cache_turn_def split: option.splits)
    define T' where "T' = (if e = None then insert ?k T else T)"
    have "store_ok D H K T' n2"
      by (rule store_ok_written [OF ok(1) D(2) k _ w _ _ n2(1,2)]) (auto simp: T'_def bm)
    with g t n2(3) v bm show ?thesis
      by (intro exI [of _ T']) (auto simp: T'_def split: if_splits)
  next
    case 2
    then have "safe_call D H K T c" using ok(2) bm k by (simp add: seen_defs)
    from turn_safe(1) [OF ok(1) D this t] 2 t g v bm show ?thesis
      by (intro exI [of _ T]) (auto simp: cache_turn_def split: prod.splits)
  qed
qed

lemma stamping_safe:
  assumes g: "go_step D Gr r (Stamping v resp) (n, g) = (s1, n1, g1)"
    and ok: "store_ok D H K T n" "go_safe D H K T (Biz r (Stamping v resp))"
  shows "store_ok D H K T n1 \<and> go_safe D H K T (Biz r s1)"
proof -
  have frame: "store_ok D H K T (n\<lparr>nWorld := wd\<rparr>)" for wd using ok(1) by (simp add: store_ok_def)
  obtain res wd1 where m: "fetch_meta D (vCfg v) (key_of D v) resp (nWorld n) = (res, wd1)"
    by (cases "fetch_meta D (vCfg v) (key_of D v) resp (nWorld n)")
  show ?thesis
  proof (cases res)
    case (Inl e)
    with m g ok(2) frame show ?thesis by auto
  next
    case (Inr x)
    obtain rd meta where x: "x = (rd, meta)" by (cases x)
    obtain b where "rd = bytes_reader b" "fetched_for D H (key_of D v) b meta" "mKey meta = key_of D v"
      using fetch_meta_entry [OF m [unfolded Inr x]] ok(2) by auto
    with bodies_metas [OF this(2)] m Inr x g ok(2) frame show ?thesis
      by (auto simp: ReadAll_Inr visit_ok_def split: sum.splits)
  qed
qed

lemma replying_safe:
  assumes g: "go_step D Gr r (Replying v res) (n, g) = (s1, n1, g1)"
    and ok: "store_ok D H K T n" "go_safe D H K T (Biz r (Replying v res))"
  shows "store_ok D H K T n1 \<and> go_safe D H K T (Biz r s1)"
proof -
  obtain out n2 where o: "respond v res n = (out, n2)" by (cases "respond v res n")
  have vw: "wStatus (vW v) = None" "wBody (vW v) = []" using ok(2) by (auto simp: visit_ok_def new_writer_def)
  from g o have a: "answer r (Some v) out (n2, g) = (s1, n1, g1)" by simp
  have cr: "out = Crashed w \<Longrightarrow> wStatus w = None" for w
    using o vw by (auto simp: respond_def split: sum.splits sf_err.splits fetch_err.splits)
  from answer_200 [OF a cr] obtain out1 where s1: "s1 = Answered (Some v) out1"
    "\<And>w. out1 = Done w \<Longrightarrow> wStatus w = Some 200 \<Longrightarrow> out = Done w" by auto
  have "wBody w \<in> bodies D H (key_of D v)" if "out = Done w" "wStatus w = Some 200" for w
    using o that ok(2) vw http_Error_fresh [OF vw(1)] write_response_fresh(2) [OF vw(1)]
    by (auto simp: respond_def split: sum.splits sf_err.splits fetch_err.splits)
  with s1 answer_node [OF a] respond_node [OF o] ok show ?thesis by (auto simp: store_ok_def visit_ok_def)
qed

text \<open>The other turns write no key.\<close>

lemma go_step_keeps:
  assumes g: "go_step D Gr r s (n, g) = (s1, n1, g1)" and ok: "store_ok D H K T n" "go_safe D H K T (Biz r s)"
    and D: "dStorage D = S" "dRegistry D = plugin_registry X R" and sep: "separate K"
    and inv: "node_inv n" "go_ok D (Biz r s)" and key: "\<And>k. go_key D (Biz r s1) = Some k \<Longrightarrow> k \<in> K"
    and turn: "(x, i) \<in> H" "sNode x = n" "sGos x ! i = Biz r s"
    and other: "\<And>v b m c. s \<noteq> Saving v b m c"
  shows "store_ok D H K T n1 \<and> go_safe D H K T (Biz r s1)"
proof (cases s)
  case Arrived
  from arrived_safe [OF g [unfolded Arrived] ok(1) inv(1) D(2) key turn(1,2)] turn(3) Arrived show ?thesis by simp
next
  case (Evicting v c)
  obtain c1 n2 where t: "cache_turn D c n = (c1, n2)" by (cases "cache_turn D c n")
  have "safe_call D H K T c" using inv(2) Evicting by (auto simp: del_call_def)
  from turn_safe(1) [OF ok(1) D(1) sep this t] Evicting g ok(2) t show ?thesis by (auto split: if_splits)
next
  case (Looking v c)
  obtain c1 n2 where t: "cache_turn D c n = (c1, n2)" by (cases "cache_turn D c n")
  from get_safe [OF ok(1) D(1) sep inv(1) _ _ t, of "key_of D v"] inv(2) ok(2) Looking g t show ?thesis
    by (auto split: if_splits call.splits sum.splits)
next
  case (Again v c)
  obtain c1 n2 where t: "cache_turn D c n = (c1, n2)" by (cases "cache_turn D c n")
  from get_safe [OF ok(1) D(1) sep inv(1) _ _ t, of "key_of D v"] inv(2) ok(2) Again g t show ?thesis
    by (auto simp: ReadAll_def split: if_splits call.splits sum.splits option.splits)
next
  case (Pulling v)
  obtain out p1 where o: "fetch_pull D (vCfg v) (vCtx v) (vReq v) (nPuller n) = (out, p1)"
    by (cases "fetch_pull D (vCfg v) (vCtx v) (vReq v) (nPuller n)")
  with turn have "pulled D H r v resp" if "out = Returned resp" for resp
    using that ok(2) Pulling by (auto simp: pulled_def visit_ok_def)
  with Pulling g ok o show ?thesis by (auto simp: store_ok_def split: outcome.splits)
next
  case (Stamping v resp)
  from stamping_safe [OF g [unfolded this] ok(1) ok(2) [unfolded this]] show ?thesis .
next
  case (Closing v res)
  with g ok show ?thesis by (auto simp: deliver_bytes)
next
  case (Replying v res)
  from replying_safe [OF g [unfolded this] ok(1) ok(2) [unfolded this]] show ?thesis .
qed (use g ok other in \<open>auto simp: visit_ok_def Let_def split: sum.splits option.splits prod.splits\<close>)

lemma go_step_safe:
  assumes g: "go_step D Gr r s (n, g) = (s1, n1, g1)" and ok: "store_ok D H K T n" "go_safe D H K T (Biz r s)"
    and D: "dStorage D = S" "dRegistry D = plugin_registry X R" and sep: "separate K"
    and inv: "node_inv n" "go_ok D (Biz r s)" and key: "\<And>k. go_key D (Biz r s1) = Some k \<Longrightarrow> k \<in> K"
    and turn: "(x, i) \<in> H" "sNode x = n" "sGos x ! i = Biz r s"
  shows "\<exists>T'. T \<subseteq> T' \<and> store_ok D H K T' n1 \<and> go_safe D H K T' (Biz r s1)"
proof (cases "\<exists>v b m c. s = Saving v b m c")
  case True
  then obtain v b m c where s: "s = Saving v b m c" by blast
  show ?thesis by (rule saving_safe [OF g [unfolded s] ok(1) ok(2) [unfolded s] inv(2) [unfolded s] D(1) sep])
next
  case False
  with go_step_keeps [OF g ok D sep inv key turn] show ?thesis by blast
qed

lemma adm_step_safe:
  assumes "adm_step D A s n = (s1, n1)" "store_ok D H K T n" "dStorage D = S" "separate K" "go_ok D (Adm s)"
  shows "store_ok D H K T n1"
proof (cases s)
  case (AdmDelete k c)
  obtain c1 n2 where t: "cache_turn D c n = (c1, n2)" by (cases "cache_turn D c n")
  have "safe_call D H K T c" using assms(5) AdmDelete by (auto simp: del_call_def)
  from turn_safe(1) [OF assms(2-4) this t] AdmDelete assms(1) t show ?thesis by (auto split: if_splits)
qed (use assms in \<open>auto split: option.splits if_splits\<close>)

definition service_safe ::
  "('s, 'o, 'tb limits) deps \<Rightarrow> ('s, 'o, 'tb limits, 'g) turns \<Rightarrow> string set \<Rightarrow> ('s, 'o, 'tb limits, 'g) service \<Rightarrow> bool" where
  "service_safe D H K x \<longleftrightarrow> (\<exists>T. store_ok D H K T (sNode x) \<and> list_all (go_safe D H K T) (sGos x))"

lemma service_turn_safe:
  assumes i: "i < length (sGos x)" and D: "dStorage D = S" "dRegistry D = plugin_registry X R"
    and sep: "separate K" and keys: "service_keys D (service_turn D A Gr i x) \<subseteq> K" and turn: "(x, i) \<in> H"
    and inv: "service_inv D cap x" and safe: "service_safe D H K x"
  shows "service_safe D H K (service_turn D A Gr i x)"
proof -
  from safe obtain T where T: "store_ok D H K T (sNode x)" "list_all (go_safe D H K T) (sGos x)"
    unfolding service_safe_def by blast
  have p: "go_ok D (sGos x ! i)" "go_safe D H K T (sGos x ! i)" "node_inv (sNode x)"
    using inv T(2) i by (simp_all add: service_inv_def list_all_length)
  have upd: "list_all (go_safe D H K T') ((sGos x)[i := q])" if "go_safe D H K T' q" "T \<subseteq> T'" for q T'
  proof (rule list_all_update)
    show "list_all (go_safe D H K T') (sGos x)"
      using T(2) that(2) unfolding list_all_iff by (blast intro: go_safe_mono)
  qed (rule that(1))
  show ?thesis
  proof (cases "sGos x ! i")
    case (Biz r s)
    obtain s1 n1 g1 where g: "go_step D Gr r s (sNode x, sGroup x) = (s1, n1, g1)"
      by (cases "go_step D Gr r s (sNode x, sGroup x)")
    have y: "service_turn D A Gr i x = x\<lparr>sNode := n1, sGroup := g1, sGos := map (release D s) ((sGos x)[i := Biz r s1])\<rparr>"
      by (simp add: service_turn_def Biz g)
    have "k \<in> K" if "go_key D (Biz r s1) = Some k" for k
      using that keys set_update_memI [OF i, of "Biz r s1"] by (auto simp: service_keys_def y)
    from go_step_safe [OF g T(1) _ D sep p(3) _ this turn refl] p Biz obtain T' where
      T': "T \<subseteq> T'" "store_ok D H K T' n1" "go_safe D H K T' (Biz r s1)" by auto
    have "go_safe D H K T' (Biz r s)" using go_safe_mono [OF p(2) T'(1)] Biz by simp
    then have "list_all (go_safe D H K T') (map (release D s) ps)" if "list_all (go_safe D H K T') ps" for ps
      using that go_safe_release [of D H K T' r s] by (simp add: list_all_iff)
    with upd T' show ?thesis by (auto simp: y service_safe_def)
  next
    case (Adm s)
    obtain s1 n1 where g: "adm_step D A s (sNode x) = (s1, n1)" by (cases "adm_step D A s (sNode x)")
    from adm_step_safe [OF g T(1) D(1) sep] p(1) Adm g upd [of T "Adm s1"] show ?thesis
      by (auto simp: service_turn_def service_safe_def)
  qed
qed

lemma service_step_safe:
  assumes step: "service_step D A Gr x y" and D: "dStorage D = S" "dRegistry D = plugin_registry X R"
    and sep: "separate (insert persistKey K)" "persistKey \<notin> K" and keys: "service_keys D y \<subseteq> K"
    and inv: "service_inv D cap x" and safe: "service_safe D H K x"
    and turns: "\<And>i. i < length (sGos x) \<Longrightarrow> can_run (sGos x ! i) \<Longrightarrow> y = service_turn D A Gr i x \<Longrightarrow> (x, i) \<in> H"
  shows "service_safe D H K y"
  using step
proof cases
  case (turn i)
  have "separate K" using sep(1) by (simp add: separate_def)
  from service_turn_safe [OF turn(2) D this _ turns [OF turn(2,3,1)] inv safe] keys turn(1) show ?thesis by simp
next
  case (event ev)
  obtain rs where "nStorage (sys_step D A ev (sNode x)) = nStorage (sNode x) \<or>
      nStorage (sys_step D A ev (sNode x)) = snd (persist S (dRules D) rs (nStorage (sNode x)))"
    using D(1) by (auto intro: atomic_event_storage [OF event(2), of D A "sNode x"])
  moreover from safe obtain T where T: "store_ok D H K T (sNode x)" "list_all (go_safe D H K T) (sGos x)"
    unfolding service_safe_def by blast
  ultimately have "store_ok D H K T (sNode y)"
    using event(1) atomic_event_inv [OF event(2), of "sNode x" D A] inv
      store_ok_persist [OF T(1) sep, of "sys_step D A ev (sNode x)"] by (auto simp: service_inv_def)
  with T(2) event(1) show ?thesis by (auto simp: service_safe_def)
qed (use safe in \<open>auto simp: service_safe_def\<close>)

lemma store_ok_turns: "store_ok D H K T n \<Longrightarrow> H \<subseteq> H' \<Longrightarrow> store_ok D H' K T n"
  using bodies_mono [of H H' D, THEN subsetD] metas_mono [of H H' D, THEN subsetD]
  by (auto simp: store_ok_def meta_safe_def body_safe_def seen_defs split: if_splits)

lemma service_safe_turns:
  assumes "service_safe D H K x" "H \<subseteq> H'" shows "service_safe D H' K x"
proof -
  from assms(1) obtain T where T: "store_ok D H K T (sNode x)" "list_all (go_safe D H K T) (sGos x)"
    unfolding service_safe_def by blast
  from T(2) have "list_all (go_safe D H' K T) (sGos x)"
    by (rule list.pred_mono_strong) (rule go_safe_turns [OF _ assms(2)])
  with store_ok_turns [OF T(1) assms(2)] show ?thesis unfolding service_safe_def by blast
qed

lemma service_run_safe:
  assumes "service_run D A Gr x y" and D: "dStorage D = S" "dRegistry D = plugin_registry X R"
    and sep: "separate (insert persistKey K)" "persistKey \<notin> K" and keys: "service_keys D y \<subseteq> K"
    and inv: "service_inv D cap x" "service_safe D {} K x"
  shows "service_safe D (turns_made D A Gr x y) K y"
  using assms(1) keys
proof (induction rule: rtranclp_induct)
  case base
  show ?case by (rule service_safe_turns [OF inv(2)]) simp
next
  case (step y z)
  have "service_keys D y \<subseteq> K" using service_keys_step [OF step.hyps(2)] step.prems by blast
  note IH = step.IH [OF this]
  have "service_safe D (turns_made D A Gr x z) K y"
    by (rule service_safe_turns [OF IH turns_made_mono]) (use step.hyps(2) in blast)
  moreover have "service_inv D cap y" by (rule service_run_inv [OF step.hyps(1) D(2) inv(1)])
  moreover have "(y, i) \<in> turns_made D A Gr x z"
    if "i < length (sGos y)" "can_run (sGos y ! i)" "z = service_turn D A Gr i y" for i
    using that step.hyps(1) by (simp add: turns_made_def)
  ultimately show ?case using service_step_safe [OF step.hyps(2) D sep step.prems] by blast
qed

lemma service_safe_start:
  assumes "nCache n = NewLRUCache cap" "0 \<le> cap" "inv (nStorage n)" "reliable (nStorage n)"
  shows "service_safe D H K (idle n g)"
  unfolding service_safe_def
proof (intro exI [of _ "{}"] conjI)
  show "store_ok D H K {} (sNode (idle n g))"
    using assms by (simp add: store_ok_def idle_def lru_inv_new meta_safe_def body_safe_def seen_defs)
      (simp add: NewLRUCache_def)
qed (simp add: idle_def)

end

end
