(* ===== verification/ServiceAlone.thy ===== *)
theory ServiceAlone
  imports ServiceConc
begin

text \<open>
  A request whose goroutine is never interrupted does what \<open>bizHandler\<close> of the sequential model does:
  the turns of ServiceConc split the handler without changing it. The two differ in how often they
  read the clock on a hit, where the sequential model reads it for both lookups.
\<close>

section \<open>Turns of one goroutine\<close>

fun alone ::
  "('s, 'o, 'l) deps \<Rightarrow> 'g group_ops \<Rightarrow> Request \<Rightarrow> nat \<Rightarrow> stage \<times> ('s, 'o, 'l) node \<times> 'g \<Rightarrow>
   stage \<times> ('s, 'o, 'l) node \<times> 'g" where
  "alone D Gr r 0 x = x"
| "alone D Gr r (Suc m) x = alone D Gr r m (go_step D Gr r (fst x) (snd x))"

definition goes ::
  "('s, 'o, 'l) deps \<Rightarrow> 'g group_ops \<Rightarrow> Request \<Rightarrow> stage \<times> ('s, 'o, 'l) node \<times> 'g \<Rightarrow>
   stage \<times> ('s, 'o, 'l) node \<times> 'g \<Rightarrow> bool" where
  "goes D Gr r x y \<longleftrightarrow> (\<exists>m. alone D Gr r m x = y)"

lemma alone_add: "alone D Gr r (m + m') x = alone D Gr r m' (alone D Gr r m x)"
  by (induction m arbitrary: x) simp_all

lemma goes_refl [simp]: "goes D Gr r x x"
  unfolding goes_def by (rule exI [of _ 0]) simp

lemma goes_same: "x = y \<Longrightarrow> goes D Gr r x y"
  by simp

lemma goes_trans: "goes D Gr r x y \<Longrightarrow> goes D Gr r y z \<Longrightarrow> goes D Gr r x z"
  unfolding goes_def using alone_add by metis

lemma goes_turn: "go_step D Gr r s (n, g) = y \<Longrightarrow> goes D Gr r y z \<Longrightarrow> goes D Gr r (s, n, g) z"
  unfolding goes_def by (metis alone.simps(2) fst_conv snd_conv)

lemma alone_answered: "alone D Gr r m (Answered vo out, x) = (Answered vo out, x)"
  by (induction m) simp_all

lemma alone_joined: "alone D Gr r m (Joined v, x) = (Joined v, x)"
  by (induction m) simp_all

text \<open>What it reaches it reaches within the bound of ServiceConc.\<close>

lemma alone_bound:
  assumes "alone D Gr r m (s, x) = (Answered vo out, y)"
  shows "alone D Gr r (go_left (Biz r s)) (s, x) = (Answered vo out, y)"
  using assms
proof (induction m arbitrary: s x)
  case 0
  then show ?case by simp
next
  case (Suc m)
  obtain s1 x1 where t: "go_step D Gr r s x = (s1, x1)" by (cases "go_step D Gr r s x")
  from Suc t have IH: "alone D Gr r (go_left (Biz r s1)) (s1, x1) = (Answered vo out, y)" by simp
  show ?case
  proof (cases "can_run (Biz r s)")
    case True
    from go_step_left [OF this, of D Gr x] obtain j where j: "go_left (Biz r s) = Suc (go_left (Biz r s1) + j)"
      using t less_imp_Suc_add by fastforce
    show ?thesis by (simp add: j t alone_add IH alone_answered)
  next
    case False
    with Suc.prems show ?thesis
      by (cases s) (auto simp: alone_joined alone_answered)
  qed
qed

lemma goes_answered:
  "goes D Gr r (Arrived, x) (Answered vo out, y) \<Longrightarrow> alone D Gr r 23 (Arrived, x) = (Answered vo out, y)"
  unfolding goes_def by (elim exE, drule alone_bound) simp


section \<open>The calls of the cache\<close>

definition at_clock :: "nat \<Rightarrow> ('s, 'o, 'l) node \<Rightarrow> ('s, 'o, 'l) node" where
  "at_clock t n = n\<lparr>nWorld := (nWorld n)\<lparr>wticks := t\<rparr>\<rparr>"

lemma Get_parts:
  "LRUCache_Get S now k (c, st) =
     (case get_index now k c of
        (Inl e, c1) \<Rightarrow> (Inl e, c1, st)
      | (Inr m, c1) \<Rightarrow>
          (case stRead S k st of
             (Inl e, st1) \<Rightarrow> (Inl (CacheStorageRead e), drop_index k c1, st1)
           | (Inr (rc, x), st1) \<Rightarrow> (Inr (rc, m), c1, st1)))"
  by (auto simp: LRUCache_Get_def get_index_def drop_index_def Let_def split: option.split sum.split prod.split)

lemma Set_parts:
  "LRUCache_Set S F k r m (c, st) =
     (case stWrite S k r (Some (metaToStorageMeta F m)) st of
        (Some e, st1) \<Rightarrow> (Some (CacheStorageWrite e), c, st1)
      | (None, st1) \<Rightarrow> (None, set_index S k m (c, st1)))"
  by (auto simp: LRUCache_Set_def set_index_def Let_def split: option.split prod.split)

lemma Delete_parts:
  "LRUCache_Delete S k (c, st) = (case stDelete S k st of (e, st1) \<Rightarrow> (e, drop_index k c, st1))"
  by (simp add: LRUCache_Delete_def drop_index_def Let_def split: prod.split)

lemma cache_turn_clock:
  assumes "time_Now (nWorld n) = (now, wd)"
  shows "cache_turn D (GetLookup k) n =
    (case call_step (dStorage D) (dFmt D) now (GetLookup k) (nCache n, nStorage n) of
       (c1, ca, st) \<Rightarrow> (c1, n\<lparr>nCache := ca, nStorage := st, nWorld := wd\<rparr>))"
  by (simp add: cache_turn_def assms split: prod.split)

text \<open>\<open>f\<close> is the stage that makes the lookup, \<open>hit\<close> and \<open>miss\<close> are what follows it.\<close>

lemma goes_get:
  assumes "time_Now (nWorld n) = (now, wd)"
    and "LRUCache_Get (dStorage D) now k (nCache n, nStorage n) = (res, c, st)"
    and f: "\<And>c n. go_step D Gr r (f c) (n, g) =
      (case cache_turn D c n of
         (GetDone k' (Inr x), n1) \<Rightarrow> (hit x, n1, g)
       | (c1, n1) \<Rightarrow> (if finished c1 then miss else f c1, n1, g))"
  shows "goes D Gr r (f (GetLookup k), n, g)
    (case res of Inl _ \<Rightarrow> miss | Inr x \<Rightarrow> hit x, n\<lparr>nCache := c, nStorage := st, nWorld := wd\<rparr>, g)"
proof -
  note turn = cache_turn_clock [OF assms(1)]
  obtain i c1 where i: "get_index now k (nCache n) = (i, c1)" by (cases "get_index now k (nCache n)")
  show ?thesis
  proof (cases i)
    case (Inl e)
    with i assms(2) show ?thesis
      by (intro goes_turn [OF refl]) (auto simp: f turn Get_parts)
  next
    case (Inr m)
    obtain q st1 where q: "stRead (dStorage D) k (nStorage n) = (q, st1)" by (cases "stRead (dStorage D) k (nStorage n)")
    show ?thesis
    proof (cases q)
      case (Inl e)
      have "goes D Gr r (f (GetRead k m), n\<lparr>nCache := c1, nWorld := wd\<rparr>, g)
          (miss, n\<lparr>nCache := drop_index k c1, nStorage := st1, nWorld := wd\<rparr>, g)"
        by (rule goes_turn [OF refl], simp add: f cache_turn_def q Inl,
            rule goes_turn [OF refl], simp add: f cache_turn_def)
      with i q Inr Inl assms(2) show ?thesis
        by (intro goes_turn [OF refl]) (auto simp: f turn Get_parts)
    next
      case (Inr y)
      have "goes D Gr r (f (GetRead k m), n\<lparr>nCache := c1, nWorld := wd\<rparr>, g)
          (hit (fst y, m), n\<lparr>nCache := c1, nStorage := st1, nWorld := wd\<rparr>, g)"
        by (rule goes_turn [OF refl]) (simp add: f cache_turn_def q Inr split: prod.split)
      with i q \<open>i = Inr m\<close> Inr assms(2) show ?thesis
        by (intro goes_turn [OF refl]) (auto simp: f turn Get_parts split: prod.splits)
    qed
  qed
qed

lemma goes_Looking:
  assumes "time_Now (nWorld n) = (now, wd)"
    and "LRUCache_Get (dStorage D) now (key_of D v) (nCache n, nStorage n) = (res, c, st)"
  shows "goes D Gr r (Looking v (GetLookup (key_of D v)), n, g)
    (case res of Inl _ \<Rightarrow> Entering v | Inr x \<Rightarrow> Replying v (Inr x), n\<lparr>nCache := c, nStorage := st, nWorld := wd\<rparr>, g)"
  by (rule goes_get [OF assms]) (auto split: prod.split call.split sum.split)

lemma goes_Again:
  assumes "time_Now (nWorld n) = (now, wd)"
    and "LRUCache_Get (dStorage D) now (key_of D v) (nCache n, nStorage n) = (res, c, st)"
  shows "goes D Gr r (Again v (GetLookup (key_of D v)), n, g)
    (case res of Inl _ \<Rightarrow> Pulling v
     | Inr (rc, m) \<Rightarrow> Closing v (case ReadAll rc of Inl e \<Rightarrow> Inl (SFRead e) | Inr body \<Rightarrow> Inr (body, m)),
     n\<lparr>nCache := c, nStorage := st, nWorld := wd\<rparr>, g)"
  by (rule goes_get [OF assms]) (auto split: prod.split call.split sum.split)

lemma goes_Saving:
  assumes "LRUCache_Set (dStorage D) (dFmt D) (key_of D v) (bytes_reader b) m (nCache n, nStorage n) = (e, c, st)"
    and "n' = n\<lparr>nCache := c, nStorage := st\<rparr>"
  shows "goes D Gr r (Saving v b m (SetWrite (key_of D v) (bytes_reader b) m), n, g) (Closing v (Inr (b, m)), n', g)"
proof -
  let ?k = "key_of D v"
  obtain q st1 where q: "stWrite (dStorage D) ?k (bytes_reader b) (Some (metaToStorageMeta (dFmt D) m)) (nStorage n) = (q, st1)"
    by (cases "stWrite (dStorage D) ?k (bytes_reader b) (Some (metaToStorageMeta (dFmt D) m)) (nStorage n)")
  show ?thesis
  proof (cases q)
    case None
    have "goes D Gr r (Saving v b m (SetIndex ?k (bytes_reader b) m), n\<lparr>nStorage := st1\<rparr>, g)
        (Closing v (Inr (b, m)), n\<lparr>nCache := c, nStorage := st\<rparr>, g)"
      using q None assms by (intro goes_turn [OF refl]) (auto simp: cache_turn_def Set_parts)
    with q None show ?thesis by (intro goes_turn [OF refl]) (simp add: cache_turn_def assms(2))
  qed (use q assms in \<open>intro goes_turn [OF refl], auto simp: cache_turn_def Set_parts\<close>)
qed

lemma goes_Evicting:
  assumes "LRUCache_Delete (dStorage D) (key_of D v) (nCache n, nStorage n) = (e, c, st)"
  shows "goes D Gr r (Evicting v (DelIndex (key_of D v)), n, g) (Peeking v, n\<lparr>nCache := c, nStorage := st\<rparr>, g)"
proof -
  obtain q st1 where q: "stDelete (dStorage D) (key_of D v) (nStorage n) = (q, st1)"
    by (cases "stDelete (dStorage D) (key_of D v) (nStorage n)")
  with assms show ?thesis
    by (intro goes_turn [OF refl]) (simp add: cache_turn_def, intro goes_turn [OF refl],
        simp add: cache_turn_def Delete_parts)
qed


section \<open>The handler\<close>

lemma goes_Checking:
  "goes D Gr r (Checking v, n, g)
     (Peeking v, flush_check D (Domain (vCfg v)) (RewrittenPath (vCtx v)) (key_of D v) n, g)"
proof (cases "SingleflightCache_Stat (dCache D) (key_of D v) (nCache n, nStorage n)")
  case (Inl e)
  then show ?thesis by (intro goes_turn [OF refl]) (simp add: flush_check_def)
next
  case (Inr m)
  obtain e c st where d: "LRUCache_Delete (dStorage D) (key_of D v) (nCache n, nStorage n) = (e, c, st)"
    by (cases "LRUCache_Delete (dStorage D) (key_of D v) (nCache n, nStorage n)")
  have "goes D Gr r (Matching v m, n, g)
     (Peeking v, flush_check D (Domain (vCfg v)) (RewrittenPath (vCtx v)) (key_of D v) n, g)"
    using goes_Evicting [OF d, of Gr r g]
    by (intro goes_turn [OF refl])
       (auto simp: flush_check_def Inr d SingleflightCache_Delete_def split: option.split)
  with Inr show ?thesis by (intro goes_turn [OF refl]) simp
qed

lemma flying_leave:
  assumes "group_contract Gr flying" "k \<notin> flying g" "gEnter Gr k g = (lead, g1)"
  shows "lead" "flying (gLeave Gr k g1) = flying g"
  using group_contractD [OF assms(1,3)] group_leave [OF assms(1)] assms(2) by simp_all

text \<open>What the goroutine that leads does after its second lookup missed: fetch, buffer and store.\<close>

definition own_fetch ::
  "('s, 'o, 'l) deps \<Rightarrow> visit \<Rightarrow> ('s, 'o, 'l) node \<Rightarrow> (fetch_err sf_err + bytes \<times> Meta) \<times> ('s, 'o, 'l) node" where
  "own_fetch D v n =
     (case originFetch D (vCfg v) (vCtx v) (vReq v) (key_of D v) (nPuller n, nWorld n) of
        (Inl e, p, wd) \<Rightarrow> (Inl (SFFetch e), n\<lparr>nPuller := p, nWorld := wd\<rparr>)
      | (Inr (rd, meta), p, wd) \<Rightarrow>
          (case ReadAll rd of
             Inl e \<Rightarrow> (Inl (SFRead e), n\<lparr>nPuller := p, nWorld := wd\<rparr>)
           | Inr body \<Rightarrow>
               (case LRUCache_Set (dStorage D) (dFmt D) (key_of D v) (bytes_reader body) meta (nCache n, nStorage n) of
                  (e, c, st) \<Rightarrow> (Inr (body, meta), n\<lparr>nCache := c, nStorage := st, nPuller := p, nWorld := wd\<rparr>))))"

lemma goes_Pulling:
  assumes "own_fetch D v n = (res, n1)"
  shows "goes D Gr r (Pulling v, n, g) (Closing v res, n1, g)"
proof -
  let ?k = "key_of D v"
  obtain out p where pull: "fetch_pull D (vCfg v) (vCtx v) (vReq v) (nPuller n) = (out, p)"
    by (cases "fetch_pull D (vCfg v) (vCtx v) (vReq v) (nPuller n)")
  show ?thesis
  proof (cases "\<exists>resp. out = Returned resp")
    case False
    with pull assms show ?thesis
      by (intro goes_turn [OF refl])
         (auto simp: own_fetch_def originFetch_parts split: outcome.splits intro!: goes_same)
  next
    case True
    then obtain resp where out: "out = Returned resp" by blast
    obtain y wd where m: "fetch_meta D (vCfg v) ?k resp (nWorld n) = (y, wd)"
      by (cases "fetch_meta D (vCfg v) ?k resp (nWorld n)")
    have save: "goes D Gr r (Saving v b meta (SetWrite ?k (bytes_reader b) meta), n\<lparr>nPuller := p, nWorld := wd\<rparr>, g)
        (Closing v (Inr (b, meta)), n\<lparr>nCache := c, nStorage := st, nPuller := p, nWorld := wd\<rparr>, g)"
      if "LRUCache_Set (dStorage D) (dFmt D) ?k (bytes_reader b) meta (nCache n, nStorage n) = (e, c, st)" for b meta e c st
      by (rule goes_Saving) (use that in auto)
    have "goes D Gr r (Stamping v resp, n\<lparr>nPuller := p\<rparr>, g) (Closing v res, n1, g)"
    proof (cases "\<exists>rd meta b. y = Inr (rd, meta) \<and> ReadAll rd = Inr b")
      case True
      with pull out m assms save show ?thesis
        by (intro goes_turn [OF refl]) (auto simp: own_fetch_def originFetch_parts split: prod.splits)
    next
      case False
      with pull out m assms show ?thesis
        by (intro goes_turn [OF refl])
           (auto simp: own_fetch_def originFetch_parts split: sum.splits prod.splits intro!: goes_same)
    qed
    with pull out show ?thesis by (intro goes_turn [OF refl]) simp
  qed
qed

lemma own_fetch_frame:
  "own_fetch D v n = (res, n1) \<Longrightarrow>
   n1 = n\<lparr>nCache := nCache n1, nStorage := nStorage n1, nPuller := nPuller n1, nWorld := nWorld n1\<rparr>"
  by (auto simp: own_fetch_def split: prod.splits sum.splits)

lemma closure_own_fetch:
  assumes "LRUCache_Get (dStorage D) now (key_of D v) (nCache n, nStorage n) = (Inl e, c1, st1)"
    and "own_fetch D v (n\<lparr>nCache := c1, nStorage := st1, nWorld := wd\<rparr>) = (res, n1)"
  shows "fetch_closure (dCache D) now (key_of D v) (originFetch D (vCfg v) (vCtx v) (vReq v) (key_of D v))
      ((nCache n, nStorage n), nPuller n, wd) = (res, (nCache n1, nStorage n1), nPuller n1, nWorld n1)"
  using assms by (auto simp: fetch_closure_def own_fetch_def split: prod.splits sum.splits)

text \<open>What the closure returns is what is delivered to the goroutine that leads.\<close>

lemma goes_closure:
  assumes cl: "fetch_closure (dCache D) now (key_of D v) (originFetch D (vCfg v) (vCtx v) (vReq v) (key_of D v))
      ((nCache n, nStorage n), nPuller n, wd) = (res, (c, st), p, wd1)"
    and t: "time_Now (nWorld n) = (now, wd)"
  shows "goes D Gr r (Again v (GetLookup (key_of D v)), n, g)
    (Closing v res, n\<lparr>nCache := c, nStorage := st, nPuller := p, nWorld := wd1\<rparr>, g)"
proof -
  obtain q c1 st1 where q: "LRUCache_Get (dStorage D) now (key_of D v) (nCache n, nStorage n) = (q, c1, st1)"
    by (cases "LRUCache_Get (dStorage D) now (key_of D v) (nCache n, nStorage n)")
  note look = goes_Again [OF t q, of Gr r g]
  show ?thesis
  proof (cases q)
    case (Inr x)
    with look q cl show ?thesis by (cases x) (auto simp: fetch_closure_def split: sum.splits)
  next
    case (Inl e)
    let ?n = "n\<lparr>nCache := c1, nStorage := st1, nWorld := wd\<rparr>"
    obtain res' n1 where own: "own_fetch D v ?n = (res', n1)" by (cases "own_fetch D v ?n")
    from closure_own_fetch [OF q [unfolded Inl] own] cl
    have eq: "res' = res" "nCache n1 = c" "nStorage n1 = st" "nPuller n1 = p" "nWorld n1 = wd1" by simp_all
    have "n1 = n\<lparr>nCache := c, nStorage := st, nPuller := p, nWorld := wd1\<rparr>"
      using own_fetch_frame [OF own] by (simp add: eq)
    with goes_Pulling [OF own, of Gr r g] look Inl eq(1) show ?thesis by (auto intro: goes_trans)
  qed
qed

lemma goes_fetch:
  assumes Gr: "group_contract Gr flying" "key_of D v \<notin> flying g" and once: "runs_once (dDo D)"
    and f: "GetOrFetch (dCache D) (dDo D) now1 now2 (key_of D v) (originFetch D (vCfg v) (vCtx v) (vReq v) (key_of D v))
      ((nCache n, nStorage n), nPuller n, wd2) = (res, (c, st), p, wd3)"
    and t: "time_Now (nWorld n) = (now1, wd1)" "time_Now wd1 = (now2, wd2)"
  shows "\<exists>t g'. flying g' = flying g \<and> goes D Gr r (Looking v (GetLookup (key_of D v)), n, g)
    (Replying v res, at_clock t (n\<lparr>nCache := c, nStorage := st, nPuller := p, nWorld := wd3\<rparr>), g')"
proof -
  let ?k = "key_of D v"
  obtain q c1 st1 where q: "LRUCache_Get (dStorage D) now1 ?k (nCache n, nStorage n) = (q, c1, st1)"
    by (cases "LRUCache_Get (dStorage D) now1 ?k (nCache n, nStorage n)")
  note look = goes_Looking [OF t(1) q, of Gr r g]
  show ?thesis
  proof (cases q)
    case (Inr x)
    have "wd3 = wd2" "res = Inr x" "(c, st) = (c1, st1)" "p = nPuller n"
      using f q Inr by (auto simp: GetOrFetch_def split: prod.splits)
    moreover have "wd1 = wd2\<lparr>wticks := wticks wd1\<rparr>" using t by (auto simp: time_Now_def)
    ultimately show ?thesis
      using look Inr by (intro exI [of _ "wticks wd1"] exI [of _ g]) (simp add: at_clock_def)
  next
    case (Inl e)
    let ?n = "n\<lparr>nCache := c1, nStorage := st1, nWorld := wd1\<rparr>"
    obtain y c2 st2 p2 w2 where cl: "fetch_closure (dCache D) now2 ?k
        (originFetch D (vCfg v) (vCtx v) (vReq v) ?k) ((c1, st1), nPuller n, wd2) = (y, (c2, st2), p2, w2)"
      by (metis surj_pair)
    have r: "res = deliver y" "(c, st) = (c2, st2)" "p = p2" "wd3 = w2"
      using f GetOrFetch_miss [OF _ once, of "dCache D" now1 ?k "(nCache n, nStorage n)" e "(c1, st1)"] q Inl cl
      by (auto split: sum.splits prod.splits)
    obtain lead g1 where e: "gEnter Gr ?k g = (lead, g1)" by (cases "gEnter Gr ?k g")
    note lead = flying_leave [OF Gr e]
    have "goes D Gr r (Again v (GetLookup ?k), ?n, g1)
        (Closing v y, ?n\<lparr>nCache := c2, nStorage := st2, nPuller := p2, nWorld := w2\<rparr>, g1)"
      by (rule goes_closure) (use cl t(2) in simp_all)
    also have "goes D Gr r (Closing v y, m, g1) (Replying v res, m, gLeave Gr ?k g1)" for m
      by (intro goes_turn [OF refl]) (simp add: r)
    finally (goes_trans) have "goes D Gr r (Again v (GetLookup ?k), ?n, g1)
        (Replying v res, n\<lparr>nCache := c, nStorage := st, nPuller := p, nWorld := wd3\<rparr>, gLeave Gr ?k g1)"
      using r by simp
    moreover have "goes D Gr r (Entering v, ?n, g) (Again v (GetLookup ?k), ?n, g1)"
      by (intro goes_turn [OF refl]) (simp add: e lead)
    ultimately have "goes D Gr r (Looking v (GetLookup ?k), n, g)
        (Replying v res, n\<lparr>nCache := c, nStorage := st, nPuller := p, nWorld := wd3\<rparr>, gLeave Gr ?k g1)"
      using look Inl by (auto intro: goes_trans)
    then show ?thesis
      using lead(2) by (intro exI [of _ "wticks wd3"] exI [of _ "gLeave Gr ?k g1"]) (simp add: at_clock_def)
  qed
qed

text \<open>The answer, whatever the clock has shown.\<close>

lemma at_clock_emits: "(at_clock t n)\<lparr>nWorld := emits es (nWorld (at_clock t n))\<rparr> =
    at_clock t (n\<lparr>nWorld := emits es (nWorld n)\<rparr>)"
  by (simp add: at_clock_def emits_def)

lemma at_clock_self: "at_clock (wticks (nWorld n)) n = n"
  by (simp add: at_clock_def)

lemma answer_biz:
  assumes "ServeHTTP D r (wrapped new_writer) n = (res, n1)"
  shows "answer r vo res (at_clock t n1, g) =
    (Answered vo (fst (bizHandler D r new_writer n)), at_clock t (snd (bizHandler D r new_writer n)), g)"
  using assms by (cases res) (simp_all add: answer_def bizHandler_def Recovery_def RequestLogger_def at_clock_emits)

lemma goes_serve:
  assumes Gr: "group_contract Gr flying" "key_of D v \<notin> flying g" and once: "runs_once (dDo D)"
    and serve: "serve_cached D (vCfg v) (vCtx v) (vW v) (vReq v) n = (out, n1)"
  shows "\<exists>h t g'. flying g' = flying g \<and>
    goes D Gr r (Checking v, n, g) (answer r (Some (v\<lparr>vHit := h\<rparr>)) out (at_clock t n1, g'))"
proof -
  let ?k = "key_of D v"
  define m where "m = flush_check D (Domain (vCfg v)) (RewrittenPath (vCtx v)) ?k n"
  define hit where "hit = (case SingleflightCache_Stat (dCache D) ?k (nCache m, nStorage m) of Inl _ \<Rightarrow> False | Inr _ \<Rightarrow> True)"
  let ?v = "v\<lparr>vHit := hit\<rparr>"
  obtain now1 wd1 now2 wd2 where t: "time_Now (nWorld m) = (now1, wd1)" "time_Now wd1 = (now2, wd2)"
    by (metis surj_pair)
  obtain res c st p wd3 where f: "GetOrFetch (dCache D) (dDo D) now1 now2 ?k
      (originFetch D (vCfg v) (vCtx v) (vReq v) ?k) ((nCache m, nStorage m), nPuller m, wd2) = (res, (c, st), p, wd3)"
    by (metis surj_pair)
  let ?m = "m\<lparr>nCache := c, nStorage := st, nPuller := p, nWorld := wd3\<rparr>"
  have r: "respond ?v res ?m = (out, n1)"
    using serve unfolding serve_cached_def Let_def key_of_def [unfolded serve_key_def, symmetric]
    by (simp add: m_def [symmetric] hit_def [symmetric] t f respond_def
        split: sum.splits sf_err.splits fetch_err.splits prod.splits)
  have reply: "respond ?v res (at_clock t ?m) = (out, at_clock t n1)" for t
    using r at_clock_emits [where t = t and n = ?m] by (auto simp: respond_def split: sum.splits sf_err.splits fetch_err.splits)
  from goes_fetch [of Gr flying D ?v g now1 now2 m wd2 res c st p wd3 wd1 r] Gr once f t
  obtain t g' where g': "flying g' = flying g"
      "goes D Gr r (Looking ?v (GetLookup ?k), m, g) (Replying ?v res, at_clock t ?m, g')"
    by auto
  have "goes D Gr r (Replying ?v res, at_clock t ?m, g') (answer r (Some ?v) out (at_clock t n1, g'))"
    by (intro goes_turn [OF refl]) (simp add: reply)
  with g'(2) have "goes D Gr r (Looking ?v (GetLookup ?k), m, g) (answer r (Some ?v) out (at_clock t n1, g'))"
    by (rule goes_trans)
  then have "goes D Gr r (Peeking v, m, g) (answer r (Some ?v) out (at_clock t n1, g'))"
    by (intro goes_turn [OF refl]) (simp add: hit_def Let_def)
  with goes_Checking [of D Gr r v n g] have
    "goes D Gr r (Checking v, n, g) (answer r (Some ?v) out (at_clock t n1, g'))"
    unfolding m_def by (rule goes_trans)
  with g'(1) show ?thesis by blast
qed

lemma goes_ServeHTTP:
  assumes "group_contract Gr flying" "flying g = {}" "runs_once (dDo D)"
    and s: "ServeHTTP D r (wrapped new_writer) n = (out, n1)"
  shows "\<exists>vo t g'. flying g' = {} \<and> (\<forall>v. vo = Some v \<longrightarrow> visits D r n v) \<and>
    goes D Gr r (Arrived, n, g) (answer r vo out (at_clock t n1, g'))"
proof (cases "nDomains n (stripPort (Host r))")
  case None
  with s have "goes D Gr r (Arrived, n, g) (answer r None out (n1, g))"
    by (intro goes_turn [OF refl]) (simp add: ServeHTTP_def)
  with at_clock_self [of n1] assms(2) show ?thesis
    by (intro exI [of _ None] exI [of _ "wticks (nWorld n1)"] exI [of _ g]) simp
next
  case (Some cfg)
  obtain ok pCtx w1 r1 wd1 where p: "Pipeline_Execute (dRegistry D) (Plugins cfg) (Domain cfg)
      (wrapped new_writer) r (nWorld n) = (ok, pCtx, w1, r1, wd1)"
    by (metis prod_cases5)
  show ?thesis
  proof (cases ok)
    case False
    with s Some p have "goes D Gr r (Arrived, n, g) (answer r None out (n1, g))"
      by (intro goes_turn [OF refl]) (simp add: ServeHTTP_def)
    with at_clock_self [of n1] assms(2) show ?thesis
    by (intro exI [of _ None] exI [of _ "wticks (nWorld n1)"] exI [of _ g]) simp
  next
    case True
    let ?v = "\<lparr>vCfg = cfg, vCtx = pCtx, vReq = r1, vW = w1, vHit = False\<rparr>"
    have "serve_cached D (vCfg ?v) (vCtx ?v) (vW ?v) (vReq ?v) (n\<lparr>nWorld := wd1\<rparr>) = (out, n1)"
      using s Some p True by (simp add: ServeHTTP_def)
    from goes_serve [OF assms(1) _ assms(3) this, of g r] assms(2) obtain h t g' where
      g': "flying g' = {}"
        "goes D Gr r (Checking ?v, n\<lparr>nWorld := wd1\<rparr>, g) (answer r (Some (?v\<lparr>vHit := h\<rparr>)) out (at_clock t n1, g'))"
      by auto
    have "goes D Gr r (Arrived, n, g) (answer r (Some (?v\<lparr>vHit := h\<rparr>)) out (at_clock t n1, g'))"
      by (rule goes_turn [OF refl]) (use Some p True g'(2) in simp)
    moreover have "visits D r n (?v\<lparr>vHit := h\<rparr>)" using Some p True by (simp add: visits_def)
    ultimately show ?thesis using g'(1) by (intro exI [of _ "Some (?v\<lparr>vHit := h\<rparr>)"]) blast
  qed
qed

lemma goes_biz:
  assumes "group_contract Gr flying" "flying g = {}" "runs_once (dDo D)"
  shows "\<exists>vo t g' m. flying g' = {} \<and> (\<forall>v. vo = Some v \<longrightarrow> visits D r n v) \<and> alone D Gr r m (Arrived, n, g) =
    (Answered vo (fst (bizHandler D r new_writer n)), at_clock t (snd (bizHandler D r new_writer n)), g')"
proof -
  obtain out n1 where s: "ServeHTTP D r (wrapped new_writer) n = (out, n1)"
    by (cases "ServeHTTP D r (wrapped new_writer) n")
  from goes_ServeHTTP [OF assms s] show ?thesis unfolding answer_biz [OF s] goes_def by blast
qed

end
