(* ===== verification/ServiceRuns.thy ===== *)
theory ServiceRuns
  imports ServiceAlone
begin

text \<open>
  What holds of every run of the service in which requests, \<open>FlushURL\<close> calls and the other events
  overlap (ServiceConc), over the backend \<open>LocalFS\<close>.
\<close>

section \<open>A single request as a run\<close>

lemma release_turned: "go_step D Gr r s x = (s1, y) \<Longrightarrow> release D s (Biz r s1) = Biz r s1"
  by (cases s; cases x; cases s1) (auto split: prod.splits)

lemma alone_run:
  assumes "alone D Gr r m (s, n, g) = (s1, n1, g1)"
  shows "service_run D A Gr \<lparr>sNode = n, sGroup = g, sGos = [Biz r s]\<rparr> \<lparr>sNode = n1, sGroup = g1, sGos = [Biz r s1]\<rparr>"
  using assms
proof (induction m arbitrary: s n g)
  case (Suc m)
  let ?x = "\<lparr>sNode = n, sGroup = g, sGos = [Biz r s]\<rparr>"
  obtain s2 n2 g2 where t: "go_step D Gr r s (n, g) = (s2, n2, g2)" by (cases "go_step D Gr r s (n, g)")
  let ?y = "\<lparr>sNode = n2, sGroup = g2, sGos = [Biz r s2]\<rparr>"
  from Suc t have rest: "service_run D A Gr ?y \<lparr>sNode = n1, sGroup = g1, sGos = [Biz r s1]\<rparr>" by simp
  show ?case
  proof (cases "can_run (Biz r s)")
    case True
    have "service_turn D A Gr 0 ?x = ?y" by (simp add: service_turn_def t release_turned [OF t])
    with service_step.turn [of 0 ?x D A Gr] True have "service_step D A Gr ?x ?y" by simp
    then show ?thesis using rest by (rule converse_rtranclp_into_rtranclp)
  next
    case False
    then have "?y = ?x" using t by (cases s) simp_all
    with rest show ?thesis by simp
  qed
qed simp

lemma request_run:
  assumes "group_contract Gr flying" "flying g = {}" "runs_once (dDo D)"
  shows "\<exists>vo t g'. flying g' = {} \<and> (\<forall>v. vo = Some v \<longrightarrow> visits D r n v) \<and> service_run D A Gr (idle n g)
    \<lparr>sNode = at_clock t (snd (bizHandler D r new_writer n)), sGroup = g',
     sGos = [Biz r (Answered vo (fst (bizHandler D r new_writer n)))]\<rparr>"
proof -
  have "service_step D A Gr (idle n g) \<lparr>sNode = n, sGroup = g, sGos = [Biz r Arrived]\<rparr>"
    using service_step.request [of D A Gr "idle n g" r] by (simp add: idle_def)
  note first = converse_rtranclp_into_rtranclp [of "service_step D A Gr", OF this]
  from goes_biz [OF assms, of r n] obtain vo t g' m where g': "flying g' = {}"
    "\<forall>v. vo = Some v \<longrightarrow> visits D r n v" "alone D Gr r m (Arrived, n, g) =
      (Answered vo (fst (bizHandler D r new_writer n)), at_clock t (snd (bizHandler D r new_writer n)), g')" by blast
  from first [OF alone_run [OF g'(3)]] g'(1,2) show ?thesis by blast
qed


section \<open>Turns\<close>

definition turn_step ::
  "('s, 'o, 'tb limits) deps \<Rightarrow> admin \<Rightarrow> 'g group_ops \<Rightarrow>
   ('s, 'o, 'tb limits, 'g) service \<Rightarrow> ('s, 'o, 'tb limits, 'g) service \<Rightarrow> bool" where
  "turn_step D A Gr x y \<longleftrightarrow>
     (\<exists>i < length (sGos x). can_run (sGos x ! i) \<and> y = service_turn D A Gr i x)"

lemma turn_step_left: "turn_step D A Gr x y \<Longrightarrow> service_left y < service_left x"
  by (auto simp: turn_step_def service_turn_left)

lemma turn_steps_run: "(turn_step D A Gr ^^ m) x y \<Longrightarrow> service_run D A Gr x y"
proof (induction m arbitrary: y)
  case (Suc m)
  then obtain z where "service_run D A Gr x z" "turn_step D A Gr z y" by auto
  then show ?case by (auto simp: turn_step_def intro: rtranclp.rtrancl_into_rtrancl service_step.turn)
qed simp

lemma service_left_max: "service_left x \<le> 23 * length (sGos x)"
proof -
  have "sum_list (map go_left ps) \<le> 23 * length ps" for ps
    by (induction ps) (use go_left_max in \<open>auto intro: add_mono simp: add.commute\<close>)
  then show ?thesis by (simp add: service_left_def)
qed


section \<open>Properties\<close>

text \<open>
  C2: however requests, flushes, other admin calls, reloads and limiter ticks overlap on a service that
  starts with an empty cache over a disk without faults, every body it answers 200 with goes back to
  turns of that run: a request, the same or another, with the same cache key as the one answered,
  found its domain in the table of that moment and passed the plugins (\<open>admitted\<close>), and in a later turn
  got a response with exactly that body when it pulled from the origins of that domain, with its own
  path and headers and in the state the puller was in (\<open>pulled\<close>). Both requests are for the same domain,
  as names without colon. What an earlier run left on the disk is never served. The keys in use have
  distinct paths.
\<close>

theorem concurrent_body_genuine:
  assumes "dStorage D = LocalFS_ops C" "dRegistry D = plugin_registry X R"
    and "nCache n = NewLRUCache cap" "0 \<le> cap" "node_inv n" "lfs_inv (nStorage n)" "lfs_reliable (nStorage n)"
    and "service_run D A Gr (idle n g) x"
    and "inj_on (keyToPath C) (insert persistKey (service_keys D x))" "persistKey \<notin> service_keys D x"
    and "Biz r (Answered vo (Done w)) \<in> set (sGos x)" "wStatus w = Some 200"
  shows "\<exists>v r' v' resp. vo = Some v \<and> admitted D (turns_made D A Gr (idle n g) x) r v \<and>
    pulled D (turns_made D A Gr (idle n g) x) r' v' resp \<and> RespBody resp = bytes_reader (wBody w) \<and>
    key_of D v' = key_of D v \<and>
    (CHR '':'' \<notin> set (stripPort (Host r)) \<union> set (stripPort (Host r')) \<longrightarrow> stripPort (Host r') = stripPort (Host r))"
proof -
  let ?K = "service_keys D x" and ?H = "turns_made D A Gr (idle n g) x"
  have sep: "lfs.separate C (insert persistKey ?K)"
    using assms(9) by (auto simp: lfs.separate_def lfs_same_def inj_on_def)
  have "service_inv D cap (idle n g)"
    using assms(3,5) by (simp add: service_inv_def idle_def NewLRUCache_def)
  moreover have "lfs.service_safe C D {} ?K (idle n g)"
    by (rule lfs.service_safe_start [OF assms(3,4,6,7)])
  ultimately have "lfs.service_safe C D ?H ?K x"
    by (rule lfs.service_run_safe [OF assms(8,1,2) sep assms(10) subset_refl])
  then obtain T where "list_all (go_safe D ?H ?K T) (sGos x)" by (auto simp: lfs.service_safe_def)
  with assms(11) have "go_safe D ?H ?K T (Biz r (Answered vo (Done w)))" unfolding list_all_iff by blast
  with assms(12) obtain v r' v' resp where v: "vo = Some v" "admitted D ?H r v" "pulled D ?H r' v' resp"
    "key_of D v' = key_of D v" "RespBody resp = bytes_reader (wBody w)" by (auto simp: bodies_def fetched_for_def)
  moreover from v(2,3) have "Domain (vCfg v) = stripPort (Host r)" "Domain (vCfg v') = stripPort (Host r')"
    by (simp_all add: admitted_def pulled_def)
  ultimately show ?thesis
    using Build_domain [of "stripPort (Host r')" "stripPort (Host r)"] by (fastforce simp: key_of_def serve_key_def)
qed

text \<open>
  C7: in every such run the invariant of the service holds between any two turns, and no two
  goroutines are in the closure of \<open>Do\<close> for the same key: at most one asks the origin for it or writes
  its entry.
\<close>

theorem concurrent_requests_consistent:
  assumes "dRegistry D = plugin_registry X R" "node_inv n" "group_contract Gr flying" "flying g = {}"
    and "service_run D A Gr (idle n g) x"
  shows "node_inv (sNode x) \<and> maxItems (nCache (sNode x)) = maxItems (nCache n) \<and>
    (\<forall>i j k. i < length (sGos x) \<and> j < length (sGos x) \<and>
       leads D (sGos x ! i) = Some k \<and> leads D (sGos x ! j) = Some k \<longrightarrow> i = j)"
proof -
  have "service_inv D (maxItems (nCache n)) (idle n g)" using assms(2) by (simp add: service_inv_def idle_def)
  from service_run_inv [OF assms(5,1) this] have "node_inv (sNode x)"
    "maxItems (nCache (sNode x)) = maxItems (nCache n)" by (simp_all add: service_inv_def)
  moreover have led: "led D flying (sGroup x) (sGos x)"
    by (rule led_run [OF assms(5,3) led_idle [of flying, OF assms(4)]])
  have "i = j" if "i < length (sGos x) \<and> j < length (sGos x) \<and>
      leads D (sGos x ! i) = Some k \<and> leads D (sGos x ! j) = Some k" for i j k
    by (rule led_unique [OF led]) (use that in auto)
  ultimately show ?thesis by simp
qed

text \<open>
  C8: no request waits for ever: from every reachable state the goroutines take at most 23 turns each,
  in whatever order, and as long as one of them has no answer some goroutine can run.
\<close>

theorem concurrent_requests_return:
  assumes "group_contract Gr flying" "flying g = {}" "service_run D A Gr (idle n g) x"
    and "(turn_step D A Gr ^^ m) x y"
  shows "m \<le> 23 * length (sGos x) \<and> ((\<exists>z. turn_step D A Gr y z) \<or> (\<forall>p \<in> set (sGos y). settled p))"
proof -
  have "m + service_left y \<le> service_left x" by (rule relpow_measure [OF turn_step_left assms(4)])
  then have "m \<le> 23 * length (sGos x)" using service_left_max [of x] by linarith
  moreover have "service_run D A Gr (idle n g) y" using assms(3) turn_steps_run [OF assms(4)] by (rule rtranclp_trans)
  then have "led D flying (sGroup y) (sGos y)" by (rule led_run [OF _ assms(1) led_idle [of flying, OF assms(2)]])
  then have "p \<in> set (sGos y) \<Longrightarrow> \<not> settled p \<Longrightarrow> \<exists>z. turn_step D A Gr y z" for p
    using led_progress [of D flying "sGroup y" "sGos y" p] by (auto simp: turn_step_def)
  ultimately show ?thesis by blast
qed

text \<open>
  C6: the turns lose and add nothing: a request whose goroutine is not interrupted is answered by the
  concurrent service exactly as by \<open>bizHandler\<close>, within 23 turns, and leaves the same node, up to the
  number of clock readings.
\<close>

theorem request_alone:
  assumes "group_contract Gr flying" "flying g = {}" "runs_once (dDo D)"
  shows "\<exists>vo t g'. flying g' = {} \<and> (\<forall>v. vo = Some v \<longrightarrow> visits D r n v) \<and> alone D Gr r 23 (Arrived, n, g) =
    (Answered vo (fst (bizHandler D r new_writer n)), at_clock t (snd (bizHandler D r new_writer n)), g')"
proof -
  from goes_biz [OF assms] obtain vo t g' m where "flying g' = {}"
    "\<forall>v. vo = Some v \<longrightarrow> visits D r n v" "alone D Gr r m (Arrived, n, g) =
    (Answered vo (fst (bizHandler D r new_writer n)), at_clock t (snd (bizHandler D r new_writer n)), g')" by blast
  with goes_answered show ?thesis unfolding goes_def by metis
qed


section \<open>Witnesses\<close>

lemma ex_visit: "visits (ex_deps N) ex_req ex_node v \<Longrightarrow> key_of (ex_deps N) v = ex_key"
  using ex_pipeline [of N "wrapped new_writer" ex_world] ex_serve_key [of N]
  by (auto simp: visits_def key_of_def ex_domains)

lemma ex_request_run:
  obtains vo x where
    "service_run (ex_deps (ex_origin 200 [])) ex_admin ex_group (idle ex_node {}) x"
    "sGos x = [Biz ex_req (Answered vo (fst (bizHandler (ex_deps (ex_origin 200 [])) ex_req new_writer ex_node)))]"
    "service_keys (ex_deps (ex_origin 200 [])) x \<subseteq> {ex_key}"
proof -
  from request_run [OF ex_herd_ok(1) refl ex_runs_once, of "ex_origin 200 []" ex_req ex_node ex_admin]
  obtain vo x where "\<forall>v. vo = Some v \<longrightarrow> visits (ex_deps (ex_origin 200 [])) ex_req ex_node v"
    "service_run (ex_deps (ex_origin 200 [])) ex_admin ex_group (idle ex_node {}) x"
    "sGos x = [Biz ex_req (Answered vo (fst (bizHandler (ex_deps (ex_origin 200 [])) ex_req new_writer ex_node)))]"
    by fastforce
  with that ex_visit [of "ex_origin 200 []"] show ?thesis by (auto simp: service_keys_def)
qed

theorem concurrent_body_genuine_witness:
  "\<exists>x v r' v' resp. service_run (ex_deps (ex_origin 200 [])) ex_admin ex_group (idle ex_node {}) x \<and>
     pulled (ex_deps (ex_origin 200 []))
       (turns_made (ex_deps (ex_origin 200 [])) ex_admin ex_group (idle ex_node {}) x) r' v' resp \<and>
     key_of (ex_deps (ex_origin 200 [])) v' = key_of (ex_deps (ex_origin 200 [])) v \<and>
     RespBody resp = bytes_reader ''o/x''"
proof -
  let ?D = "ex_deps (ex_origin 200 [])"
  let ?w = "write_response False ex_pctx (bytes_reader ''o/x'')
       \<lparr>mKey = ex_key, WrittenAt = 3, TTL = Hour, mSize = 3, mHeaders = Some []\<rparr> new_writer"
  obtain vo x where x: "service_run ?D ex_admin ex_group (idle ex_node {}) x"
    "sGos x = [Biz ex_req (Answered vo (fst (bizHandler ?D ex_req new_writer ex_node)))]" "service_keys ?D x \<subseteq> {ex_key}"
    by (rule ex_request_run)
  have "ex_key \<noteq> persistKey" by code_simp
  with x(3) have "persistKey \<notin> service_keys ?D x" by auto
  moreover have "keyToPath ex_codec ex_key \<noteq> keyToPath ex_codec persistKey" by code_simp
  with x(3) have "inj_on (keyToPath ex_codec) (insert persistKey (service_keys ?D x))" by (auto simp: inj_on_def)
  moreover have "wStatus ?w = Some 200" "wBody ?w = ''o/x''"
    using write_response_fresh [of new_writer] by (simp_all add: new_writer_def)
  moreover have "dStorage ?D = LocalFS_ops ex_codec" "dRegistry ?D = plugin_registry ex_regexp ex_tb"
    "nCache ex_node = NewLRUCache 2" "(0::int) \<le> 2" "lfs_inv (nStorage ex_node)" "lfs_reliable (nStorage ex_node)"
    by (simp_all add: ex_fs_ok)
  ultimately show ?thesis
    using concurrent_body_genuine [of ?D ex_codec ex_regexp ex_tb ex_node 2 ex_admin ex_group "{}" x ex_req vo ?w]
      ex_node_inv x(1,2) ex_biz by auto
qed

theorem concurrent_requests_consistent_witness:
  "\<exists>x. sGos x \<noteq> [] \<and> node_inv (sNode x) \<and> maxItems (nCache (sNode x)) = 2 \<and>
     service_run (ex_deps (ex_origin 200 [])) ex_admin ex_group (idle ex_node {}) x"
proof -
  let ?D = "ex_deps (ex_origin 200 [])"
  obtain vo x where x: "service_run ?D ex_admin ex_group (idle ex_node {}) x"
    "sGos x = [Biz ex_req (Answered vo (fst (bizHandler ?D ex_req new_writer ex_node)))]" by (rule ex_request_run)
  have "dRegistry ?D = plugin_registry ex_regexp ex_tb" by simp
  from concurrent_requests_consistent [OF this ex_node_inv ex_herd_ok(1) refl x(1)] x show ?thesis
    by (intro exI [of _ x]) (simp add: NewLRUCache_def)
qed

theorem concurrent_requests_return_witness:
  "\<exists>m y. (turn_step (ex_deps (ex_origin 200 [])) ex_admin ex_group ^^ m)
       \<lparr>sNode = ex_node, sGroup = {}, sGos = [Biz ex_req Arrived, Biz ex_req Arrived]\<rparr> y \<and>
     m \<le> 46 \<and> (\<forall>p \<in> set (sGos y). settled p)"
proof -
  let ?D = "ex_deps (ex_origin 200 [])"
  let ?x = "\<lparr>sNode = ex_node, sGroup = {}, sGos = [Biz ex_req Arrived, Biz ex_req Arrived]\<rparr>"
  let ?x1 = "\<lparr>sNode = ex_node, sGroup = {}, sGos = [Biz ex_req Arrived]\<rparr>"
  have "service_step ?D ex_admin ex_group (idle ex_node {}) ?x1" "service_step ?D ex_admin ex_group ?x1 ?x"
    using service_step.request [of ?D ex_admin ex_group "idle ex_node {}" ex_req]
      service_step.request [of ?D ex_admin ex_group ?x1 ex_req] by (simp_all add: idle_def)
  then have run: "service_run ?D ex_admin ex_group (idle ex_node {}) ?x"
    by (blast intro: rtranclp.rtrancl_into_rtrancl)
  obtain y m where y: "(turn_step ?D ex_admin ex_group ^^ m) ?x y" "\<nexists>z. turn_step ?D ex_admin ex_group y z"
    using measure_reaches_end [of "turn_step ?D ex_admin ex_group" service_left ?x] turn_step_left
    by (metis rtranclp_imp_relpowp)
  from concurrent_requests_return [OF ex_herd_ok(1) refl run y(1)] y show ?thesis by auto
qed

theorem request_alone_witness:
  "\<exists>vo t. alone (ex_deps (ex_origin 200 [])) ex_group ex_req 23 (Arrived, ex_node, {}) =
     (Answered vo (Done (write_response False ex_pctx (bytes_reader ''o/x'')
        \<lparr>mKey = ex_key, WrittenAt = 3, TTL = Hour, mSize = 3, mHeaders = Some []\<rparr> new_writer)),
      at_clock t (snd (bizHandler (ex_deps (ex_origin 200 [])) ex_req new_writer ex_node)), {})"
  using request_alone [OF ex_herd_ok(1) refl ex_runs_once, of "ex_origin 200 []" ex_req ex_node]
  by (auto simp: ex_biz)

end
