(* ===== verification/RepoTests.thy ===== *)
theory RepoTests
  imports Server MemStorage Stampede
begin

text \<open>
  The repository's own tests, replayed on the model: each lemma is the assertion of the Go test it is
  named after, evaluated in the kernel or, where a whole request is served, derived from the lemmas of
  the components. The storage is the mock of the integration tests, also where a test has a stub of
  its own that does the same. What the tests take from elsewhere is given here as small functions: an
  origin that counts its calls, a regexp for the one pattern used, a token bucket without refill.
  TC-06 is the property \<open>FlushURL_removes\<close> of the root theory.
\<close>

section \<open>Surroundings\<close>

definition t_fmt :: fmt where
  "t_fmt = \<lparr>fmtTime = (\<lambda>_. ''t''), fmtDuration = (\<lambda>_. ''d'')\<rparr>"

definition t_meta :: "string \<Rightarrow> duration \<Rightarrow> Meta" where
  "t_meta k ttl = \<lparr>mKey = k, WrittenAt = 0, TTL = ttl, mSize = 4, mHeaders = None\<rparr>"

definition t_cache :: "int \<Rightarrow> cache_op list \<Rightarrow> LRUCache \<times> MemStorage" where
  "t_cache cap ops = fold (run_op (MemStorage_ops 0) t_fmt) ops (NewLRUCache cap, NewMemStorage)"

definition t_get :: "time \<Rightarrow> string \<Rightarrow> LRUCache \<times> MemStorage \<Rightarrow> bytes option" where
  "t_get now k cs =
     (case fst (LRUCache_Get (MemStorage_ops 0) now k cs) of Inl _ \<Rightarrow> None | Inr (rc, m) \<Rightarrow> Some (rd_data rc))"

definition t_req :: "string \<Rightarrow> header \<Rightarrow> Request" where
  "t_req q h = \<lparr>Host = ''h'', URLPath = ''/'', RawQuery = q, ReqHeader = h, RemoteAddr = ''1.2.3.4:5''\<rparr>"

definition t_keys :: "string list \<Rightarrow> string list \<Rightarrow> KeyRulesConfig" where
  "t_keys ps hs = \<lparr>IncludeQueryParams = ps, IncludeHeaders = hs\<rparr>"


section \<open>\<open>cache/cache_test.go\<close>\<close>

lemma TestKeyNormalisesQueryOrder:
  "Build id (NewKeyBuilder (t_keys [''b'', ''a''] [])) ''example.com'' ''/path'' (t_req ''a=1&b=2'' []) None =
   Build id (NewKeyBuilder (t_keys [''b'', ''a''] [])) ''example.com'' ''/path'' (t_req ''b=2&a=1'' []) None"
  by code_simp

lemma TestKeyDomainRulesOverrideGlobal:
  "let kb = NewKeyBuilder (t_keys [''v''] []); r = t_req ''v=1&fmt=json'' [];
       kGlobal = Build id kb ''a.com'' ''/x'' r None;
       kDomain = Build id kb ''a.com'' ''/x'' r (Some (t_keys [''fmt''] []))
   in kGlobal \<noteq> kDomain \<and> Contains kDomain ''fmt=json''"
  by code_simp

text \<open>With a hash that tells the two header values apart.\<close>

lemma TestKeyHeaderHash:
  "let kb = NewKeyBuilder (t_keys [] [''Accept-Language''])
   in Build rev kb ''cdn.com'' ''/f'' (t_req [] [(''Accept-Language'', [''zh-CN''])]) None \<noteq>
      Build rev kb ''cdn.com'' ''/f'' (t_req [] [(''Accept-Language'', [''en-US''])]) None"
  by code_simp

lemma TestCacheHitAndMiss:
  "let cs = t_cache 10 [OpSet ''k1'' ''body'' (t_meta ''k1'' Hour)]
   in t_get 1 ''k1'' cs = Some ''body'' \<and> t_get 2 ''missing'' cs = None"
  by code_simp

lemma TestCacheTTLExpiry:
  "t_get 20000000 ''exp'' (t_cache 10 [OpSet ''exp'' ''x'' (t_meta ''exp'' 10000000)]) = None"
  by code_simp

lemma TestCacheLRUEviction:
  "let cs = t_cache 2 [OpSet ''a'' ''a'' (t_meta ''a'' Hour), OpSet ''b'' ''b'' (t_meta ''b'' Hour),
         OpGet 1 ''a'', OpSet ''c'' ''c'' (t_meta ''c'' Hour)]
   in LRUCache_Len (fst cs) = 2 \<and> t_get 2 ''b'' cs = None \<and> t_get 3 ''a'' cs = Some ''a''"
  by code_simp

lemma TestCacheDelete:
  "t_get 1 ''del'' (t_cache 10 [OpSet ''del'' ''v'' (t_meta ''del'' Hour), OpDelete ''del'']) = None"
  by code_simp

lemma TestParseTTLMaxAge: "ParseTTL (\<lambda>_. None) 0 [(''Cache-Control'', [''max-age=300''])] Hour = 300 * Second"
  by code_simp

lemma TestParseTTLNoStore: "ParseTTL (\<lambda>_. None) 0 [(''Cache-Control'', [''no-store''])] Hour = 0"
  by code_simp

lemma TestParseTTLDefault: "ParseTTL (\<lambda>_. None) 0 [] Hour = Hour"
  by code_simp


section \<open>\<open>flush/store_test.go\<close>\<close>

text \<open>The codec keeps the rules it has encoded last in the bytes' stead.\<close>

definition t_codec :: "Rule list \<Rightarrow> rules_codec" where
  "t_codec rs = \<lparr>marshalRules = (\<lambda>_. Some ''rules''), unmarshalRules = (\<lambda>_. Some rs)\<rparr>"

definition t_add :: "time \<Rightarrow> string \<Rightarrow> string \<Rightarrow> Store \<times> MemStorage \<Rightarrow> Store \<times> MemStorage" where
  "t_add now d p x = snd (Store_AddRule (MemStorage_ops 0) (t_codec []) now now d p x)"

definition t_match :: "string \<Rightarrow> string \<Rightarrow> Store \<times> MemStorage \<Rightarrow> string option" where
  "t_match d path x = map_option rPrefix (Store_Match d path (fst x))"

lemma TestAddAndMatch:
  "let x = t_add 1 ''cdn.example.com'' ''/static/'' (New, NewMemStorage)
   in t_match ''cdn.example.com'' ''/static/app.js'' x = Some ''/static/'' \<and>
      t_match ''other.example.com'' ''/static/app.js'' x = None \<and>
      t_match ''cdn.example.com'' ''/api/data'' x = None"
  by code_simp

lemma TestLatestRuleWins:
  "t_match ''cdn.example.com'' ''/a/b.js''
     (t_add 3 ''cdn.example.com'' ''/'' (t_add 1 ''cdn.example.com'' ''/a/'' (New, NewMemStorage))) = Some ''/''"
  by code_simp

lemma TestPersistAndLoad:
  "let (st1, mem) = t_add 1 ''cdn.example.com'' ''/img/'' (New, NewMemStorage);
       (e, st2, mem2) = Store_Load (MemStorage_ops 0) (t_codec (allRulesLocked st1)) (New, mem)
   in e = None \<and> t_match ''cdn.example.com'' ''/img/logo.png'' (st2, mem2) \<noteq> None"
  by code_simp

lemma TestCleanup:
  "let x = snd (Store_Cleanup (MemStorage_ops 0) (t_codec []) 2 0
       (t_add 1 ''cdn.example.com'' ''/old/'' (New, NewMemStorage)))
   in t_match ''cdn.example.com'' ''/old/file.js'' x = None \<and> Store_RuleCount ''cdn.example.com'' (fst x) = 0"
  by code_simp

lemma TestDomainFlush:
  "list_all (\<lambda>path. t_match ''cdn.example.com'' path (t_add 1 ''cdn.example.com'' ''/'' (New, NewMemStorage)) \<noteq> None)
     [''/'', ''/a'', ''/b/c/d.js'']"
  by code_simp


section \<open>\<open>pipeline/pipeline_test.go\<close>\<close>

text \<open>\<open>Match\<close> and \<open>Replace\<close> for patterns \<open>^prefix(.*)\<close> and replacements ending in \<open>$1\<close>.\<close>

definition t_regexp :: "string regexp_ops" where
  "t_regexp = \<lparr>reCompile = (\<lambda>p. Some (take (length p - 5) (tl p))), reMatchString = (\<lambda>re s. HasPrefix s re),
     reReplaceAllString = (\<lambda>re s rep. take (length rep - 2) rep @ drop (length re) s)\<rparr>"

text \<open>A bucket that is not refilled.\<close>

definition t_bucket :: "int tb_ops" where
  "t_bucket = \<lparr>tbNew = (\<lambda>r b. b), tbAllow = (\<lambda>n t. if 0 < n then (True, n - 1) else (False, n))\<rparr>"

definition t_world :: "int limits world" where
  "t_world = \<lparr>wclock = (\<lambda>i. int i), wticks = 0, wevents = [], wlimits = Map.empty\<rparr>"

definition t_run ::
  "string \<Rightarrow> any_val gomap \<Rightarrow> Request \<Rightarrow> int limits world \<Rightarrow>
   bool \<times> PipelineContext \<times> ResponseWriter \<times> Request \<times> int limits world" where
  "t_run typ cfg r wd =
     Pipeline_Execute (plugin_registry t_regexp t_bucket) [\<lparr>pcType = typ, pcConfig = cfg\<rparr>] ''cdn.example.com'' new_writer r wd"

definition t_path :: "string \<Rightarrow> Request" where
  "t_path p = (t_req [] [])\<lparr>URLPath := p\<rparr>"

definition t_rewrite :: "any_val gomap" where
  "t_rewrite = [(''rules'', AList [AMap [(''match'', AString ''^/v1/(.*)''), (''replace'', AString ''/api/$1'')]])]"

lemma TestRewriteMatchAndReplace:
  "RewrittenPath (fst (snd (t_run ''url_rewrite'' t_rewrite (t_path ''/v1/users'') t_world))) = ''/api/users''"
  by code_simp

lemma TestRewriteNoMatch:
  "RewrittenPath (fst (snd (t_run ''url_rewrite'' t_rewrite (t_path ''/other/path'') t_world))) = ''/other/path''"
  by code_simp

definition t_op :: "string \<Rightarrow> string \<Rightarrow> string \<Rightarrow> any_val" where
  "t_op op k v = AMap [(''op'', AString op), (''key'', AString k), (''value'', AString v)]"

lemma TestHeaderSetRequest:
  "case t_run ''header'' [(''request'', AList [t_op ''set'' ''X-Custom'' ''hello''])] (t_path ''/'') t_world of
     (ok, pCtx, w, r, wd) \<Rightarrow> Header_Get (ReqHeader r) ''X-Custom'' = ''hello''"
  by code_simp

lemma TestHeaderDelRequest:
  "case t_run ''header'' [(''request'', AList [AMap [(''op'', AString ''del''), (''key'', AString ''X-Secret'')]])]
       (t_req [] [(''X-Secret'', [''sensitive''])]) t_world of
     (ok, pCtx, w, r, wd) \<Rightarrow> Header_Get (ReqHeader r) ''X-Secret'' = []"
  by code_simp

lemma TestHeaderStageResponseSet:
  "case t_run ''header'' [(''response'', AList [t_op ''set'' ''X-Cache-Node'' ''node-01'',
       AMap [(''op'', AString ''del''), (''key'', AString ''Server'')]])] (t_path ''/'') t_world of
     (ok, pCtx, w, r, wd) \<Rightarrow> Header_Get (SetResponseHeaders pCtx) ''X-Cache-Node'' = ''node-01'' \<and>
       DeleteResponseHeaders pCtx = [''Server'']"
  by code_simp

lemma TestApplyResponseMutations:
  "let w = ApplyResponseMutations (new_writer\<lparr>wHeader := [(''Server'', [''Apache''])]\<rparr>)
       \<lparr>RewrittenPath = ''/'', SetResponseHeaders = [(''X-Node'', [''n1''])], DeleteResponseHeaders = [''Server'']\<rparr>
   in Header_Get (wHeader w) ''X-Node'' = ''n1'' \<and> Header_Get (wHeader w) ''Server'' = []"
  by code_simp

definition t_limit :: "string \<Rightarrow> float64 \<Rightarrow> int \<Rightarrow> any_val gomap" where
  "t_limit alg r b = [(''mode'', AString ''domain''), (''algorithm'', AString alg), (''rate'', AFloat r), (''burst'', AInt b)]"

lemma TestRateLimitAllows:
  "fst (t_run ''rate_limit'' (t_limit ''token_bucket'' (Fin 100) 100) (t_path ''/'') t_world)"
  by code_simp

lemma TestRateLimitBlocks:
  "case t_run ''rate_limit'' (t_limit ''token_bucket'' (Fin 1) 1) (t_path ''/'') t_world of
     (ok1, pCtx1, w1, r1, wd1) \<Rightarrow>
       (case t_run ''rate_limit'' (t_limit ''token_bucket'' (Fin 1) 1) (t_path ''/'') wd1 of
          (ok2, pCtx2, w2, r2, wd2) \<Rightarrow> ok1 \<and> \<not> ok2 \<and> wStatus w2 = Some 429)"
  by code_simp

fun t_repeat :: "nat \<Rightarrow> any_val gomap \<Rightarrow> int limits world \<Rightarrow> bool list" where
  "t_repeat 0 cfg wd = []"
| "t_repeat (Suc n) cfg wd =
     (case t_run ''rate_limit'' cfg (t_path ''/'') wd of (ok, pCtx, w, r, wd1) \<Rightarrow> ok # t_repeat n cfg wd1)"

text \<open>Of the five requests of the test the third is rejected already.\<close>

lemma TestSlidingWindowRateLimit:
  "t_repeat 3 (t_limit ''sliding_window'' (Fin 2) 2) t_world = [True, True, False]"
  by code_simp

lemma TestUnknownPluginIsSkipped: "fst (t_run ''nonexistent'' [] (t_path ''/'') t_world)"
  by code_simp


section \<open>\<open>origin/puller_test.go\<close>\<close>

text \<open>The network answers as \<open>f\<close> says and records the origins it is asked.\<close>

definition t_net :: "(string \<Rightarrow> string + int) \<Rightarrow> string list net_ops" where
  "t_net f = \<lparr>netValidURL = (\<lambda>_. True),
     netDo = (\<lambda>q asked. (case f (oURL q) of Inl e \<Rightarrow> Inl e
        | Inr code \<Rightarrow> Inr \<lparr>StatusCode = code, RespHeader = [], RespBody = bytes_reader ''body''\<rparr>, asked @ [oURL q]))\<rparr>"

fun t_pulls :: "nat \<Rightarrow> string list net_ops \<Rightarrow> string list \<Rightarrow> int \<Rightarrow> string list Puller \<Rightarrow>
    (pull_err, Response) outcome list \<times> string list" where
  "t_pulls 0 N os retry p = ([], pNet p)"
| "t_pulls (Suc n) N os retry p =
     (case Puller_Pull N (5 * Second) os (5 * Second) retry ''/'' [] p of
        (out, p1) \<Rightarrow> (case t_pulls n N os retry p1 of (outs, asked) \<Rightarrow> (out # outs, asked)))"

definition t_ok :: "(pull_err, Response) outcome \<Rightarrow> bool" where
  "t_ok out = (case out of Returned resp \<Rightarrow> True | _ \<Rightarrow> False)"

lemma TestPullRoundRobin:
  "case t_pulls 6 (t_net (\<lambda>_. Inr 200)) [''a'', ''b'', ''c''] 0 (New_Puller []) of
     (outs, asked) \<Rightarrow> list_all t_ok outs \<and> map (\<lambda>x. count_list asked x) [''a/'', ''b/'', ''c/''] = [2, 2, 2]"
  by code_simp

lemma TestPullRetryOnFailure:
  "list_all t_ok (fst (t_pulls 1 (t_net (\<lambda>u. if u = ''bad/'' then Inr 500 else Inr 200)) [''bad'', ''good''] 1 (New_Puller [])))"
  by code_simp

lemma TestPullTimeout:
  "\<not> list_ex t_ok (fst (t_pulls 1 (t_net (\<lambda>_. Inl ''context deadline exceeded'')) [''slow''] 0 (New_Puller [])))"
  by code_simp

lemma TestPullNoOrigins: "\<not> list_ex t_ok (fst (t_pulls 1 (t_net (\<lambda>_. Inr 200)) [] 0 (New_Puller [])))"
  by code_simp


section \<open>\<open>integration/cases/cache_test.go\<close>\<close>

text \<open>\<open>newOrigin\<close> and \<open>newHarness\<close>; the state of the network counts the calls of the origin.\<close>

definition t_origin :: "string \<Rightarrow> int \<Rightarrow> nat net_ops" where
  "t_origin body status = \<lparr>netValidURL = (\<lambda>_. True),
     netDo = (\<lambda>q n. (Inr \<lparr>StatusCode = status, RespHeader = [(''Cache-Control'', [''max-age=3600''])],
       RespBody = bytes_reader body\<rparr>, Suc n))\<rparr>"

definition t_deps :: "string \<Rightarrow> (MemStorage, nat, int limits) deps" where
  "t_deps body = \<lparr>dStorage = MemStorage_ops 0, dFmt = t_fmt, dRules = t_codec [], dSha1 = id, dParseTime = (\<lambda>_. None),
     dNet = t_origin body 200, dRegistry = plugin_registry t_regexp t_bucket, dKeyBuilder = NewKeyBuilder (t_keys [] []),
     dDo = (\<lambda>key f x. f x)\<rparr>"

definition t_domain :: DomainConfig where
  "t_domain = \<lparr>Domain = ''cdn.example.com'', Origins = [''http://o''], OriginTimeout = 5 * Second, OriginRetry = 0,
     DefaultTTL = Hour, KeyRules = None, Plugins = []\<rparr>"

definition t_node :: "(MemStorage, nat, int limits) node" where
  "t_node = Update [t_domain] (NewHandler (NewLRUCache 100) NewMemStorage New (New_Puller 0) t_world)"

text \<open>Status, \<open>X-Cache\<close> and body of a GET.\<close>

definition t_GET ::
  "string \<Rightarrow> string \<Rightarrow> string \<Rightarrow> (MemStorage, nat, int limits) node \<Rightarrow>
   (int option \<times> string \<times> bytes) \<times> (MemStorage, nat, int limits) node" where
  "t_GET body host path n =
     (case ServeHTTP (t_deps body) ((t_req [] [])\<lparr>Host := host, URLPath := path\<rparr>) new_writer n of
        (Done w, n1) \<Rightarrow> ((wStatus w, Header_Get (wSent w) ''X-Cache'', wBody w), n1)
      | (Crashed w, n1) \<Rightarrow> ((None, [], []), n1))"

text \<open>A request of these tests, as the handler sees it.\<close>

definition t_creq :: "string \<Rightarrow> Request" where
  "t_creq path = (t_req [] [])\<lparr>Host := ''cdn.example.com'', URLPath := path\<rparr>"

definition t_pctx :: "string \<Rightarrow> PipelineContext" where
  "t_pctx path = \<lparr>RewrittenPath = path, SetResponseHeaders = [], DeleteResponseHeaders = []\<rparr>"

abbreviation t_serve where
  "t_serve body path \<equiv> serve_cached (t_deps body) t_domain (t_pctx path) new_writer (t_creq path)"

lemma t_deps_sel [simp]:
  "dStorage (t_deps b) = MemStorage_ops 0" "dNet (t_deps b) = t_origin b 200" "dDo (t_deps b) = (\<lambda>key f x. f x)"
  "dParseTime (t_deps b) = (\<lambda>_. None)"
  by (simp_all add: t_deps_def)

lemma t_once: "runs_once (dDo (t_deps b))"
  by (simp add: runs_once_def)

lemma t_node_sel [simp]:
  "nCache t_node = NewLRUCache 100" "nStorage t_node = NewMemStorage" "nFlush t_node = New"
  "nPuller t_node = New_Puller 0" "nWorld t_node = t_world"
  by (simp_all add: t_node_def Update_def NewHandler_def)

lemma t_known: "nDomains t_node (stripPort ''cdn.example.com'') = Some t_domain"
  by code_simp

lemma t_unknown: "nDomains t_node (stripPort ''unknown.example.com'') = None"
  by code_simp

lemma t_ttl: "ParseTTL (\<lambda>_. None) now [(''Cache-Control'', [''max-age=3600''])] Hour = Hour"
proof -
  have "max_age (Split (ToLower ''max-age=3600'') (CHR '','')) = Some Hour" by code_simp
  moreover have "\<not> Contains (ToLower ''max-age=3600'') ''no-store''" "\<not> Contains (ToLower ''max-age=3600'') ''no-cache''"
    "Header_Get [(''Cache-Control'', [''max-age=3600''])] ''Cache-Control'' = ''max-age=3600''" by code_simp+
  ultimately show ?thesis by (simp add: ParseTTL_def Let_def)
qed

lemma t_key: "serve_key (t_deps b) t_domain (t_pctx path) (t_creq path) = ''cdn.example.com:'' @ path @ ''?#''"
  by (simp add: serve_key_def Build_def t_deps_def t_domain_def t_pctx_def NewKeyBuilder_def t_keys_def
      buildQuery_def buildHeaderHash_def Let_def)

lemma t_fetch:
  "fetch_look (t_deps b) t_domain (t_pctx path) (t_creq path) n =
     (Inr (bytes_reader b, \<lparr>mKey = ''cdn.example.com:'' @ path @ ''?#'', WrittenAt = wclock (nWorld n) (Suc (Suc (Suc (wticks (nWorld n))))),
        TTL = Hour, mSize = int (length b), mHeaders = Some [(''Cache-Control'', [''max-age=3600''])]\<rparr>),
      \<lparr>pCounter = pCounter (nPuller n) + 1, pNet = Suc (pNet (nPuller n))\<rparr>,
      emits (pull_events ''cdn.example.com'' 200) ((nWorld n)\<lparr>wticks := wticks (nWorld n) + 4\<rparr>))"
proof -
  have [simp]: "s smod 1 = 0" for s :: int by (simp add: signed_modulo_int_def signed_divide_int_def)
  show ?thesis
    unfolding fetch_look_def t_key
    by (simp add: originFetch_def Puller_Pull_def Puller_do_def t_domain_def t_origin_def ReadAll_def bytes_reader_def
      look_world_def time_Now_def t_ttl Let_def)
qed

lemma t_GET_known:
  assumes "nDomains n = nDomains t_node"
  shows "t_GET b ''cdn.example.com'' path n =
    (case t_serve b path n of
       (Done w, n1) \<Rightarrow> ((wStatus w, Header_Get (wSent w) ''X-Cache'', wBody w), n1)
     | (Crashed w, n1) \<Rightarrow> ((None, [], []), n1))"
proof -
  have r: "(t_req [] [])\<lparr>Host := ''cdn.example.com'', URLPath := path\<rparr> = t_creq path" "Host (t_creq path) = ''cdn.example.com''"
    "URLPath (t_creq path) = path" by (simp_all add: t_creq_def)
  have "ServeHTTP (t_deps b) (t_creq path) new_writer n = t_serve b path n"
    unfolding ServeHTTP_def r assms t_known
    by (simp add: Pipeline_Execute_def t_domain_def r t_pctx_def)
  then show ?thesis by (simp add: t_GET_def r)
qed

text \<open>A request that misses, from any state of the harness.\<close>

lemma t_miss:
  assumes "nDomains n = nDomains t_node" "lru_inv (nCache n)"
    and "\<exists>e. fst (first_look (t_deps b) t_domain (t_pctx path) (t_creq path) n) = Inl e"
  shows "fst (t_GET b ''cdn.example.com'' path n) =
      (Some 200, if indexed (t_deps b) t_domain (t_pctx path) (t_creq path) n then ''hit'' else ''miss'', b)"
    "snd (t_GET b ''cdn.example.com'' path n) = snd (t_serve b path n)"
    "pNet (nPuller (snd (t_serve b path n))) = Suc (pNet (nPuller n))"
proof -
  obtain e where e: "fst (first_look (t_deps b) t_domain (t_pctx path) (t_creq path) n) = Inl e" using assms(3) by blast
  have w: "wStatus new_writer = None" "wBody new_writer = []" by (simp_all add: new_writer_def)
  note miss = serve_cached_miss [OF assms(2) t_once e]
  show "fst (t_GET b ''cdn.example.com'' path n) =
      (Some 200, if indexed (t_deps b) t_domain (t_pctx path) (t_creq path) n then ''hit'' else ''miss'', b)"
    "snd (t_GET b ''cdn.example.com'' path n) = snd (t_serve b path n)"
    using miss(1) [of new_writer] w
    by (auto simp: t_GET_known [OF assms(1)] t_fetch write_response_fresh write_response_X_Cache Header_Get_def
        Header_Values_def split: prod.split)
  show "pNet (nPuller (snd (t_serve b path n))) = Suc (pNet (nPuller n))"
    using miss(2) [of new_writer] by (simp add: t_fetch)
qed

lemma t_first: "\<exists>e. fst (first_look (t_deps b) t_domain (t_pctx path) (t_creq path) t_node) = Inl e"
  by (rule first_look_stale) (simp_all add: lru_inv_new entry_of_def, simp add: NewLRUCache_def)

lemma t_first_miss: "\<not> indexed (t_deps b) t_domain (t_pctx path) (t_creq path) t_node"
  by (simp add: indexed_def checked_def flush_check_entry lru_inv_new) (simp add: entry_of_def NewLRUCache_def)

lemma TestTC01_CacheMiss:
  "case t_GET ''hello-world'' ''cdn.example.com'' ''/file.txt'' t_node of
     (resp, n) \<Rightarrow> resp = (Some 200, ''miss'', ''hello-world'') \<and> pNet (nPuller n) = 1"
  using t_miss [OF refl _ t_first, of "''hello-world''" "''/file.txt''"] t_first_miss
  by (simp add: lru_inv_new New_Puller_def split_beta)

lemma t_serve_frame: "nDomains (snd (t_serve b path n)) = nDomains n"
  by (rule serve_cached_frame)

text \<open>The entry the first request of a test leaves.\<close>

definition t_entry :: "bytes \<Rightarrow> string \<Rightarrow> Meta" where
  "t_entry b path = \<lparr>mKey = ''cdn.example.com:'' @ path @ ''?#'', WrittenAt = 3, TTL = Hour, mSize = int (length b),
     mHeaders = Some [(''Cache-Control'', [''max-age=3600''])]\<rparr>"

lemma t_sel: "Domain t_domain = ''cdn.example.com''" "RewrittenPath (t_pctx path) = path" "WrittenAt (t_entry b path) = 3"
  by (simp_all add: t_domain_def t_pctx_def t_entry_def)

lemma t_coherent: "mem.coherent {} Map.empty (nCache t_node, nStorage t_node)"
  by (simp, rule mem.coherent_new) (auto intro: mem_inv_new)

lemma t_fetch_first: "fst (fetch_look (t_deps b) t_domain (t_pctx path) (t_creq path) t_node) = Inr (bytes_reader b, t_entry b path)"
  by (simp add: t_fetch t_entry_def t_world_def)

lemma t_after_first:
  "entry_of (snd (t_serve b path t_node)) (serve_key (t_deps b) t_domain (t_pctx path) (t_creq path)) = Some (t_entry b path)"
  "wclock (nWorld (snd (t_serve b path t_node))) = int" "wticks (nWorld (snd (t_serve b path t_node))) = 4"
proof -
  obtain e where e: "fst (first_look (t_deps b) t_domain (t_pctx path) (t_creq path) t_node) = Inl e" using t_first by blast
  show "entry_of (snd (t_serve b path t_node)) (serve_key (t_deps b) t_domain (t_pctx path) (t_creq path)) = Some (t_entry b path)"
    by (rule mem.serve_store(1) [OF _ t_once t_coherent _ e t_fetch_first])
       (simp_all add: mem.separate_def, simp add: NewLRUCache_def)
  show "wclock (nWorld (snd (t_serve b path t_node))) = int" "wticks (nWorld (snd (t_serve b path t_node))) = 4"
    using serve_cached_miss(3) [OF _ t_once e, of new_writer]
    by (simp_all add: lru_inv_new t_fetch t_world_def)
qed

lemma TestTC02_CacheHit:
  "case t_GET ''cached-content'' ''cdn.example.com'' ''/file.txt'' t_node of
     (resp1, n1) \<Rightarrow>
       (case t_GET ''cached-content'' ''cdn.example.com'' ''/file.txt'' n1 of
          (resp2, n2) \<Rightarrow> resp2 = (Some 200, ''hit'', ''cached-content'') \<and> pNet (nPuller n2) = 1)"
proof -
  let ?b = "''cached-content''" let ?p = "''/file.txt''" let ?n = "snd (t_serve ?b ?p t_node)"
  have w: "wStatus new_writer = None" "wBody new_writer = []" by (simp_all add: new_writer_def)
  obtain e where e: "fst (first_look (t_deps ?b) t_domain (t_pctx ?p) (t_creq ?p) t_node) = Inl e" using t_first by blast
  have "fst (t_serve ?b ?p ?n) =
        Done (write_response True (t_pctx ?p) (bytes_reader (rd_data (bytes_reader ?b))) (t_entry ?b ?p) new_writer) \<and>
      nPuller (snd (t_serve ?b ?p ?n)) = nPuller ?n"
  proof (rule mem.serve_again [OF _ t_once t_coherent _ e t_fetch_first _ _ refl refl refl _ refl])
    show "look_time ?n \<le> ExpiresAt (t_entry ?b ?p)"
      by (simp add: look_time_def t_after_first t_entry_def ExpiresAt_def Add_def Hour_def Minute_def Second_def)
  qed (simp_all add: mem.separate_def serve_cached_frame flushed_after_def rules_of_def New_def, simp add: NewLRUCache_def)
  with t_miss(2,3) [OF refl _ t_first, of ?b ?p] w show ?thesis
    by (auto simp: split_beta t_GET_known t_serve_frame write_response_fresh write_response_X_Cache Header_Get_def
        lru_inv_new New_Puller_def split: prod.split)
qed

text \<open>The prefix rule is added by what \<open>FlushPrefix\<close> and \<open>FlushDomain\<close> share.\<close>

lemma TestTC04_FlushPrefix:
  "case t_GET ''v1'' ''cdn.example.com'' ''/file.txt'' t_node of
     (resp1, n1) \<Rightarrow>
       (case add_flush_rule (t_deps ''v1'') A ''cdn.example.com'' ''/'' new_writer n1 of
          (w, n2) \<Rightarrow>
            (case t_GET ''v1'' ''cdn.example.com'' ''/file.txt'' n2 of
               (resp2, n3) \<Rightarrow> fst (snd resp1) = ''miss'' \<and> fst (snd resp2) = ''miss'' \<and> pNet (nPuller n3) = 2))"
proof -
  let ?b = "''v1''" let ?p = "''/file.txt''" let ?D = "t_deps ?b" let ?n1 = "snd (t_serve ?b ?p t_node)"
  let ?n2 = "snd (add_flush_rule ?D A ''cdn.example.com'' ''/'' new_writer ?n1)"
  let ?key = "serve_key ?D t_domain (t_pctx ?p) (t_creq ?p)"
  note first = t_miss [OF refl _ t_first, of ?b ?p]
  have inv: "lru_inv (nCache ?n2)"
    using serve_cached_inv [OF _ t_once, of t_node] by (simp only: add_flush_rule_state) (simp add: lru_inv_new)
  have entry: "entry_of ?n2 ?key = Some (t_entry ?b ?p)"
    using t_after_first(1) [of ?b ?p] by (simp add: entry_of_def add_flush_rule_state)
  have hits: "flush_hits (Domain t_domain) (RewrittenPath (t_pctx ?p)) ?key ?n2"
    by (simp add: flush_hits_def entry add_flush_rule_state serve_cached_frame flushed_after_def append_rule_def rules_of_def New_def
        t_sel t_after_first new_rule_def HasPrefix_def)
  note second = t_miss [OF _ inv first_look_stale [OF inv disjI1 [OF hits]]]
  have "\<not> indexed ?D t_domain (t_pctx ?p) (t_creq ?p) ?n2"
    using hits by (simp add: indexed_def checked_def flush_check_entry [OF inv])
  with first second show ?thesis
    by (simp add: split_beta lru_inv_new add_flush_rule_state serve_cached_frame New_Puller_def t_first_miss)
qed

text \<open>
  The two tests of \<open>singleflight\<close> (50 goroutines in \<open>TestSingleflightDeduplicates\<close>, 10 in TC-05), for every
  interleaving of any number of callers.
\<close>

lemma TestTC05_Singleflight:
  assumes "group_contract D flying" "k \<notin> flying g" "delivers (\<lambda>_. True) F k T fetch" "0 < n"
    and "(herd_step (MemStorage_ops 0) F D fetch T)\<^sup>*\<^sup>* (herd (NewLRUCache 100, NewMemStorage) w g k n) x"
    and "\<nexists>y. herd_step (MemStorage_ops 0) F D fetch T x y"
  shows "hFetched x = [k] \<and> (\<exists>b m. \<forall>p \<in> set (hCallers x). p = Finished k (Inr (bytes_reader b, m)))"
proof -
  have "mem.cold k (NewLRUCache 100, NewMemStorage)"
    using mem.coherent_new [of 100 NewMemStorage "{k}" Map.empty] by (auto simp: mem.cold_def NewLRUCache_def intro: mem_inv_new)
  then have "mem.herd_ok F flying k T (herd (NewLRUCache 100, NewMemStorage) w g k n)"
    using assms(2) by (intro mem.herd_ok_start)
  from mem.herd_ok_steps [OF assms(5) this assms(1,3)] have ok: "mem.herd_ok F flying k T x" .
  have "length (hCallers x) = n" using herd_steps_length [OF assms(5)] by (simp add: herd_def)
  then have "\<exists>b m. hFetched x = [k] \<and> (\<forall>p \<in> set (hCallers x). p = Finished k (Inr (bytes_reader b, m)))"
    using assms(4,6) unfolding herd_stuck by (intro mem.herd_ok_end [OF ok]) auto
  then show ?thesis by blast
qed

lemma TestTC03_UnknownDomain:
  "case t_GET ''hello'' ''unknown.example.com'' ''/file.txt'' t_node of
     (resp, n) \<Rightarrow> fst resp = Some 404 \<and> pNet (nPuller n) = 0"
proof -
  have "wStatus (http_NotFound new_writer) = Some 404" by code_simp
  then show ?thesis by (simp add: t_GET_def ServeHTTP_def t_unknown New_Puller_def)
qed

end
