(* ===== verification/Spec2Isabelle.thy ===== *)
theory Spec2Isabelle
  imports Provenance FetchRace FlushRace LRUConc LocalFSConc Stampede RateWindow Contexts Metrics Lifecycle Reload Crash ServiceRuns RepoTests
begin

text \<open>
  A verification model of fileServer, a caching reverse proxy (CDN edge) written in Go.

  The program. A request of the business server passes the middleware (\<open>server/middleware.go\<close>),
  is matched to a domain by its host (\<open>domain/router.go\<close>), runs through that domain's plugins
  (\<open>pipeline/\<close>: header, rate_limit, url_rewrite), gets a cache key (\<open>cache/key.go\<close>), is checked
  against the flush rules (\<open>flush/store.go\<close>), and is answered from the LRU and TTL cache
  (\<open>cache/cache.go\<close>) behind \<open>singleflight\<close> (\<open>cache/singleflight.go\<close>) or from an origin
  (\<open>origin/puller.go\<close>), whose answer is stored in the storage (\<open>storage/localfs.go\<close>). The admin server
  (\<open>admin/handler.go\<close>) deletes entries, adds flush rules and reports entries. \<open>cmd/server/main.go\<close>
  starts all of it and reloads the configuration (\<open>config/\<close>).

  Theories and the code they model (paths under \<open>src/internal/\<close> unless given):
  \<^item> Prelude, Httplib: the Go values and the standard-library functions the code calls (strings,
    strconv, time, binary64 floats, \<open>http.Header\<close>, \<open>url.Values\<close>, response writers with the wrapper of
    \<open>server/middleware.go\<close>).
  \<^item> Storage: \<open>storage/storage.go\<close>, \<open>metadata.go\<close>; the interface is the record \<open>storage_ops\<close>, its
    contract the locale \<open>storage_contract\<close>, extended by \<open>total_storage\<close> for a backend without
    faults. LocalFS (\<open>storage/localfs.go\<close>) interprets the first, MemStorage
    (\<open>src/integration/mock/storage_mock.go\<close>) the second. LocalFSConc: concurrent calls of
    \<open>storage/localfs.go\<close>, which has no lock, at the granularity of system calls.
  \<^item> Config: \<open>config/config.go\<close>, \<open>config/loader.go\<close>. CacheKey: \<open>cache/key.go\<close>.
  \<^item> LRU: \<open>cache/cache.go\<close>; CacheInterface: the interface \<open>Cache\<close> of that file as a record, its
    contract the locale \<open>cache_contract\<close>, which LRU interprets over any storage; LRUConc: the
    interleavings of its critical sections and storage accesses; TTL: \<open>ParseTTL\<close> of the same file.
    Singleflight: \<open>cache/singleflight.go\<close>, proved over the contract; Stampede: concurrent callers of
    its \<open>GetOrFetch\<close>.
  \<^item> Flush: \<open>flush/store.go\<close>; FlushRace: the interleavings of its two critical regions.
  \<^item> Pipeline: \<open>pipeline/pipeline.go\<close>; RateLimit, HeaderPlugin, Rewrite: the three plugins;
    RateWindow: runs of the rate limiter with its cleanup loop; Plugins: their \<open>init\<close> functions and
    the registry \<open>router.go\<close> links in. The contract of a plugin is the locale \<open>plugin_contract\<close>, that
    of a registry \<open>registry_contract\<close>.
  \<^item> Origin: \<open>origin/puller.go\<close>. DomainHandler: \<open>domain/router.go\<close>. Admin: \<open>admin/handler.go\<close>.
    Server: \<open>server/middleware.go\<close> and the routes of \<open>server/server.go\<close>. System: the start in
    \<open>src/cmd/server/main.go\<close> and the steps of the service; Provenance: its runs with their history, and
    what each request of a run fetched (\<open>fetched_in\<close>); Reload: the goroutine that runs
    \<open>config.Watch\<close> beside them; Lifecycle: \<open>Start\<close> and \<open>Shutdown\<close> of \<open>server/server.go\<close> and the end of
    \<open>main\<close>; Crash: a restart on the disk of a process that died. FetchRace: an admin call
    between the answer of the origin and the time stamp of the entry.
  \<^item> ServiceConc: \<open>ServeHTTP\<close> and \<open>FlushURL\<close> as goroutines that take turns on the shared state, beside
    the other events of System; ServiceAlone: one goroutine that is not interrupted; ServiceRuns: what
    holds of every run.
  \<^item> Metrics: \<open>observe/metrics.go\<close>, the values of the counters and the gauge and the number of
    observations of the histograms over the events of Pipeline.
  \<^item> Contexts: the request context values of \<open>observe/logger.go\<close> and \<open>pipeline/pipeline.go\<close>.
  \<^item> Examples: the concrete service the witnesses run. RepoTests: the repository's tests on the model.

  State. \<open>deps\<close> is what never changes after the start (methods, codecs, HTTP client, registry);
  \<open>node\<close> is the shared mutable state: domain table, cache, storage, rules, puller, and the \<open>world\<close>
  (clock readings, metric events, limiter tables). Operations take and return it. An error is a
  value of a datatype of its package in a sum; a panic is the value \<open>Crashed\<close> or \<open>Panicked\<close>.

  Lemmas. In LRU, \<open>cache_view\<close> abstracts map, linked list and heap to one list in recency order,
  every operation is shown to refine its \<open>spec_\<close> counterpart for any storage, and the locale facts
  (\<open>coherent\<close>) connect index and storage under the contract. LRUConc shows that every interleaving
  keeps the index consistent, ends, and never mixes keys, and exhibits the one that mixes body and
  metadata. Stampede shows that callers that miss the same key all return, and share one fetch when
  fetches succeed with lasting metadata, and exhibits runs with a second fetch when they do not.
  LocalFS shows which files each call touches under arbitrary I/O faults, and from that atomicity
  and the contract. LocalFSConc shows that calls which run alone are those of LocalFS, that any
  interleaving leaves complete contents and no temporary files, and exhibits the read that meets
  half-written metadata. Crash derives from that what a restart finds, and from Provenance that the
  new run serves only what it fetched itself. RateLimit compares the sliding window with a
  specification that forgets nothing, RateWindow lifts this to the table of a domain with all its
  clients and cleanup ticks. Origin shows that the retry loop is a search along a rotated list, and
  compares the table of dropped headers with the list of RFC 2616. DomainHandler describes a request
  by its first lookup, its fetch and its cache history; Provenance carries the history of a run
  (\<open>reach\<close>) and shows that every entry of the index, and on a working disk every body,
  was fetched by a request of that history, which met a domain configured in the run; System proves
  invariants over the step relation of all events, Reload that the domain table is always that of
  the last file that loaded, Metrics that lookups and answers add up, Lifecycle that a shutdown
  without a logged error leaves no request unanswered. ServiceConc gives the concurrent service a
  termination measure (\<open>service_left\<close>), the invariant that every key in flight has one
  leading goroutine (\<open>led\<close>), the structural invariant (\<open>service_inv\<close>) and,
  under the contract of the storage, the invariant that every body goes back to a pull among the
  turns the run has made (\<open>turns_made\<close>, \<open>pulled\<close>,
  \<open>service_safe\<close>). ServiceAlone shows that the turns compose to
  \<open>bizHandler\<close>, so what is proved of whole requests holds of requests that do not
  overlap. The other
  properties that span components are in this theory.

  Bounds and termination. Every definition is total. \<open>evictLocked\<close> terminates because every round
  shortens the list. \<open>try_temp\<close> makes 10000 attempts as \<open>os.CreateTemp\<close> does. The retry loop counts
  down from \<open>retry + 1\<close>. Concurrent cache calls need at most 3 steps each, callers of \<open>GetOrFetch\<close> at
  most 6, calls of the filesystem backend at most 8, requests at most 23 turns and \<open>FlushURL\<close> at most 4
  (measures \<open>todo\<close>, \<open>left\<close>, \<open>fs_todo\<close> and \<open>go_left\<close>); \<open>alone\<close> counts turns, and its 23 are that bound.
  The counter of the puller is a 64-bit word; durations wrap at 64 bits.

  Parameters. SHA-256, SHA-1, encoding/json, the YAML decoder, \<open>regexp\<close>, \<open>http.ParseTime\<close>,
  \<open>http.NewRequest\<close> on URLs, the HTTP client, \<open>singleflight.Group\<close>, the token bucket of
  \<open>golang.org/x/time/rate\<close>, fsnotify and the router of chi. What a statement needs of one of them is a
  hypothesis of it: distinct digests of the keys in use, metadata that survives the codec, a codec
  that is inverse on rule lists, a disk that works
  (\<open>lfs_reliable\<close>: no call fails and the names drawn for temporary files are free; files left by an
  earlier run may be there), and \<open>runs_once\<close> and \<open>group_contract\<close> for \<open>singleflight\<close>.

  Not modelled. The latencies the histograms observe and the log lines other than the access log of
  \<open>RequestLogger\<close> (\<open>observe/\<close>), which nothing reads back; the gauge \<open>CacheStorageBytes\<close>, which nothing
  sets; \<open>NewLogger\<close>, which only configures output; the flags of \<open>main\<close>; sockets below \<open>ListenAndServe\<close>, of
  which only whether an address can be bound and how many requests are in progress matter here.
  Requests are atomic steps in System and overlap in ServiceConc. There and in LRUConc, Stampede and
  FetchRace one call of the storage is one step; below that are the system calls of LocalFSConc. The
  admin calls that add rules and the cleanup of a reload are atomic except in FlushRace, and the
  plugins of a request run in one turn.
\<close>

section \<open>The cache over the local filesystem\<close>

text \<open>
  C9: over any sequence of calls on a reliable disk, whose keys have distinct digests, the linked
  structure of the cache (map, list, heap of metadata) behaves as one list in recency order with
  lookup, expiry, touch, capacity and eviction, and never holds more than its capacity.
\<close>

theorem cache_refines_list:
  assumes "0 \<le> n" "lfs_inv st" "lfs_reliable st"
    and "inj_on (keyToPath C) (op_key ` set ops)" "list_all (op_ok (lfs_ok_meta C) F) ops"
  shows "cache_view (fst (fold (run_op (LocalFS_ops C) F) ops (NewLRUCache n, st))) =
      fold (lru_spec_op (nat n)) ops [] \<and>
    lru_inv (fst (fold (run_op (LocalFS_ops C) F) ops (NewLRUCache n, st)))"
proof -
  have sep: "lfs.separate C ({} \<union> op_key ` set ops)"
    using assms(4) by (auto simp: lfs.separate_def lfs_same_def inj_on_def)
  note coh = lfs.coherent_new [OF assms(1-3), where C = C and K = "{}" and G = Map.empty]
  from lfs.run_refines [OF coh sep assms(5)] lfs.coherent_run [OF coh sep assms(5)] show ?thesis
    by (simp add: lfs.coherent_def) (simp add: NewLRUCache_def)
qed

definition ex_meta :: "string \<Rightarrow> time \<Rightarrow> Meta" where
  "ex_meta k t = \<lparr>mKey = k, WrittenAt = t, TTL = 10, mSize = 1, mHeaders = None\<rparr>"

definition ex_ops :: "cache_op list" where
  "ex_ops = [OpSet ''a'' ''1'' (ex_meta ''a'' 0), OpSet ''b'' ''2'' (ex_meta ''b'' 1), OpGet 5 ''a'',
     OpSet ''c'' ''3'' (ex_meta ''c'' 6)]"

definition ex_fmt :: fmt where
  "ex_fmt = \<lparr>fmtTime = (\<lambda>_. ''t''), fmtDuration = (\<lambda>_. ''d'')\<rparr>"

lemma ex_ops_ok: "list_all (op_ok (lfs_ok_meta ex_codec) ex_fmt) ex_ops"
  "inj_on (keyToPath ex_codec) (op_key ` set ex_ops)"
proof -
  show "list_all (op_ok (lfs_ok_meta ex_codec) ex_fmt) ex_ops"
    by (simp add: ex_ops_def ex_meta_def ex_fs_ok)
  have "op_key ` set ex_ops = {''a'', ''b'', ''c''}" by (auto simp: ex_ops_def)
  moreover have "keyToPath ex_codec ''a'' = ''61''" "keyToPath ex_codec ''b'' = ''62''"
    "keyToPath ex_codec ''c'' = ''63''" by code_simp+
  ultimately show "inj_on (keyToPath ex_codec) (op_key ` set ex_ops)" by (simp add: inj_on_def)
qed

theorem cache_refines_list_witness:
  "map mKey (cache_view (fst (fold (run_op (LocalFS_ops ex_codec) ex_fmt) ex_ops (NewLRUCache 2, ex_fs)))) =
     [''c'', ''a'']"
proof -
  have "cache_view (fst (fold (run_op (LocalFS_ops ex_codec) ex_fmt) ex_ops (NewLRUCache 2, ex_fs))) =
      fold (lru_spec_op (nat 2)) ex_ops []"
    using cache_refines_list [OF _ ex_fs_ok(1,2) ex_ops_ok(2,1), of 2] by simp
  then show ?thesis
    by (simp add: ex_ops_def ex_meta_def spec_put_def spec_remove_def spec_lookup_def spec_touch_def
        After_def ExpiresAt_def Add_def)
qed

text \<open>
  C26: on a reliable disk a hit returns the bytes and the metadata of the last \<open>Set\<close> of that key
  that no \<open>Delete\<close> followed, whatever happened to other keys in between.
\<close>

theorem cache_hit_returns_last_set:
  assumes "0 \<le> n" "lfs_inv st" "lfs_reliable st"
    and "inj_on (keyToPath C) (op_key ` set ops)" "list_all (op_ok (lfs_ok_meta C) F) ops"
    and "fst (LRUCache_Get (LocalFS_ops C) now k
      (fold (run_op (LocalFS_ops C) F) ops (NewLRUCache n, st))) = Inr (rc, m)"
  shows "\<exists>b. last_set Map.empty ops k = Some (b, m) \<and> rc = bytes_reader b"
proof (rule lfs.hit_returns_last_set [OF assms(1-3) _ assms(5,6)])
  show "lfs.separate C (op_key ` set ops)"
    using assms(4) by (auto simp: lfs.separate_def lfs_same_def inj_on_def)
qed

lemma ex_ops_hit:
  "fst (LRUCache_Get (LocalFS_ops ex_codec) 7 ''a''
     (fold (run_op (LocalFS_ops ex_codec) ex_fmt) ex_ops (NewLRUCache 2, ex_fs))) =
   Inr (bytes_reader ''1'', ex_meta ''a'' 0)"
proof -
  obtain c st where cs: "fold (run_op (LocalFS_ops ex_codec) ex_fmt) ex_ops (NewLRUCache 2, ex_fs) = (c, st)"
    by (cases "fold (run_op (LocalFS_ops ex_codec) ex_fmt) ex_ops (NewLRUCache 2, ex_fs)")
  have sep: "lfs.separate ex_codec ({} \<union> op_key ` set ex_ops)"
    using ex_ops_ok(2) by (auto simp: lfs.separate_def lfs_same_def inj_on_def)
  have coh0: "lfs.coherent ex_codec {} Map.empty (NewLRUCache 2, ex_fs)"
    by (rule lfs.coherent_new [OF _ ex_fs_ok(1,2)]) simp
  have coh: "lfs.coherent ex_codec ({} \<union> op_key ` set ex_ops) (last_set Map.empty ex_ops) (c, st)"
    using lfs.coherent_run [OF coh0 sep ex_ops_ok(1)] by (simp only: cs)
  then have wf: "lru_wf c" by (simp add: lfs.coherent_def lru_inv_def)
  have "cache_view c = fold (lru_spec_op (nat 2)) ex_ops []"
    using lfs.run_refines [OF coh0 sep ex_ops_ok(1)] by (simp add: cs) (simp add: NewLRUCache_def)
  then have "spec_lookup ''a'' (cache_view c) = Some (ex_meta ''a'' 0)"
    by (simp add: ex_ops_def ex_meta_def spec_put_def spec_remove_def spec_lookup_def spec_touch_def
        After_def ExpiresAt_def Add_def)
  then obtain e where e: "items c ''a'' = Some e" "vals c e = ex_meta ''a'' 0"
    by (auto simp: spec_lookup_view [OF wf])
  have "\<not> After 7 (ExpiresAt (vals c e))" by (simp add: e(2) ex_meta_def ExpiresAt_def Add_def After_def)
  moreover have "last_set Map.empty ex_ops ''a'' = Some (''1'', ex_meta ''a'' 0)"
    by (simp add: ex_ops_def)
  ultimately show ?thesis
    unfolding cs using lfs.coherent_hit [OF coh e(1), of 7] e(2) by auto
qed

theorem cache_hit_returns_last_set_witness:
  "\<exists>b. last_set Map.empty ex_ops ''a'' = Some (b, ex_meta ''a'' 0) \<and> bytes_reader ''1'' = bytes_reader b"
  by (rule cache_hit_returns_last_set [OF _ ex_fs_ok(1,2) ex_ops_ok(2,1) ex_ops_hit]) simp


section \<open>Requests\<close>

text \<open>
  C28: from every writer nothing was written to, the business server answers every request: with
  200, 404, 429 or 502 from the handler, in which case the request is logged and counted under the
  status and the number of body bytes the client got, or with 500 when the handler panicked.
\<close>

theorem every_request_answered:
  assumes "wStatus w = None" "wBody w = []" "dRegistry D = plugin_registry X T"
  shows "\<exists>w'. fst (bizHandler D r w n) = Done w' \<and>
    ((\<exists>c \<in> {200, 404, 429, 502}. wStatus w' = Some c \<and>
       (\<exists>n1. snd (bizHandler D r w n) = n1\<lparr>nWorld := emits
          [RequestLogged (Host r) (URLPath r) c (int (length (wBody w'))) (RemoteAddr r),
           Requests (Host r) (show_int c), ObserveRequest (Host r) []] (nWorld n1)\<rparr>)) \<or>
     wStatus w' = Some 500)"
proof -
  obtain w' where w': "fst (bizHandler D r w n) = Done w'"
    "sent_as_logged {200, 404, 429, 502} w' \<and> bytes_ok w' \<and>
       (\<exists>n1. snd (bizHandler D r w n) = n1\<lparr>nWorld := emits (request_events r w') (nWorld n1)\<rparr>) \<or>
     wStatus w' = Some 500"
    using bizHandler_status [OF assms] by blast
  show ?thesis
  proof (cases "wStatus w' = Some 500")
    case False
    with w'(2) obtain c n1 where "c \<in> {200, 404, 429, 502}" "wStatus w' = Some c" "wLogged w' = c"
      "wBytes w' = int (length (wBody w'))"
      "snd (bizHandler D r w n) = n1\<lparr>nWorld := emits (request_events r w') (nWorld n1)\<rparr>"
      by (auto simp: sent_as_logged_def bytes_ok_def)
    with w'(1) show ?thesis by (intro exI [of _ w']) (fastforce simp: request_events_def)
  qed (use w'(1) in blast)
qed

theorem every_request_answered_witness:
  "\<exists>w'. fst (bizHandler (ex_deps ex_down) ex_req new_writer ex_node) = Done w' \<and>
    ((\<exists>c \<in> {200, 404, 429, 502}. wStatus w' = Some c \<and>
       (\<exists>n1. snd (bizHandler (ex_deps ex_down) ex_req new_writer ex_node) = n1\<lparr>nWorld := emits
          [RequestLogged (Host ex_req) (URLPath ex_req) c (int (length (wBody w'))) (RemoteAddr ex_req),
           Requests (Host ex_req) (show_int c), ObserveRequest (Host ex_req) []] (nWorld n1)\<rparr>)) \<or>
     wStatus w' = Some 500)"
  by (rule every_request_answered) (simp_all add: new_writer_def)

text \<open>
  Exactly the requests whose host, less its port, is not a configured domain get a 404, and
  they change nothing.
\<close>

lemma unknown_domain_404:
  assumes "wStatus w = None" "dRegistry D = plugin_registry X T"
  shows "((\<exists>w'. fst (ServeHTTP D r w n) = Done w' \<and> wStatus w' = Some 404) \<longleftrightarrow>
      nDomains n (stripPort (Host r)) = None) \<and>
    (nDomains n (stripPort (Host r)) = None \<longrightarrow> snd (ServeHTTP D r w n) = n)"
proof (cases "nDomains n (stripPort (Host r))")
  case None
  then show ?thesis
    using http_Error_fresh [OF assms(1)] by (auto simp: ServeHTTP_unknown http_NotFound_def)
next
  case (Some cfg)
  from Some assms(2) have "\<not> (\<exists>w'. fst (ServeHTTP D r w n) = Done w' \<and> wStatus w' = Some 404)"
  proof (cases rule: ServeHTTP_known [where w = w])
    case (rejected wd')
    then show ?thesis using http_Error_fresh [OF assms(1)] by auto
  next
    case (passed pCtx r' wd')
    then show ?thesis
      using serve_cached_status [OF assms(1), of D cfg pCtx r' "n\<lparr>nWorld := wd'\<rparr>"]
      by (auto simp: sent_as_logged_def)
  qed
  with Some show ?thesis by simp
qed

text \<open>
  A request the rate limiter rejects gets a 429 and changes neither the cache, the storage,
  the flush rules, the origin puller nor the domain table.
\<close>

lemma rejected_changes_nothing:
  assumes "wStatus w = None" "dRegistry D = plugin_registry X T"
    and "fst (ServeHTTP D r w n) = Done w'" "wStatus w' = Some 429"
  shows "snd (ServeHTTP D r w n) = n\<lparr>nWorld := nWorld (snd (ServeHTTP D r w n))\<rparr>"
proof (cases "nDomains n (stripPort (Host r))")
  case None
  then show ?thesis by (simp add: ServeHTTP_unknown)
next
  case (Some cfg)
  from Some assms(2) show ?thesis
  proof (cases rule: ServeHTTP_known [where w = w])
    case (rejected wd')
    then show ?thesis by simp
  next
    case (passed pCtx r' wd')
    then show ?thesis
      using serve_cached_status [OF assms(1), of D cfg pCtx r' "n\<lparr>nWorld := wd'\<rparr>"] assms(3,4)
      by (auto simp: sent_as_logged_def)
  qed
qed

text \<open>The state of the example after its first request.\<close>

definition ex_m :: Meta where
  "ex_m = \<lparr>mKey = ex_key, WrittenAt = 3, TTL = Hour, mSize = 3, mHeaders = Some []\<rparr>"

lemma ex_passed:
  "nDomains n (stripPort (Host ex_req)) = Some ex_domain \<Longrightarrow>
   passed (ex_deps N) ex_req n = Some (ex_domain, ex_pctx, ex_req, n)"
  by (simp only: passed_def option.case ex_pipeline prod.case if_True) simp

lemma ex_node1_passed: "passed (ex_deps N) ex_req ex_node1 = Some (ex_domain, ex_pctx, ex_req, ex_node1)"
  by (rule ex_passed) (simp add: ex_node1_def serve_cached_frame ex_domains)

lemma ex_node1_inv: "node_inv ex_node1"
  unfolding ex_node1_def by (rule serve_cached_node_inv [OF ex_node_inv ex_runs_once])

lemma ex_node1_flush: "nFlush ex_node1 = New"
  by (simp add: ex_node1_def serve_cached_frame)

lemma ex_node1_entry: "entry_of ex_node1 ex_key = Some ex_m"
  and ex_node1_coherent: "\<exists>G. lfs.coherent ex_codec {ex_key} G (nCache ex_node1, nStorage ex_node1)"
proof -
  let ?D = "ex_deps (ex_origin 200 [])"
  have D: "dStorage ?D = LocalFS_ops ex_codec" by simp
  obtain e where e: "fst (first_look ?D ex_domain ex_pctx ex_req ex_node) = Inl e" using ex_miss by blast
  have sep: "lfs.separate ex_codec (insert (serve_key ?D ex_domain ex_pctx ex_req) {})"
    using ex_separate by (simp add: ex_serve_key)
  have cap: "0 < maxItems (nCache ex_node)" by (simp add: NewLRUCache_def)
  show "entry_of ex_node1 ex_key = Some ex_m"
    using lfs.serve_store(1) [OF D ex_runs_once ex_coherent sep e ex_fetch ex_fs_ok(3) cap, where w = new_writer]
    by (simp add: ex_serve_key ex_node1_def ex_m_def)
  show "\<exists>G. lfs.coherent ex_codec {ex_key} G (nCache ex_node1, nStorage ex_node1)"
    using lfs.serve_coherent [OF D ex_runs_once ex_coherent sep ex_fs_ok(3), of new_writer]
    unfolding ex_serve_key ex_node1_def by blast
qed

lemma ex_node1_world: "wticks (nWorld ex_node1) = 4" "wclock (nWorld ex_node1) = int"
proof -
  let ?D = "ex_deps (ex_origin 200 [])"
  let ?f = "snd (snd (fetch_look ?D ex_domain ex_pctx ex_req ex_node))"
  have f: "wticks ?f = 4" by code_simp
  have c: "wclock ?f = int"
    by (simp add: fetch_look_def originFetch_def Puller_Pull_def ex_domain_def Let_def time_Now_def
        look_world_def ex_world_def ex_origin_def Puller_do_def New_Puller_def
        split: outcome.split sum.split prod.split)
  obtain e where "fst (first_look ?D ex_domain ex_pctx ex_req ex_node) = Inl e" using ex_miss by blast
  from serve_cached_miss(3) [OF _ ex_runs_once this, of new_writer]
  show "wticks (nWorld ex_node1) = 4" "wclock (nWorld ex_node1) = int"
    by (simp_all add: ex_node1_def f c lru_inv_new split: sum.split)
qed

lemma ex_node1_puller: "nPuller ex_node1 = \<lparr>pCounter = 1, pNet = ()\<rparr>"
proof -
  let ?D = "ex_deps (ex_origin 200 [])"
  have f: "fst (snd (fetch_look ?D ex_domain ex_pctx ex_req ex_node)) = \<lparr>pCounter = 1, pNet = ()\<rparr>"
    by (simp add: fetch_look_def originFetch_def ex_path Puller_Pull_def ex_domain_def New_Puller_def
        Puller_do_def ex_origin_def Let_def time_Now_def)
  obtain e where "fst (first_look ?D ex_domain ex_pctx ex_req ex_node) = Inl e" using ex_miss by blast
  from serve_cached_miss(2) [OF _ ex_runs_once this, of new_writer] f show ?thesis
    by (simp add: ex_node1_def lru_inv_new)
qed

lemma ex_node1_time: "look_time ex_node1 = 4"
  by (simp add: look_time_def ex_node1_world)

lemma serve_cached_fresh:
  assumes D: "dStorage D = LocalFS_ops C" and coh: "lfs.coherent C K G (nCache n, nStorage n)"
    and e: "entry_of n (serve_key D cfg pCtx r) = Some m"
    and nf: "\<not> flush_hits (Domain cfg) (RewrittenPath pCtx) (serve_key D cfg pCtx r) n"
    and fresh: "look_time n \<le> ExpiresAt m" and w: "wStatus w = None"
  shows "\<exists>b w'. G (serve_key D cfg pCtx r) = Some (b, m) \<and>
    fst (serve_cached D cfg pCtx w r n) = Done w' \<and> wBody w' = wBody w @ b \<and> wStatus w' = Some 200 \<and> wLogged w' = 200 \<and>
    map_of (wSent w') ''X-Cache'' = Some [''hit''] \<and>
    nPuller (snd (serve_cached D cfg pCtx w r n)) = nPuller n \<and>
    wevents (nWorld (snd (serve_cached D cfg pCtx w r n))) = wevents (nWorld n) @ served_events True (Domain cfg)"
proof -
  have "\<not> After (look_time n) (ExpiresAt m)" using fresh by (simp add: After_def)
  then show ?thesis
  proof (rule lfs.serve_fresh [OF D coh e nf, where w = w])
    fix b
    assume b: "G (serve_key D cfg pCtx r) = Some (b, m)"
      "fst (serve_cached D cfg pCtx w r n) = Done (write_response True pCtx (bytes_reader b) m w)"
      "nPuller (snd (serve_cached D cfg pCtx w r n)) = nPuller n"
    have "\<exists>x. fst (first_look D cfg pCtx r n) = Inr x"
    proof (rule ccontr)
      assume "\<nexists>x. fst (first_look D cfg pCtx r n) = Inr x"
      then obtain err where "fst (first_look D cfg pCtx r n) = Inl err"
        by (cases "fst (first_look D cfg pCtx r n)") auto
      moreover have "checked D cfg pCtx r n = n" using nf by (simp add: checked_def flush_check_eq)
      moreover obtain el where "items (nCache n) (serve_key D cfg pCtx r) = Some el" "m = vals (nCache n) el"
        using e by (auto simp: entry_of_def)
      ultimately show False
        using lfs.coherent_hit [OF coh, of "serve_key D cfg pCtx r" el "look_time n"] fresh D
        by (auto simp: first_look_def After_def)
    qed
    then obtain rc m' where "fst (first_look D cfg pCtx r n) = Inr (rc, m')" by auto
    note ev = serve_cached_hit(3) [OF this, of w]
    show ?thesis
      using b ev write_response_fresh [OF w, of True pCtx "bytes_reader b" m]
        write_response_X_Cache [OF w, of True pCtx "bytes_reader b" m] by simp
  qed
qed

text \<open>
  C12: an entry that is fresh and that no rule flushes is served from the disk to every request that
  passes the plugins: the bytes stored with it, status 200, \<open>X-Cache: hit\<close>, counted as a hit and as
  a request with status 200, and without contacting the origin.
\<close>

theorem fresh_entry_served:
  assumes D: "dStorage D = LocalFS_ops C" "dRegistry D = plugin_registry X T"
    and coh: "lfs.coherent C K G (nCache n, nStorage n)"
    and pass: "passed D r n = Some (cfg, pCtx, r1, n1)"
    and e: "entry_of n (serve_key D cfg pCtx r1) = Some m"
    and nf: "\<not> flushed_after (nFlush n) (Domain cfg) (RewrittenPath pCtx) (WrittenAt m)"
    and fresh: "look_time n1 \<le> ExpiresAt m"
  shows "\<exists>b w'. G (serve_key D cfg pCtx r1) = Some (b, m) \<and>
    fst (bizHandler D r new_writer n) = Done w' \<and> wBody w' = b \<and> wStatus w' = Some 200 \<and>
    map_of (wSent w') ''X-Cache'' = Some [''hit''] \<and>
    nPuller (snd (bizHandler D r new_writer n)) = nPuller n \<and>
    wevents (nWorld (snd (bizHandler D r new_writer n))) =
      wevents (nWorld n1) @
        [CacheHits (Domain cfg), ObserveRequest (Domain cfg) ''true'',
         RequestLogged (Host r) (URLPath r) 200 (int (length b)) (RemoteAddr r),
         Requests (Host r) ''200'', ObserveRequest (Host r) []]"
proof -
  note n1 = passed_node [OF pass]
  have "lfs.coherent C K G (nCache n1, nStorage n1)" "entry_of n1 (serve_key D cfg pCtx r1) = Some m"
    "\<not> flush_hits (Domain cfg) (RewrittenPath pCtx) (serve_key D cfg pCtx r1) n1"
    using coh e nf by (simp_all add: n1 flush_hits_def)
  from serve_cached_fresh [OF D(1) this fresh, of new_writer] obtain b w' where
    b: "G (serve_key D cfg pCtx r1) = Some (b, m)" and s: "fst (serve_cached D cfg pCtx new_writer r1 n1) = Done w'"
      "wBody w' = b" "wStatus w' = Some 200" "wLogged w' = 200" "map_of (wSent w') ''X-Cache'' = Some [''hit'']"
      "nPuller (snd (serve_cached D cfg pCtx new_writer r1 n1)) = nPuller n1"
      "wevents (nWorld (snd (serve_cached D cfg pCtx new_writer r1 n1))) = wevents (nWorld n1) @ served_events True (Domain cfg)"
    by (auto simp: new_writer_def)
  have "bizHandler D r new_writer n = (Done w', (snd (serve_cached D cfg pCtx new_writer r1 n1))\<lparr>nWorld :=
      emits (request_events r w') (nWorld (snd (serve_cached D cfg pCtx new_writer r1 n1)))\<rparr>)"
    by (rule biz_passed [OF pass D(2)]) (simp add: s(1) prod_eq_iff)
  moreover have "wBytes w' = int (length b)"
    using serve_cached_bytes [OF _ s(1)] s(2) by (simp add: bytes_ok_def new_writer_def)
  ultimately show ?thesis using b s n1(4) by (simp add: served_events_def request_events_def)
qed

theorem fresh_entry_served_witness:
  "\<exists>w'. fst (bizHandler (ex_deps ex_down) ex_req new_writer ex_node1) = Done w' \<and> wStatus w' = Some 200 \<and>
     map_of (wSent w') ''X-Cache'' = Some [''hit'']"
proof -
  obtain G where coh: "lfs.coherent ex_codec {ex_key} G (nCache ex_node1, nStorage ex_node1)"
    using ex_node1_coherent by blast
  have "\<not> flushed_after (nFlush ex_node1) (Domain ex_domain) (RewrittenPath ex_pctx) (WrittenAt ex_m)"
    by (simp add: ex_node1_flush flushed_after_def)
  moreover have "look_time ex_node1 \<le> ExpiresAt ex_m"
    by (simp add: ex_node1_time ex_m_def ExpiresAt_def Add_def Hour_def Minute_def Second_def)
  moreover have "dStorage (ex_deps ex_down) = LocalFS_ops ex_codec"
    "dRegistry (ex_deps ex_down) = plugin_registry ex_regexp ex_tb"
    "entry_of ex_node1 (serve_key (ex_deps ex_down) ex_domain ex_pctx ex_req) = Some ex_m"
    by (simp_all add: ex_serve_key ex_node1_entry)
  ultimately show ?thesis using fresh_entry_served [OF _ _ coh ex_node1_passed] by blast
qed

text \<open>
  C13: a request that misses and reaches the origin stores what it got, so a later request with the
  same cache key that passes the plugins, before the entry expires and with no newer flush rule, is
  answered from the cache with the same body and without contacting the origin.
\<close>

theorem miss_then_hit:
  assumes D: "dStorage D = LocalFS_ops C" "runs_once (dDo D)" "dRegistry D = plugin_registry X T"
    and coh: "lfs.coherent C K G (nCache n, nStorage n)"
    and first: "passed D r n = Some (cfg, pCtx, r1, n1)" "lfs.separate C (insert (serve_key D cfg pCtx r1) K)"
      "fst (first_look D cfg pCtx r1 n1) = Inl e" "fst (fetch_look D cfg pCtx r1 n1) = Inr (rd, m)"
      "lfs_ok_meta C (metaToStorageMeta (dFmt D) m)" "0 < maxItems (nCache n)"
      "n' = snd (bizHandler D r new_writer n)"
    and second: "passed D q n' = Some (cfg2, pCtx2, q1, n2)"
      "serve_key D cfg2 pCtx2 q1 = serve_key D cfg pCtx r1" "look_time n2 \<le> ExpiresAt m"
      "\<not> flushed_after (nFlush n) (Domain cfg2) (RewrittenPath pCtx2) (WrittenAt m)"
  shows "(\<exists>w'. fst (bizHandler D r new_writer n) = Done w' \<and> wBody w' = rd_data rd) \<and>
    fst (bizHandler D q new_writer n') = Done (write_response True pCtx2 (bytes_reader (rd_data rd)) m new_writer) \<and>
    nPuller (snd (bizHandler D q new_writer n')) = nPuller n'"
proof -
  have w: "wStatus new_writer = None" "wBody new_writer = []" by (simp_all add: new_writer_def)
  note n1 = passed_node [OF first(1)] and n2 = passed_node [OF second(1)]
  have coh1: "lfs.coherent C K G (nCache n1, nStorage n1)" "0 < maxItems (nCache n1)"
    using coh first(6) by (simp_all add: n1)
  have inv: "lru_inv (nCache n1)" using coh1(1) by (simp add: lfs.coherent_def)
  let ?n = "snd (serve_cached D cfg pCtx new_writer r1 n1)"
  obtain w' where s: "serve_cached D cfg pCtx new_writer r1 n1 = (Done w', ?n)" "wBody w' = rd_data rd"
    using serve_cached_miss(1) [OF inv D(2) first(3), of new_writer] first(4) write_response_fresh(2) [OF w(1)] w(2)
    by (simp add: prod_eq_iff)
  note b = biz_passed [OF first(1) D(3) s(1)]
  then have n': "nCache n' = nCache ?n" "nStorage n' = nStorage ?n" "nFlush n' = nFlush n1"
    by (simp_all add: first(7) serve_cached_frame)
  have again: "fst (serve_cached D cfg2 pCtx2 new_writer q1 n2) =
      Done (write_response True pCtx2 (bytes_reader (rd_data rd)) m new_writer) \<and>
    nPuller (snd (serve_cached D cfg2 pCtx2 new_writer q1 n2)) = nPuller n2"
    by (rule lfs.serve_again [OF D(1,2) coh1(1) first(2-5) coh1(2) refl _ _ _ second(2,3)])
       (use second(4) in \<open>simp_all add: n2 n' n1\<close>)
  then have "serve_cached D cfg2 pCtx2 new_writer q1 n2 =
      (Done (write_response True pCtx2 (bytes_reader (rd_data rd)) m new_writer),
       snd (serve_cached D cfg2 pCtx2 new_writer q1 n2))" by (simp add: prod_eq_iff)
  from biz_passed [OF second(1) D(3) this] again b s(2) n2(4) show ?thesis by simp
qed

theorem miss_then_hit_witness:
  "fst (bizHandler (ex_deps (ex_origin 200 [])) ex_req new_writer
      (snd (bizHandler (ex_deps (ex_origin 200 [])) ex_req new_writer ex_node))) =
     Done (write_response True ex_pctx (bytes_reader ''o/x'')
       \<lparr>mKey = ex_key, WrittenAt = 3, TTL = Hour, mSize = 3, mHeaders = Some []\<rparr> new_writer)"
proof -
  let ?D = "ex_deps (ex_origin 200 [])" let ?n = "snd (bizHandler ?D ex_req new_writer ex_node)"
  obtain e where e: "fst (first_look ?D ex_domain ex_pctx ex_req ex_node) = Inl e" using ex_miss by blast
  have sep: "lfs.separate ex_codec (insert (serve_key ?D ex_domain ex_pctx ex_req) {})"
    using ex_separate by (simp add: ex_serve_key)
  have D: "dStorage ?D = LocalFS_ops ex_codec" "dRegistry ?D = plugin_registry ex_regexp ex_tb" by simp_all
  obtain w' where "serve_cached ?D ex_domain ex_pctx new_writer ex_req ex_node = (Done w', ex_node1)"
    using serve_cached_miss(1) [OF _ ex_runs_once e, of new_writer] ex_fetch
    by (simp add: ex_node1_def lru_inv_new prod_eq_iff)
  note b = biz_passed [OF ex_passed [OF ex_domains] D(2) this]
  have n: "nDomains ?n = nDomains ex_node1" "look_time ?n = look_time ex_node1"
    by (simp_all add: b look_time_def)
  have dom: "nDomains ?n (stripPort (Host ex_req)) = Some ex_domain"
    unfolding n by (simp add: ex_node1_def serve_cached_frame ex_domains)
  have fresh: "look_time ?n \<le> ExpiresAt \<lparr>mKey = ex_key, WrittenAt = 3, TTL = Hour, mSize = 3, mHeaders = Some []\<rparr>"
    using ex_node1_time by (simp add: n ExpiresAt_def Add_def Hour_def Minute_def Second_def)
  from miss_then_hit [OF D(1) ex_runs_once D(2) ex_coherent ex_passed [OF ex_domains] sep e ex_fetch _ _ refl
      ex_passed [OF dom] refl fresh]
  show ?thesis by (simp add: ex_fs_ok(3) flushed_after_def NewLRUCache_def)
qed

text \<open>
  A new flush rule takes effect on the next request: an entry written before the rule whose
  path has the prefix is not served, whatever its lifetime; the answer is decided by the fetch.
\<close>

lemma flush_forces_fetch:
  assumes "node_inv n" "runs_once (dDo D)"
    and "entry_of n (serve_key D cfg pCtx r) = Some m"
    and "WrittenAt m < wclock (nWorld n) (Suc (wticks (nWorld n)))"
    and "HasPrefix (RewrittenPath pCtx) p"
    and "n1 = snd (add_flush_rule D A (Domain cfg) p w0 n)"
  shows "fst (serve_cached D cfg pCtx w r n1) =
    (case fst (fetch_look D cfg pCtx r n1) of
       Inl FetchPanic \<Rightarrow> Crashed w
     | Inl _ \<Rightarrow> Done (http_Error ''Bad Gateway'' 502 w)
     | Inr (rc, meta) \<Rightarrow> Done (write_response False pCtx rc meta w))"
proof -
  have inv: "lru_inv (nCache n1)" using assms(1) add_flush_rule_inv unfolding assms(6) node_inv_def by blast
  have e1: "entry_of n1 k = entry_of n k" for k
    by (simp add: assms(6) entry_of_def add_flush_rule_state)
  have hits: "flush_hits (Domain cfg) (RewrittenPath pCtx) (serve_key D cfg pCtx r) n1"
    using assms(3-5) by (simp add: flush_hits_def e1)
      (simp add: assms(6) add_flush_rule_state flushed_after_append)
  then obtain e where miss: "fst (first_look D cfg pCtx r n1) = Inl e"
    using first_look_stale [OF inv] by blast
  have "indexed D cfg pCtx r n1 = False"
    using hits by (simp add: indexed_def checked_def flush_check_entry [OF inv])
  then show ?thesis unfolding serve_cached_miss(1) [OF inv assms(2) miss] by (simp only:)
qed

lemma serve_cached_failed:
  assumes "lru_inv (nCache n)" "runs_once (dDo D)"
    and "fst (first_look D cfg pCtx r n) = Inl e"
    and "fst (fetch_look D cfg pCtx r n) = Inl err" "err \<noteq> FetchPanic"
  shows "fst (serve_cached D cfg pCtx w r n) = Done (http_Error ''Bad Gateway'' 502 w) \<and>
    entry_of (snd (serve_cached D cfg pCtx w r n)) (serve_key D cfg pCtx r) = None"
proof -
  let ?k = "serve_key D cfg pCtx r"
  obtain c1 st1 where g: "first_look D cfg pCtx r n = (Inl e, c1, st1)"
    using assms(3) by (cases "first_look D cfg pCtx r n") auto
  note g' = g [unfolded first_look_def]
  have gone: "items c1 ?k = None"
    by (rule Get_failed_gone [OF checked_inv [OF assms(1)] g'])
  obtain p1 wd1 where f: "fetch_look D cfg pCtx r n = (Inl err, p1, wd1)"
    using assms(4) by (cases "fetch_look D cfg pCtx r n") auto
  have "fst (nCache (snd (serve_cached D cfg pCtx w r n)), nStorage (snd (serve_cached D cfg pCtx w r n))) = c1"
    unfolding serve_cached_cs GetOrFetch_miss_once [OF checked_inv [OF assms(1)] g' assms(2)]
    by (simp add: f [unfolded fetch_look_def])
  with gone have "entry_of (snd (serve_cached D cfg pCtx w r n)) ?k = None" by (simp add: entry_of_def)
  moreover have "fst (serve_cached D cfg pCtx w r n) = Done (http_Error ''Bad Gateway'' 502 w)"
    using serve_cached_miss(1) [OF assms(1-3), of w] assms(4,5) by (simp split: fetch_err.split)
  ultimately show ?thesis by blast
qed

text \<open>
  C14: when the fetch fails the client gets a 502, counted as such, and nothing is cached for the
  key; an entry that was there and had expired or was flushed is gone.
\<close>

theorem failed_fetch_not_cached:
  assumes "lru_inv (nCache n)" "runs_once (dDo D)" "dRegistry D = plugin_registry X T"
    and "passed D r n = Some (cfg, pCtx, r1, n1)" "fst (first_look D cfg pCtx r1 n1) = Inl e"
    and "fst (fetch_look D cfg pCtx r1 n1) = Inl err" "err \<noteq> FetchPanic"
  shows "(\<exists>w'. fst (bizHandler D r new_writer n) = Done w' \<and> wStatus w' = Some 502) \<and>
    (\<exists>es. wevents (nWorld (snd (bizHandler D r new_writer n))) =
       es @ [RequestLogged (Host r) (URLPath r) 502 12 (RemoteAddr r), Requests (Host r) ''502'', ObserveRequest (Host r) []]) \<and>
    entry_of (snd (bizHandler D r new_writer n)) (serve_key D cfg pCtx r1) = None"
proof -
  have w: "wStatus new_writer = None" by (simp add: new_writer_def)
  have inv: "lru_inv (nCache n1)" using assms(1) passed_node(1) [OF assms(4)] by simp
  note f = serve_cached_failed [OF inv assms(2,5-7), of new_writer]
  let ?n = "snd (serve_cached D cfg pCtx new_writer r1 n1)"
  have "serve_cached D cfg pCtx new_writer r1 n1 = (Done (http_Error ''Bad Gateway'' 502 new_writer), ?n)"
    using f by (simp add: prod_eq_iff)
  moreover have "show_int 502 = ''502''" by code_simp
  ultimately show ?thesis
    using biz_passed [OF assms(4,3)] f http_Error_fresh [OF w, of "''Bad Gateway''" 502]
      http_Error_bytes [of new_writer "''Bad Gateway''" 502]
    by (auto simp: entry_of_def request_events_def new_writer_def)
qed

theorem failed_fetch_not_cached_witness:
  "(\<exists>w'. fst (bizHandler (ex_deps ex_down) ex_req new_writer ex_node) = Done w' \<and> wStatus w' = Some 502) \<and>
   entry_of (snd (bizHandler (ex_deps ex_down) ex_req new_writer ex_node))
     (serve_key (ex_deps ex_down) ex_domain ex_pctx ex_req) = None"
proof -
  obtain e where e: "fst (first_look (ex_deps ex_down) ex_domain ex_pctx ex_req ex_node) = Inl e"
    using ex_miss by blast
  have f: "fst (fetch_look (ex_deps ex_down) ex_domain ex_pctx ex_req ex_node) =
      Inl (FetchPull (AllFailed (Some (''o'', ClientDo ''refused''))))" by code_simp
  have "lru_inv (nCache ex_node)" "dRegistry (ex_deps ex_down) = plugin_registry ex_regexp ex_tb"
    by (simp_all add: lru_inv_new)
  from failed_fetch_not_cached [OF this(1) ex_runs_once this(2) ex_passed [OF ex_domains] e f] show ?thesis by blast
qed


section \<open>The running service\<close>

text \<open>A fetch of a request, in terms of the closure of \<open>originFetch\<close>.\<close>

lemma fetched_in_pull:
  assumes "fetched_in D r n = Some (k, b, m)"
  obtains cfg pCtx r1 n1 resp p1 where "passed D r n = Some (cfg, pCtx, r1, n1)" "k = serve_key D cfg pCtx r1"
    "fetch_pull D cfg pCtx r1 (nPuller n) = (Returned resp, p1)" "RespBody resp = bytes_reader b"
    "mHeaders m = Some (RespHeader resp)"
    "WrittenAt m = wclock (nWorld n1) (wticks (nWorld n1) + 3)"
    "TTL m = ParseTTL (dParseTime D) (wclock (nWorld n1) (wticks (nWorld n1) + 2)) (RespHeader resp) (DefaultTTL cfg)"
  by (rule fetched_inE [OF assms]) (rule that, simp_all add: fetch_pull_def)

text \<open>
  C1: every body the service answers 200 with, in every state it can reach from an empty cache over
  a disk without faults, goes back to a request of that run, the answered one or one before it, with
  the same cache key: that request met a domain of the configuration it found, which was configured
  at the start or by a reload of the run, and got a response with exactly that body from the origins
  of that domain, for its own path and headers and in the state the puller was in. The headers sent
  are those of that response, last value each. Both requests are for the same domain, as names without
  colon: bodies of different domains do not mix. The keys in use are assumed to have distinct digests.
\<close>

theorem served_body_genuine:
  assumes D: "dStorage D = LocalFS_ops C" "runs_once (dDo D)" "dRegistry D = plugin_registry X T"
    and start: "nCache n0 = NewLRUCache cap" "0 \<le> cap" "lfs_inv (nStorage n0)" "lfs_reliable (nStorage n0)"
    and keys: "inj_on (keyToPath C) (insert persistKey K)" "persistKey \<notin> K"
    and run: "reach (lfs_ok_meta C) K D A n0 tr n"
    and req: "fst (bizHandler D r new_writer n) = Done w'" "wStatus w' = Some 200"
  shows "\<exists>cfg pCtx r1 n1 n' r' cfg' pCtx' r1' n1' resp p'.
    passed D r n = Some (cfg, pCtx, r1, n1) \<and>
    (n', EvRequest r') \<in> set (tr @ [(n, EvRequest r)]) \<and>
    passed D r' n' = Some (cfg', pCtx', r1', n1') \<and> configured n0 tr cfg' \<and>
    serve_key D cfg' pCtx' r1' = serve_key D cfg pCtx r1 \<and>
    (CHR '':'' \<notin> set (Domain cfg) \<union> set (Domain cfg') \<longrightarrow> Domain cfg' = Domain cfg) \<and>
    fetch_pull D cfg' pCtx' r1' (nPuller n') = (Returned resp, p') \<and> RespBody resp = bytes_reader (wBody w') \<and>
    (canonical_header (RespHeader resp) \<longrightarrow>
      (\<forall>k v vs. map_of (RespHeader resp) k = Some (v # vs) \<and> k \<noteq> ''X-Cache'' \<longrightarrow>
        map_of (wSent w') k = Some [last (v # vs)]))"
proof -
  have w: "wStatus new_writer = None" "wBody new_writer = []" by (simp_all add: new_writer_def)
  have good: "lfs.content_ok C D K tr n" by (rule reach_content [OF D(1,2) start keys run])
  obtain cfg pCtx r1 n1 b m hit where pass: "passed D r n = Some (cfg, pCtx, r1, n1)"
    and w': "w' = write_response hit pCtx (bytes_reader b) m new_writer"
    and "fetched_in D r n = Some (serve_key D cfg pCtx r1, b, m) \<or>
      origin_entry D tr (serve_key D cfg pCtx r1) b m \<and> entry_of n (serve_key D cfg pCtx r1) = Some m \<and>
        \<not> After (look_time n1) (ExpiresAt m)"
    by (rule lfs.served_source [OF D good req])
  then have "origin_entry D (tr @ [(n, EvRequest r)]) (serve_key D cfg pCtx r1) b m"
    by (auto intro: origin_entry_now origin_entry_mono)
  then obtain n' r' where ev: "(n', EvRequest r') \<in> set (tr @ [(n, EvRequest r)])"
    and f: "fetched_in D r' n' = Some (serve_key D cfg pCtx r1, b, m)" unfolding origin_entry_def by blast
  obtain cfg' pCtx' r1' n1' resp p' where src: "passed D r' n' = Some (cfg', pCtx', r1', n1')"
    "serve_key D cfg pCtx r1 = serve_key D cfg' pCtx' r1'" "fetch_pull D cfg' pCtx' r1' (nPuller n') = (Returned resp, p')"
    "RespBody resp = bytes_reader b" "mHeaders m = Some (RespHeader resp)"
    by (rule fetched_in_pull [OF f])
  have "configured n0 tr cfg'"
    using reach_passed_configured [OF run ev src(1)] .
  moreover have "CHR '':'' \<notin> set (Domain cfg) \<union> set (Domain cfg') \<longrightarrow> Domain cfg' = Domain cfg"
    using Build_domain [of "Domain cfg'" "Domain cfg"] src(2) [symmetric] by (auto simp: serve_key_def)
  moreover have "RespBody resp = bytes_reader (wBody w')"
    using write_response_fresh(2) [OF w(1)] w(2) src(4) by (simp add: w')
  moreover have "map_of (wSent w') k = Some [last (v # vs)]"
    if "canonical_header (RespHeader resp)" "map_of (RespHeader resp) k = Some (v # vs)" "k \<noteq> ''X-Cache''" for k v vs
    using write_response_header [OF w(1) src(5) that(1)] that(2,3) by (simp add: w')
  ultimately show ?thesis
    using pass ev src(1-3)
    by (intro exI [of _ cfg] exI [of _ pCtx] exI [of _ r1] exI [of _ n1] exI [of _ n'] exI [of _ r']
        exI [of _ cfg'] exI [of _ pCtx'] exI [of _ r1'] exI [of _ n1'] exI [of _ resp] exI [of _ p'] conjI)
      (simp_all del: set_append)
qed

text \<open>
  C3: a 200 is never stale: in every state the service can reach from an empty cache over a disk
  without faults, its body was fetched by that very request, after a lookup that missed, or the
  index has an entry for its key that a request of the run before it fetched with that very body, and
  at the time of the lookup the entry is at most as old as its lifetime. The age counts from the clock
  reading of that request after the answer of the origin, and the lifetime is what \<open>ParseTTL\<close> computes
  from the headers of that answer.
\<close>

theorem served_body_fresh:
  assumes D: "dStorage D = LocalFS_ops C" "runs_once (dDo D)" "dRegistry D = plugin_registry X T"
    and start: "nCache n0 = NewLRUCache cap" "0 \<le> cap" "lfs_inv (nStorage n0)" "lfs_reliable (nStorage n0)"
    and keys: "inj_on (keyToPath C) (insert persistKey K)" "persistKey \<notin> K"
    and run: "reach (lfs_ok_meta C) K D A n0 tr n"
    and req: "fst (bizHandler D r new_writer n) = Done w'" "wStatus w' = Some 200"
  shows "\<exists>cfg pCtx r1 n1 m. passed D r n = Some (cfg, pCtx, r1, n1) \<and>
    (fetched_in D r n = Some (serve_key D cfg pCtx r1, wBody w', m) \<or>
     entry_of n (serve_key D cfg pCtx r1) = Some m \<and> look_time n1 - WrittenAt m \<le> TTL m \<and>
     (\<exists>n' r' cfg' pCtx' r1' n1' resp p'. (n', EvRequest r') \<in> set tr \<and>
        fetched_in D r' n' = Some (serve_key D cfg pCtx r1, wBody w', m) \<and>
        passed D r' n' = Some (cfg', pCtx', r1', n1') \<and>
        fetch_pull D cfg' pCtx' r1' (nPuller n') = (Returned resp, p') \<and>
        WrittenAt m = wclock (nWorld n1') (wticks (nWorld n1') + 3) \<and>
        TTL m = ParseTTL (dParseTime D) (wclock (nWorld n1') (wticks (nWorld n1') + 2)) (RespHeader resp)
          (DefaultTTL cfg')))"
proof -
  have w: "wStatus new_writer = None" "wBody new_writer = []" by (simp_all add: new_writer_def)
  have good: "lfs.content_ok C D K tr n" by (rule reach_content [OF D(1,2) start keys run])
  obtain cfg pCtx r1 n1 b m hit where pass: "passed D r n = Some (cfg, pCtx, r1, n1)"
    and w': "w' = write_response hit pCtx (bytes_reader b) m new_writer"
    and source: "fetched_in D r n = Some (serve_key D cfg pCtx r1, b, m) \<or>
      origin_entry D tr (serve_key D cfg pCtx r1) b m \<and> entry_of n (serve_key D cfg pCtx r1) = Some m \<and>
        \<not> After (look_time n1) (ExpiresAt m)"
    by (rule lfs.served_source [OF D good req])
  have b: "wBody w' = b" using write_response_fresh(2) [OF w(1)] w(2) by (simp add: w')
  show ?thesis
  proof (cases "fetched_in D r n = Some (serve_key D cfg pCtx r1, b, m)")
    case True
    with pass b show ?thesis by blast
  next
    case False
    with source obtain n' r' where hit: "(n', EvRequest r') \<in> set tr"
      "fetched_in D r' n' = Some (serve_key D cfg pCtx r1, b, m)"
      "entry_of n (serve_key D cfg pCtx r1) = Some m" "\<not> After (look_time n1) (ExpiresAt m)"
      unfolding origin_entry_def by blast
    have "look_time n1 - WrittenAt m \<le> TTL m" using hit(4) by (simp add: After_def ExpiresAt_def Add_def)
    obtain cfg' pCtx' r1' n1' resp p' where "passed D r' n' = Some (cfg', pCtx', r1', n1')"
      "fetch_pull D cfg' pCtx' r1' (nPuller n') = (Returned resp, p')"
      "WrittenAt m = wclock (nWorld n1') (wticks (nWorld n1') + 3)"
      "TTL m = ParseTTL (dParseTime D) (wclock (nWorld n1') (wticks (nWorld n1') + 2)) (RespHeader resp)
        (DefaultTTL cfg')"
      by (rule fetched_in_pull [OF hit(2)])
    with hit(1,2) have source: "\<exists>n' r' cfg' pCtx' r1' n1' resp p'. (n', EvRequest r') \<in> set tr \<and>
        fetched_in D r' n' = Some (serve_key D cfg pCtx r1, wBody w', m) \<and>
        passed D r' n' = Some (cfg', pCtx', r1', n1') \<and>
        fetch_pull D cfg' pCtx' r1' (nPuller n') = (Returned resp, p') \<and>
        WrittenAt m = wclock (nWorld n1') (wticks (nWorld n1') + 3) \<and>
        TTL m = ParseTTL (dParseTime D) (wclock (nWorld n1') (wticks (nWorld n1') + 2)) (RespHeader resp)
          (DefaultTTL cfg')"
      unfolding b by (intro exI conjI)
    show ?thesis
      by (rule exI [of _ cfg], rule exI [of _ pCtx], rule exI [of _ r1], rule exI [of _ n1], rule exI [of _ m])
        (rule conjI [OF pass disjI2 [OF conjI [OF hit(3) conjI [OF \<open>look_time n1 - WrittenAt m \<le> TTL m\<close> source]]]])
  qed
qed

text \<open>
  C5: a flush rule of an administrator is enforced for good: in any run of the service after it was
  added, without a reload, whatever requests, admin calls and cleanup ticks there are, a 200 for
  a path under its prefix has a body fetched by that very request, or one stored after the rule
  was created.
\<close>

theorem flush_rule_enforced:
  assumes D: "runs_once (dDo D)" "dRegistry D = plugin_registry X T" and n: "node_inv n"
    and rule: "n1 = snd (add_flush_rule D A (Domain cfg) p w0 n)"
    and run: "list_all (\<lambda>ev. \<not> is_reload ev) evs" "n2 = fold (sys_step D A) evs n1"
    and dom: "nDomains n2 (stripPort (Host q)) = Some cfg"
    and pipe: "Pipeline_Execute (dRegistry D) (Plugins cfg) (Domain cfg) new_writer q (nWorld n2) =
      (True, pCtx, new_writer, q1, wd1)"
    and path: "HasPrefix (RewrittenPath pCtx) p"
    and req: "fst (bizHandler D q new_writer n2) = Done w'" "wStatus w' = Some 200"
  shows "(\<exists>rd m. fst (fetch_look D cfg pCtx q1 (n2\<lparr>nWorld := wd1\<rparr>)) = Inr (rd, m) \<and> wBody w' = rd_data rd) \<or>
    (\<exists>m. entry_of n2 (serve_key D cfg pCtx q1) = Some m \<and>
       wclock (nWorld n) (Suc (wticks (nWorld n))) \<le> WrittenAt m)"
proof -
  let ?r = "new_rule (wclock (nWorld n) (wticks (nWorld n))) (wclock (nWorld n) (Suc (wticks (nWorld n)))) (Domain cfg) p"
  let ?n = "n2\<lparr>nWorld := wd1\<rparr>"
  have w: "wStatus new_writer = None" "wBody new_writer = []" by (simp_all add: new_writer_def)
  have r: "?r \<in> set (rules_of (nFlush n2) (Domain cfg))"
    using sys_run_rules [OF run(1), of n1 "Domain cfg" D A] by (auto simp: run(2) rule add_flush_rule_state)
  have "node_inv n2"
    unfolding run(2) rule by (rule sys_run_inv [OF add_flush_rule_inv [OF n] D])
  then have inv: "lru_inv (nCache ?n)" by (simp add: node_inv_def)
  have pass: "passed D q n2 = Some (cfg, pCtx, q1, ?n)" using dom pipe by (simp add: passed_def)
  have inv2: "lru_inv (nCache n2)" using inv by simp
  show ?thesis
  proof (rule biz_200_source [OF D inv2 req])
    fix cfg0 pCtx0 q0 n0 b m hit
    assume "passed D q n2 = Some (cfg0, pCtx0, q0, n0)"
      "fetched_in D q n2 = Some (serve_key D cfg0 pCtx0 q0, b, m)"
      "w' = write_response hit pCtx0 (bytes_reader b) m new_writer"
    with pass write_response_fresh(2) [OF w(1)] w(2) show ?thesis
      by (auto simp: fetched_in_def split: sum.splits)
  next
    fix cfg0 pCtx0 q0 n0 m
    assume *: "passed D q n2 = Some (cfg0, pCtx0, q0, n0)"
      "\<not> flush_hits (Domain cfg0) (RewrittenPath pCtx0) (serve_key D cfg0 pCtx0 q0) n0"
      "entry_of n0 (serve_key D cfg0 pCtx0 q0) = Some m"
    with pass have "\<not> flushed_after (nFlush n2) (Domain cfg) (RewrittenPath pCtx) (WrittenAt m)"
      "entry_of n2 (serve_key D cfg pCtx q1) = Some m"
      by (auto simp: flush_hits_def entry_of_def)
    moreover from this(1) r have "\<not> (HasPrefix (RewrittenPath pCtx) (rPrefix ?r) \<and> WrittenAt m < rCreatedAt ?r)"
      unfolding flushed_after_def by blast
    ultimately show ?thesis using path by (simp add: new_rule_def not_less)
  qed
qed

theorem served_body_genuine_witness:
  "\<exists>w' cfg' pCtx' r' resp p'. fst (bizHandler (ex_deps (ex_origin 200 [])) ex_req new_writer ex_node) = Done w' \<and>
    fetch_pull (ex_deps (ex_origin 200 [])) cfg' pCtx' r' (nPuller ex_node) = (Returned resp, p') \<and>
    RespBody resp = bytes_reader (wBody w')"
proof -
  let ?w = "write_response False ex_pctx (bytes_reader ''o/x'')
       \<lparr>mKey = ex_key, WrittenAt = 3, TTL = Hour, mSize = 3, mHeaders = Some []\<rparr> new_writer"
  let ?D = "ex_deps (ex_origin 200 [])"
  have ok: "wStatus ?w = Some 200" by (rule write_response_fresh) (simp add: new_writer_def)
  have D: "dStorage ?D = LocalFS_ops ex_codec" "dRegistry ?D = plugin_registry ex_regexp ex_tb" by simp_all
  have n: "nCache ex_node = NewLRUCache 2" "(0::int) \<le> 2" "lfs_inv (nStorage ex_node)"
    "lfs_reliable (nStorage ex_node)" by (simp_all add: ex_fs_ok)
  have K: "inj_on (keyToPath ex_codec) (insert persistKey {})" "persistKey \<notin> {}" by simp_all
  from served_body_genuine [OF D(1) ex_runs_once D(2) n K reach_start ex_biz ok]
  have "\<exists>n' r' cfg' pCtx' r1' resp p'. (n', EvRequest r') \<in> set ([] @ [(ex_node, EvRequest ex_req)]) \<and>
    fetch_pull ?D cfg' pCtx' r1' (nPuller n') = (Returned resp, p') \<and> RespBody resp = bytes_reader (wBody ?w)" by metis
  with ex_biz show ?thesis by auto
qed

theorem served_body_fresh_witness:
  "\<exists>w'. fst (bizHandler (ex_deps (ex_origin 200 [])) ex_req new_writer ex_node) = Done w' \<and>
    (\<exists>k m. fetched_in (ex_deps (ex_origin 200 [])) ex_req ex_node = Some (k, wBody w', m))"
proof -
  let ?D = "ex_deps (ex_origin 200 [])"
  have D: "dStorage ?D = LocalFS_ops ex_codec" "dRegistry ?D = plugin_registry ex_regexp ex_tb" by simp_all
  have n: "nCache ex_node = NewLRUCache 2" "(0::int) \<le> 2" "lfs_inv (nStorage ex_node)"
    "lfs_reliable (nStorage ex_node)" by (simp_all add: ex_fs_ok)
  have K: "inj_on (keyToPath ex_codec) (insert persistKey {})" "persistKey \<notin> {}" by simp_all
  have ok: "wStatus (write_response False ex_pctx (bytes_reader ''o/x'')
       \<lparr>mKey = ex_key, WrittenAt = 3, TTL = Hour, mSize = 3, mHeaders = Some []\<rparr> new_writer) = Some 200"
    by (rule write_response_fresh) (simp add: new_writer_def)
  from served_body_fresh [OF D(1) ex_runs_once D(2) n K reach_start ex_biz ok] ex_biz
  show ?thesis by auto
qed

text \<open>The example after its whole domain was flushed and a cleanup tick has passed.\<close>

definition ex_flushed :: "(localfs, unit, unit limits) node" where
  "ex_flushed = snd (add_flush_rule (ex_deps (ex_origin 200 [])) ex_admin (Domain ex_domain) ''/'' new_writer ex_node1)"

lemma ex_flushed_tick:
  "ex_flushed = fold (sys_step (ex_deps (ex_origin 200 [])) ex_admin) [EvLimiterTick ''a.com''] ex_flushed"
proof -
  have "wlimits (nWorld ex_node1) = Map.empty"
    unfolding ex_node1_def using serve_cached_limits [OF _ ex_runs_once] by (simp add: lru_inv_new ex_world_def)
  then have "wlimits (nWorld ex_flushed) = Map.empty" by (simp add: ex_flushed_def add_flush_rule_state)
  then show ?thesis by (simp add: limiter_tick_def)
qed

lemma ex_flushed_domains: "nDomains ex_flushed (stripPort (Host ex_req)) = Some ex_domain"
  using ex_domains by (simp add: ex_flushed_def add_flush_rule_state ex_node1_def serve_cached_frame)

lemma ex_flushed_fetch:
  "\<exists>rd m. fst (fetch_look (ex_deps (ex_origin 200 [])) ex_domain ex_pctx ex_req ex_flushed) = Inr (rd, m)"
proof -
  have "nPuller ex_flushed = \<lparr>pCounter = 1, pNet = ()\<rparr>"
    by (simp add: ex_flushed_def add_flush_rule_state ex_node1_puller)
  then show ?thesis
    by (simp add: fetch_look_def originFetch_def ex_path Puller_Pull_def ex_domain_def Puller_do_def
        ex_origin_def Let_def time_Now_def smod_int_alt_def)
qed

lemma ex_flushed_biz:
  "\<exists>w'. fst (bizHandler (ex_deps (ex_origin 200 [])) ex_req new_writer ex_flushed) = Done w' \<and> wStatus w' = Some 200"
proof -
  let ?D = "ex_deps (ex_origin 200 [])"
  have nw: "wrapped new_writer = new_writer" "wStatus new_writer = None" by (simp_all add: new_writer_def)
  obtain rd m where f: "fst (fetch_look ?D ex_domain ex_pctx ex_req ex_flushed) = Inr (rd, m)"
    using ex_flushed_fetch by blast
  have "fst (serve_cached ?D ex_domain ex_pctx new_writer ex_req ex_flushed) =
    (case fst (fetch_look ?D ex_domain ex_pctx ex_req ex_flushed) of
      Inl FetchPanic \<Rightarrow> Crashed new_writer
    | Inl _ \<Rightarrow> Done (http_Error ''Bad Gateway'' 502 new_writer)
    | Inr (rc, meta) \<Rightarrow> Done (write_response False ex_pctx rc meta new_writer))"
  proof (rule flush_forces_fetch [OF ex_node1_inv ex_runs_once _ _ _ ex_flushed_def])
    show "entry_of ex_node1 (serve_key ?D ex_domain ex_pctx ex_req) = Some ex_m"
      by (simp add: ex_serve_key ex_node1_entry)
    show "WrittenAt ex_m < wclock (nWorld ex_node1) (Suc (wticks (nWorld ex_node1)))"
      by (simp add: ex_node1_world ex_m_def)
    show "HasPrefix (RewrittenPath ex_pctx) ''/''" by (simp add: ex_pctx_def HasPrefix_def)
  qed
  then have s: "fst (serve_cached ?D ex_domain ex_pctx new_writer ex_req ex_flushed) =
      Done (write_response False ex_pctx rd m new_writer)" by (simp add: f)
  moreover have "ServeHTTP ?D ex_req new_writer ex_flushed =
      serve_cached ?D ex_domain ex_pctx new_writer ex_req ex_flushed"
    unfolding ServeHTTP_def ex_flushed_domains option.case ex_pipeline prod.case Let_def by simp
  ultimately show ?thesis
    using write_response_fresh(1) [OF nw(2), of False ex_pctx rd m]
    by (cases "serve_cached ?D ex_domain ex_pctx new_writer ex_req ex_flushed")
       (simp add: bizHandler_def Recovery_def RequestLogger_def nw(1))
qed

theorem flush_rule_enforced_witness:
  "\<exists>w'. fst (bizHandler (ex_deps (ex_origin 200 [])) ex_req new_writer ex_flushed) = Done w' \<and>
    ((\<exists>rd m. fst (fetch_look (ex_deps (ex_origin 200 [])) ex_domain ex_pctx ex_req ex_flushed) = Inr (rd, m) \<and>
        wBody w' = rd_data rd) \<or>
     (\<exists>m. entry_of ex_flushed ex_key = Some m \<and> 5 \<le> WrittenAt m))"
proof -
  let ?D = "ex_deps (ex_origin 200 [])"
  obtain w' where w': "fst (bizHandler ?D ex_req new_writer ex_flushed) = Done w'" "wStatus w' = Some 200"
    using ex_flushed_biz by blast
  have reg: "dRegistry ?D = plugin_registry ex_regexp ex_tb" by simp
  have evs: "list_all (\<lambda>ev. \<not> is_reload ev) [EvLimiterTick ''a.com'']" by simp
  have pre: "HasPrefix (RewrittenPath ex_pctx) ''/''" by (simp add: ex_pctx_def HasPrefix_def)
  from flush_rule_enforced [OF ex_runs_once reg ex_node1_inv ex_flushed_def evs ex_flushed_tick
      ex_flushed_domains ex_pipeline pre w'] w'(1)
  show ?thesis by (simp add: ex_serve_key ex_node1_world)
qed

text \<open>
  C4: in every state the service reaches from its start, whatever the disk, the network and the
  clock do, map and list of the cache agree with at most \<open>MaxItems\<close> entries, every flush rule is
  filed under its domain, the limiter tables are consistent and every domain has its own
  configuration.
\<close>

theorem reachable_consistent:
  assumes "startup D0 AC yaml readfile path init o1 wd = Some (cfg, D, A, n0)" "limits_inv (wlimits wd)"
    and "runs_once (dDo D0)" "dRegistry D0 = plugin_registry X T" "reachable D A n0 n"
  shows "node_inv n \<and> int (LRUCache_Len (nCache n)) \<le> MaxItems (cfgCache cfg)"
proof -
  note s = startup_SomeD [OF assms(1)]
  have D: "runs_once (dDo D)" "dRegistry D = plugin_registry X T" using s(4,5) assms(3,4) by simp_all
  have n0: "node_inv n0" by (rule boot_inv [OF s(1,2) assms(2)])
  have cap: "maxItems (nCache n0) = MaxItems (cfgCache cfg)"
    using s(1) by (auto simp: boot_def Let_def Update_def NewHandler_def NewLRUCache_def
        split: if_splits option.splits prod.splits)
  have "node_inv n \<and> maxItems (nCache n) = MaxItems (cfgCache cfg)"
    using assms(5)
  proof induction
    case start
    from n0 cap show ?case by simp
  next
    case (step n ev)
    with sys_step_inv [OF _ D] sys_step_maxItems [OF _ D] show ?case by metis
  qed
  then show ?thesis by (auto simp: node_inv_def lru_inv_def LRUCache_Len_def)
qed

theorem reachable_consistent_witness:
  "\<exists>cfg D A n0. startup (ex_deps ex_down) (aCodec ex_admin) (\<lambda>_. Some (ex_config\<lparr>cfgDomains := [ex_domain]\<rparr>))
      (\<lambda>_. Some []) ''config.yaml'' (\<lambda>_. Some ex_fs) () ex_world = Some (cfg, D, A, n0) \<and>
    int (LRUCache_Len (nCache (sys_step D A (EvRequest ex_req) n0))) \<le> 10000"
proof -
  let ?start = "startup (ex_deps ex_down) (aCodec ex_admin) (\<lambda>_. Some (ex_config\<lparr>cfgDomains := [ex_domain]\<rparr>))
      (\<lambda>_. Some []) ''config.yaml'' (\<lambda>_. Some ex_fs) () ex_world"
  obtain cfg D A n0 where b: "?start = Some (cfg, D, A, n0)" and cap: "MaxItems (cfgCache cfg) = 10000"
    using ex_load by (auto simp: startup_def Load_def ex_config_def Defaults_def default_str_def boot_def Let_def)
  have "limits_inv (wlimits ex_world)" by (simp add: limits_inv_def ex_world_def)
  moreover have "dRegistry (ex_deps ex_down) = plugin_registry ex_regexp ex_tb" by simp
  ultimately show ?thesis
    using reachable_consistent [OF b _ ex_runs_once _ reachable.step [OF reachable.start], of ex_regexp ex_tb "EvRequest ex_req"]
      b cap by auto
qed


section \<open>Flush rules across a restart\<close>

text \<open>
  C30: on a reliable disk, and if the JSON codec is inverse on the rules, a rule that was added is
  on the disk with all the others: a service that starts from that disk loads, for every domain,
  the rules the running service has, in the same order.
\<close>

theorem rules_survive_restart:
  assumes "lfs_inv st" "lfs_reliable st" "lfs_ok_meta C rules_metadata" "store_inv fs"
    and "Store_AddRule (LocalFS_ops C) J now1 now2 d p (fs, st) = (e, fs', st')"
    and "marshalRules J (allRulesLocked fs') = Some data" "unmarshalRules J data = Some (allRulesLocked fs')"
  shows "e = None \<and> (\<exists>fs'' st''. Store_Load (LocalFS_ops C) J (New, st') = (None, fs'', st'') \<and>
    (\<forall>d'. rules_of fs'' d' = rules_of fs' d'))"
proof -
  let ?w = "stWrite (LocalFS_ops C) persistKey (bytes_reader data) (Some rules_metadata) st"
  have inv': "store_inv fs'" by (rule Store_AddRule_inv [OF assms(5,4)])
  have "fst ?w = None" by (rule lfs.write_complete [OF assms(1-3)]) simp
  then have p: "persist (LocalFS_ops C) J (allRulesLocked fs') st = (None, snd ?w)"
    by (cases ?w) (simp add: persist_def assms(6))
  have "(e, st') = persist (LocalFS_ops C) J (allRulesLocked fs') st"
    using assms(5) by (auto simp: Store_AddRule_def Let_def split: prod.splits)
  then have e: "e = None" and st': "st' = snd ?w" using p by simp_all
  obtain mo where "fst (stRead (LocalFS_ops C) persistKey st') = Inr (bytes_reader data, mo)"
    using lfs.read_after_write [OF assms(1-3), of "bytes_reader data" persistKey] by (auto simp: st')
  then have "\<exists>st''. Store_Load (LocalFS_ops C) J (New, st') = (None, load_rules (allRulesLocked fs') New, st'')"
    by (cases "stRead (LocalFS_ops C) persistKey st'") (simp add: Store_Load_def assms(7))
  with e reload_rules [OF inv'] show ?thesis by blast
qed

theorem rules_survive_restart_witness:
  "\<exists>fs'' st''. Store_Load (LocalFS_ops ex_codec) (ex_rules_codec [new_rule 1 2 ''a.com'' ''/''])
     (New, snd (snd (Store_AddRule (LocalFS_ops ex_codec) (ex_rules_codec [new_rule 1 2 ''a.com'' ''/'']) 1 2
        ''a.com'' ''/'' (New, ex_fs)))) = (None, fs'', st'') \<and>
     rules_of fs'' ''a.com'' = [new_rule 1 2 ''a.com'' ''/'']"
proof -
  let ?J = "ex_rules_codec [new_rule 1 2 ''a.com'' ''/'']"
  obtain e fs' st' where a: "Store_AddRule (LocalFS_ops ex_codec) ?J 1 2 ''a.com'' ''/'' (New, ex_fs) = (e, fs', st')"
    by (cases "Store_AddRule (LocalFS_ops ex_codec) ?J 1 2 ''a.com'' ''/'' (New, ex_fs)")
  have fs': "fs' = append_rule ''a.com'' (new_rule 1 2 ''a.com'' ''/'') New"
    by (rule Store_AddRule_rules [OF a])
  have all: "allRulesLocked fs' = [new_rule 1 2 ''a.com'' ''/'']"
    by (simp add: fs' allRulesLocked_def append_rule_def New_def rules_of_def)
  have "marshalRules ?J (allRulesLocked fs') = Some ''rules''" "unmarshalRules ?J ''rules'' = Some (allRulesLocked fs')"
    by (simp_all add: ex_rules_codec_def all)
  from rules_survive_restart [OF ex_fs_ok(1,2) ex_fs_ok(3) store_inv_New a this] a show ?thesis
    by (auto simp: fs')
qed


section \<open>Administration\<close>

text \<open>
  The admin API addresses the entry a request uses, if the URL has its host, path and query, no
  plugin rewrote the path, the key rules of the domain are still those of the start, and no request
  header is part of the key.
\<close>

lemma admin_key_agrees:
  assumes "Hostname (Host parsed) = Domain cfg" "URLPath parsed = RewrittenPath pCtx" "RawQuery parsed = RawQuery r"
    and "domainKeyRules A (Domain cfg) = KeyRules cfg"
    and "IncludeHeaders (case KeyRules cfg of None \<Rightarrow> kbGlobal (dKeyBuilder D) | Some x \<Rightarrow> x) = []"
  shows "admin_key D A parsed = serve_key D cfg pCtx r"
  using assms by (simp add: admin_key_def serve_key_def Build_def buildQuery_def buildHeaderHash_def Let_def
      split: option.splits)

text \<open>
  C33: \<open>FlushURL\<close> with a URL it can parse answers 204 and leaves no entry under the key it builds,
  and no other entry is lost; the next request with that key, at whatever time, does not find it
  in the cache.
\<close>

theorem FlushURL_removes:
  assumes "lru_inv (nCache n)" "wStatus w = None"
    and "decURL (aCodec A) body = Some url" "url \<noteq> []" "parseURL (aCodec A) url = Some parsed"
  shows "wStatus (fst (FlushURL D A body w n)) = Some 204 \<and>
    cache_view (nCache (snd (FlushURL D A body w n))) =
      filter (\<lambda>m. mKey m \<noteq> admin_key D A parsed) (cache_view (nCache n)) \<and>
    (\<forall>cfg pCtx r wd. serve_key D cfg pCtx r = admin_key D A parsed \<longrightarrow>
      (\<exists>e. fst (first_look D cfg pCtx r ((snd (FlushURL D A body w n))\<lparr>nWorld := wd\<rparr>)) = Inl e))"
proof (cases "LRUCache_Delete (dStorage D) (admin_key D A parsed) (nCache n, nStorage n)")
  case (fields e c st)
  note d = Delete_refines_spec [OF assms(1) fields]
  then have gone: "items c (admin_key D A parsed) = None"
    using spec_lookup_view [of c "admin_key D A parsed"] by (simp add: lru_inv_def)
  have eq: "FlushURL D A body w n = (WriteHeader 204 w, n\<lparr>nCache := c, nStorage := st\<rparr>)"
    using fields assms(3-5) by (simp add: FlushURL_def SingleflightCache_Delete_def Let_def)
  have "\<exists>e. fst (first_look D cfg pCtx r ((snd (FlushURL D A body w n))\<lparr>nWorld := wd\<rparr>)) = Inl e"
    if "serve_key D cfg pCtx r = admin_key D A parsed" for cfg pCtx r wd
    using that d gone by (intro first_look_stale) (simp_all add: eq entry_of_def)
  with d assms(2) show ?thesis by (simp add: eq spec_remove_def)
qed

theorem FlushURL_removes_witness:
  "entry_of ex_node1 (serve_key (ex_deps ex_down) ex_domain ex_pctx ex_req) = Some ex_m \<and>
   (\<exists>e. fst (first_look (ex_deps ex_down) ex_domain ex_pctx ex_req
     ((snd (FlushURL (ex_deps ex_down) ex_admin ''http://a.com/x'' new_writer ex_node1))\<lparr>nWorld := ex_world\<rparr>)) = Inl e)"
proof -
  have key: "serve_key (ex_deps ex_down) ex_domain ex_pctx ex_req = admin_key (ex_deps ex_down) ex_admin ex_req"
    by code_simp
  have n: "lru_inv (nCache ex_node1)" using ex_node1_inv by (simp add: node_inv_def)
  have w: "wStatus new_writer = None" by (simp add: new_writer_def)
  have c: "decURL (aCodec ex_admin) ''http://a.com/x'' = Some ''http://a.com/x''"
    "parseURL (aCodec ex_admin) ''http://a.com/x'' = Some ex_req" by (simp_all add: ex_admin_def)
  from FlushURL_removes [OF n w c(1) _ c(2), of "ex_deps ex_down"] key ex_node1_entry show ?thesis
    by (simp add: ex_serve_key)
qed

text \<open>
  What \<open>Stat\<close> reports of an entry agrees with what a request would do with it: it reports a
  flush-rule match exactly when the request's flush check would evict the entry, and a hit
  exactly when it would not.
\<close>

lemma Stat_agrees_with_flush_check:
  assumes "entry_of n key = Some m"
  shows "(srFlushRuleMatch (stat_of now (Store_Match domain path (nFlush n)) m) \<longleftrightarrow> flush_hits domain path key n) \<and>
    (srHit (stat_of now (Store_Match domain path (nFlush n)) m) \<longleftrightarrow> \<not> flush_hits domain path key n)"
  using assms by (simp add: stat_of_def Let_def flush_hits_def Match_decides)

text \<open>
  A hot reload replaces the domain table as a whole, the last entry of a name winning, and
  leaves the cache and the origin puller alone.
\<close>

lemma hot_reload_domains:
  "nDomains (hot_reload D cfg n) h = find (\<lambda>d. Domain d = h) (rev (cfgDomains cfg)) \<and>
   nCache (hot_reload D cfg n) = nCache n \<and> nPuller (hot_reload D cfg n) = nPuller n"
  by (auto simp: hot_reload_def Update_def Let_def time_Now_def domain_table_find split: prod.split)


section \<open>What the code does not do as its documents say\<close>

lemma serve_cached_status_lost:
  assumes "dStorage D = LocalFS_ops C" "runs_once (dDo D)" "lfs.coherent C K G (nCache n, nStorage n)"
    "lfs.separate C (insert (serve_key D cfg pCtx r) K)" "fst (first_look D cfg pCtx r n) = Inl e"
    "\<And>m. lfs_ok_meta C (metaToStorageMeta (dFmt D) m)" "0 < maxItems (nCache n)" "wStatus w = None"
    and "Puller_Pull (dNet D) (wrap64 (OriginTimeout cfg * (OriginRetry cfg + 2))) (Origins cfg)
      (OriginTimeout cfg) (OriginRetry cfg) (originPath pCtx r) (ReqHeader r) (nPuller n) =
      (Returned \<lparr>StatusCode = code, RespHeader = h, RespBody = bytes_reader b\<rparr>, p1)"
  shows "\<exists>w'. fst (serve_cached D cfg pCtx w r n) = Done w' \<and> wStatus w' = Some 200 \<and> wBody w' = wBody w @ b \<and>
    entry_of (snd (serve_cached D cfg pCtx w r n)) (serve_key D cfg pCtx r) \<noteq> None"
proof -
  obtain m where f: "fst (fetch_look D cfg pCtx r n) = Inr (bytes_reader b, m)"
    using assms(9) by (simp add: fetch_look_def originFetch_def Let_def time_Now_def)
  have inv: "lru_inv (nCache n)" using assms(3) by (simp add: lfs.coherent_def)
  show ?thesis
    using lfs.serve_store(1) [OF assms(1-5) f assms(6,7), of w]
      serve_cached_miss(1) [OF inv assms(2,5), of w] f write_response_fresh [OF assms(8)] by simp
qed

text \<open>
  A response that forbids storing is stored all the same, with lifetime 0, so that every later
  request misses but reports a hit.
\<close>

lemma no_store_is_stored:
  assumes "dStorage D = LocalFS_ops C" "runs_once (dDo D)" "lfs.coherent C K G (nCache n, nStorage n)"
    "lfs.separate C (insert (serve_key D cfg pCtx r) K)" "fst (first_look D cfg pCtx r n) = Inl e"
    "\<And>m. lfs_ok_meta C (metaToStorageMeta (dFmt D) m)" "0 < maxItems (nCache n)"
    and "Puller_Pull (dNet D) (wrap64 (OriginTimeout cfg * (OriginRetry cfg + 2))) (Origins cfg)
      (OriginTimeout cfg) (OriginRetry cfg) (originPath pCtx r) (ReqHeader r) (nPuller n) =
      (Returned \<lparr>StatusCode = code, RespHeader = h, RespBody = bytes_reader b\<rparr>, p1)"
    and "uncacheable h"
  shows "\<exists>m. entry_of (snd (serve_cached D cfg pCtx w r n)) (serve_key D cfg pCtx r) = Some m \<and> TTL m = 0"
proof -
  obtain m where f: "fst (fetch_look D cfg pCtx r n) = Inr (bytes_reader b, m)" "TTL m = 0"
    using assms(8) ParseTTL_uncacheable [OF assms(9)]
    by (simp add: fetch_look_def originFetch_def Let_def time_Now_def)
  from lfs.serve_store(1) [OF assms(1-5) f(1) assms(6,7), of w] f(2) show ?thesis by simp
qed

lemma ex_pull_404:
  "Puller_Pull (ex_origin 404 []) (wrap64 (OriginTimeout ex_domain * (OriginRetry ex_domain + 2)))
     (Origins ex_domain) (OriginTimeout ex_domain) (OriginRetry ex_domain) (originPath ex_pctx ex_req)
     (ReqHeader ex_req) (nPuller ex_node) =
   (Returned \<lparr>StatusCode = 404, RespHeader = [], RespBody = bytes_reader ''o/x''\<rparr>, \<lparr>pCounter = 1, pNet = ()\<rparr>)"
  by (simp add: ex_path) (simp add: Puller_Pull_def ex_domain_def New_Puller_def Puller_do_def ex_origin_def Let_def)

text \<open>
  C39: whatever status the origin answered with, as long as it is no 5xx, the client gets a 200
  with the body of that answer, and the answer is cached.
\<close>

theorem origin_status_lost:
  assumes "dStorage D = LocalFS_ops C" "runs_once (dDo D)" "dRegistry D = plugin_registry X T"
    and "lfs.coherent C K G (nCache n, nStorage n)" "passed D r n = Some (cfg, pCtx, r1, n1)"
      "lfs.separate C (insert (serve_key D cfg pCtx r1) K)" "fst (first_look D cfg pCtx r1 n1) = Inl e"
    and "\<And>m. lfs_ok_meta C (metaToStorageMeta (dFmt D) m)" "0 < maxItems (nCache n)"
    and "Puller_Pull (dNet D) (wrap64 (OriginTimeout cfg * (OriginRetry cfg + 2))) (Origins cfg)
      (OriginTimeout cfg) (OriginRetry cfg) (originPath pCtx r1) (ReqHeader r1) (nPuller n) =
      (Returned \<lparr>StatusCode = code, RespHeader = h, RespBody = bytes_reader b\<rparr>, p1)"
  shows "\<exists>w'. fst (bizHandler D r new_writer n) = Done w' \<and> wStatus w' = Some 200 \<and> wBody w' = b \<and>
    entry_of (snd (bizHandler D r new_writer n)) (serve_key D cfg pCtx r1) \<noteq> None"
proof -
  have w: "wStatus new_writer = None" "wBody new_writer = []" by (simp_all add: new_writer_def)
  note n1 = passed_node [OF assms(5)]
  have n: "lfs.coherent C K G (nCache n1, nStorage n1)" "0 < maxItems (nCache n1)" using assms(4,9) by (simp_all add: n1)
  from serve_cached_status_lost [OF assms(1,2) n(1) assms(6-8) n(2) w(1), of code h b p1] assms(10) w(2)
  obtain w' where s: "fst (serve_cached D cfg pCtx new_writer r1 n1) = Done w'" "wStatus w' = Some 200" "wBody w' = b"
      "entry_of (snd (serve_cached D cfg pCtx new_writer r1 n1)) (serve_key D cfg pCtx r1) \<noteq> None"
    by (auto simp: n1)
  then have "serve_cached D cfg pCtx new_writer r1 n1 = (Done w', snd (serve_cached D cfg pCtx new_writer r1 n1))"
    by (simp add: prod_eq_iff)
  from biz_passed [OF assms(5,3) this] s show ?thesis by (auto simp: entry_of_def)
qed

theorem origin_status_lost_witness:
  "\<exists>w'. fst (bizHandler (ex_deps (ex_origin 404 [])) ex_req new_writer ex_node) = Done w' \<and>
     wStatus w' = Some 200 \<and> wBody w' = ''o/x''"
proof -
  let ?D = "ex_deps (ex_origin 404 [])"
  obtain e where e: "fst (first_look ?D ex_domain ex_pctx ex_req ex_node) = Inl e" using ex_miss by blast
  have sep: "lfs.separate ex_codec (insert (serve_key ?D ex_domain ex_pctx ex_req) {})"
    using ex_separate by (simp add: ex_serve_key)
  have D: "dStorage ?D = LocalFS_ops ex_codec" "dRegistry ?D = plugin_registry ex_regexp ex_tb"
    "0 < maxItems (nCache ex_node)" by (simp_all add: NewLRUCache_def)
  have pull: "Puller_Pull (dNet ?D) (wrap64 (OriginTimeout ex_domain * (OriginRetry ex_domain + 2)))
     (Origins ex_domain) (OriginTimeout ex_domain) (OriginRetry ex_domain) (originPath ex_pctx ex_req)
     (ReqHeader ex_req) (nPuller ex_node) =
   (Returned \<lparr>StatusCode = 404, RespHeader = [], RespBody = bytes_reader ''o/x''\<rparr>, \<lparr>pCounter = 1, pNet = ()\<rparr>)"
    using ex_pull_404 by simp
  from origin_status_lost [OF D(1) ex_runs_once D(2) ex_coherent ex_passed [OF ex_domains] sep e ex_fs_ok(3) D(3) pull]
  show ?thesis by blast
qed

lemma serve_cached_misreports:
  assumes "lru_inv (nCache n)" "runs_once (dDo D)" "wStatus w = None"
    and "entry_of n (serve_key D cfg pCtx r) = Some m" "After (look_time n) (ExpiresAt m)"
    and "\<not> flush_hits (Domain cfg) (RewrittenPath pCtx) (serve_key D cfg pCtx r) n"
    and "fst (fetch_look D cfg pCtx r n) = Inr (rd, m')"
  shows "\<exists>w'. fst (serve_cached D cfg pCtx w r n) = Done w' \<and> wBody w' = wBody w @ rd_data rd \<and>
    map_of (wSent w') ''X-Cache'' = Some [''hit'']"
proof -
  obtain e where miss: "fst (first_look D cfg pCtx r n) = Inl e"
    using first_look_stale [OF assms(1), of cfg pCtx D r] assms(4,5) by auto
  have "indexed D cfg pCtx r n"
    using assms(4,6) by (simp add: indexed_def checked_def flush_check_entry [OF assms(1)])
  then show ?thesis
    using serve_cached_miss(1) [OF assms(1,2) miss, of w] assms(7) write_response_fresh(2) [OF assms(3)]
      write_response_X_Cache [OF assms(3)] by simp
qed

text \<open>
  C40: \<open>X-Cache: hit\<close> does not mean that the response came from the cache: an indexed entry that
  has expired is fetched again, and the response with the fetched body still says hit.
\<close>

theorem X_Cache_misreports:
  assumes "lru_inv (nCache n)" "runs_once (dDo D)" "dRegistry D = plugin_registry X T"
    and "passed D r n = Some (cfg, pCtx, r1, n1)"
    and "entry_of n (serve_key D cfg pCtx r1) = Some m" "After (look_time n1) (ExpiresAt m)"
    and "\<not> flushed_after (nFlush n) (Domain cfg) (RewrittenPath pCtx) (WrittenAt m)"
    and "fst (fetch_look D cfg pCtx r1 n1) = Inr (rd, m')"
  shows "\<exists>w'. fst (bizHandler D r new_writer n) = Done w' \<and> wBody w' = rd_data rd \<and>
    map_of (wSent w') ''X-Cache'' = Some [''hit'']"
proof -
  have w: "wStatus new_writer = None" "wBody new_writer = []" by (simp_all add: new_writer_def)
  note n1 = passed_node [OF assms(4)]
  have "lru_inv (nCache n1)" "entry_of n1 (serve_key D cfg pCtx r1) = Some m"
    "\<not> flush_hits (Domain cfg) (RewrittenPath pCtx) (serve_key D cfg pCtx r1) n1"
    using assms(1,5,7) by (simp_all add: n1 flush_hits_def)
  from serve_cached_misreports [OF this(1) assms(2) w(1) this(2) assms(6) this(3) assms(8)] w(2)
  obtain w' where s: "fst (serve_cached D cfg pCtx new_writer r1 n1) = Done w'" "wBody w' = rd_data rd"
      "map_of (wSent w') ''X-Cache'' = Some [''hit'']" by auto
  then have "serve_cached D cfg pCtx new_writer r1 n1 = (Done w', snd (serve_cached D cfg pCtx new_writer r1 n1))"
    by (simp add: prod_eq_iff)
  from biz_passed [OF assms(4,3) this] s show ?thesis by simp
qed

definition ex_late :: "(localfs, unit, unit limits) node" where
  "ex_late = ex_node1\<lparr>nWorld := (nWorld ex_node1)\<lparr>wclock := (\<lambda>i. int i + 2 * Hour)\<rparr>\<rparr>"

theorem X_Cache_misreports_witness:
  "\<exists>w'. fst (bizHandler (ex_deps (ex_origin 200 [])) ex_req new_writer ex_late) = Done w' \<and>
     map_of (wSent w') ''X-Cache'' = Some [''hit'']"
proof -
  let ?D = "ex_deps (ex_origin 200 [])"
  have inv: "lru_inv (nCache ex_late)" using ex_node1_inv by (simp add: ex_late_def node_inv_def)
  have e: "entry_of ex_late (serve_key ?D ex_domain ex_pctx ex_req) = Some ex_m"
    using ex_node1_entry by (simp add: ex_serve_key ex_late_def entry_of_def)
  have old: "After (look_time ex_late) (ExpiresAt ex_m)"
    by (simp add: After_def look_time_def ex_late_def ex_node1_world ex_m_def ExpiresAt_def Add_def
        Hour_def Minute_def Second_def)
  have nf: "\<not> flushed_after (nFlush ex_late) (Domain ex_domain) (RewrittenPath ex_pctx) (WrittenAt ex_m)"
    using ex_node1_flush by (simp add: flushed_after_def) (simp add: ex_late_def)
  have p: "nPuller ex_late = \<lparr>pCounter = 1, pNet = ()\<rparr>" by (simp add: ex_late_def ex_node1_puller)
  have "\<exists>rd m'. fst (fetch_look ?D ex_domain ex_pctx ex_req ex_late) = Inr (rd, m')"
    by (simp add: fetch_look_def originFetch_def p ex_path Puller_Pull_def ex_domain_def Puller_do_def
        ex_origin_def Let_def time_Now_def smod_int_alt_def)
  then obtain rd m' where f: "fst (fetch_look ?D ex_domain ex_pctx ex_req ex_late) = Inr (rd, m')" by blast
  have "nDomains ex_late (stripPort (Host ex_req)) = Some ex_domain"
    using ex_domains by (simp add: ex_late_def ex_node1_def serve_cached_frame)
  moreover have "dRegistry ?D = plugin_registry ex_regexp ex_tb" by simp
  ultimately show ?thesis
    using X_Cache_misreports [OF inv ex_runs_once _ ex_passed e old nf f] by blast
qed

end
